(* ===== verification/Prelude.thy ===== *)
theory Prelude
  imports Main "HOL-Library.Word"
begin

unbundle bit_operations_syntax

text \<open>
  Shared vocabulary of the development: the machine integer types of
  \<^verbatim>\<open>include/sys/defs.h\<close>, the ways in which a piece of kernel code can go wrong
  (one constructor of \<open>fault\<close> each), the result type of fallible code with its sequencing
  operator, an invariant interface for state machines, and the generic facts on words and
  lists that more than one component uses.
\<close>

section \<open>Types\<close>

type_synonym u64 = "64 word"
type_synonym u32 = "32 word"
type_synonym u16 = "16 word"
type_synonym u8 = "8 word"

abbreviation NUL :: char where "NUL \<equiv> CHR 0x00"

text \<open>
  What the C code does outside its defined behaviour, or where it stops for good:
  a store through \<open>NULL\<close>, an index outside a fixed array, a string copied into a buffer
  that cannot hold it, signed overflow, \<^verbatim>\<open>while(1);\<close> after the kernel ran out of page
  frames, any other endless loop, a \<^verbatim>\<open>va_arg\<close> of the wrong type or past the last argument, an
  access of the kernel to a page that is not mapped and that the fault handler does not map.
\<close>

datatype fault = NullDeref | OutOfBounds | BufferOverflow | SignedOverflow | OutOfMemory | Hang | BadArgument | PageFault

type_synonym 'a res = "fault + 'a"

definition rbind :: "'a res \<Rightarrow> ('a \<Rightarrow> 'b res) \<Rightarrow> 'b res" where
  "rbind m f = (case m of Inl e \<Rightarrow> Inl e | Inr x \<Rightarrow> f x)"

text \<open>A counted loop whose body can fail: the body for each index in turn.\<close>

fun rfold :: "('i \<Rightarrow> 's \<Rightarrow> 's res) \<Rightarrow> 'i list \<Rightarrow> 's \<Rightarrow> 's res" where
  "rfold f [] s = Inr s"
| "rfold f (i # is) s = rbind (f i s) (rfold f is)"

text \<open>Division of C, which rounds towards zero, and the remainder that goes with it.\<close>

definition cdiv :: "int \<Rightarrow> int \<Rightarrow> int" where
  "cdiv a b = sgn a * sgn b * (\<bar>a\<bar> div \<bar>b\<bar>)"

definition cmod :: "int \<Rightarrow> int \<Rightarrow> int" where
  "cmod a b = a - cdiv a b * b"

section \<open>Collections\<close>

named_theorems res_simps \<open>equations of the result type\<close>
named_theorems paging_simps \<open>page alignment, table indices and table entries\<close>
named_theorems frame_simps \<open>what an operation leaves alone\<close>

section \<open>Results\<close>

lemma rbind_Inl [simp]: "rbind (Inl e) f = Inl e"
  by (simp add: rbind_def)

lemma rbind_Inr [simp]: "rbind (Inr x) f = f x"
  by (simp add: rbind_def)

lemma rbind_eq_Inr [res_simps]: "rbind m f = Inr y \<longleftrightarrow> (\<exists>x. m = Inr x \<and> f x = Inr y)"
  by (cases m) auto

lemma rbind_eq_Inl [res_simps]:
  "rbind m f = Inl e \<longleftrightarrow> m = Inl e \<or> (\<exists>x. m = Inr x \<and> f x = Inl e)"
  by (cases m) auto

lemma rbind_cong [fundef_cong]:
  "m = m' \<Longrightarrow> (\<And>x. m' = Inr x \<Longrightarrow> f x = f' x) \<Longrightarrow> rbind m f = rbind m' f'"
  by (cases m') auto

lemma rbind_assoc: "rbind (rbind m f) g = rbind m (\<lambda>x. rbind (f x) g)"
  by (cases m) auto

lemma rfold_append: "rfold f (xs @ ys) s = rbind (rfold f xs s) (rfold f ys)"
  by (induction xs arbitrary: s) (simp_all add: rbind_assoc cong: rbind_cong)

text \<open>A property that every iteration keeps holds after the loop.\<close>

lemma rfold_invariant:
  assumes "rfold f is s = Inr s'" and "P s"
    and "\<And>i s s'. i \<in> set is \<Longrightarrow> P s \<Longrightarrow> f i s = Inr s' \<Longrightarrow> P s'"
  shows "P s'"
  using assms by (induction "is" arbitrary: s) (auto simp: res_simps)

lemma rfold_noop: "(\<And>i. i \<in> set is \<Longrightarrow> f i s = Inr s) \<Longrightarrow> rfold f is s = Inr s"
  by (induction "is") auto

text \<open>
  What iteration \<open>i\<close> establishes and every iteration keeps, for all \<open>i\<close> of the loop.
\<close>

lemma rfold_establishes:
  assumes run: "rfold f is s = Inr s'" and i: "i \<in> set is"
    and est: "\<And>s s'. f i s = Inr s' \<Longrightarrow> Q s'"
    and keep: "\<And>j s s'. j \<in> set is \<Longrightarrow> Q s \<Longrightarrow> f j s = Inr s' \<Longrightarrow> Q s'"
  shows "Q s'"
proof -
  obtain xs ys where dec: "is = xs @ i # ys" using i by (auto simp: in_set_conv_decomp)
  with run obtain s1 s2 where "f i s1 = Inr s2" and rest: "rfold f ys s2 = Inr s'"
    by (auto simp: rfold_append res_simps)
  then have "Q s2" by (blast intro: est)
  with rest show ?thesis by (rule rfold_invariant [where P = Q]) (auto simp: dec intro: keep)
qed

section \<open>State machines with an invariant\<close>

text \<open>
  The interface every stateful component offers: start states, a step relation, and an
  invariant that the start states have and every step keeps.
\<close>

locale invariant_machine =
  fixes start :: "'s \<Rightarrow> bool"
    and step :: "'s \<Rightarrow> 's \<Rightarrow> bool"
    and invar :: "'s \<Rightarrow> bool"
  assumes invar_start: "start s \<Longrightarrow> invar s"
    and invar_step: "invar s \<Longrightarrow> step s t \<Longrightarrow> invar t"
begin

lemma invar_steps: "step\<^sup>*\<^sup>* s t \<Longrightarrow> invar s \<Longrightarrow> invar t"
  by (induction rule: rtranclp_induct) (auto intro: invar_step)

lemma invar_reachable: "start s \<Longrightarrow> step\<^sup>*\<^sup>* s t \<Longrightarrow> invar t"
  by (blast intro: invar_steps invar_start)

end

section \<open>Lists\<close>

text \<open>A \<^verbatim>\<open>for\<close> loop that returns at the first hit.\<close>

lemma find_upt: "find P [0..<n] = Some i \<longleftrightarrow> i < n \<and> P i \<and> (\<forall>j<i. \<not> P j)"
  by (auto simp: find_Some_iff)

section \<open>Integers\<close>

lemma cdiv_nonneg: "0 \<le> a \<Longrightarrow> 0 < b \<Longrightarrow> cdiv a b = a div b"
  by (cases "a = 0") (simp_all add: cdiv_def)

lemma cmod_nonneg: "0 \<le> a \<Longrightarrow> 0 < b \<Longrightarrow> cmod a b = a mod b"
  by (simp add: cmod_def cdiv_nonneg minus_div_mult_eq_mod)

section \<open>Words\<close>

lemma unat_of_nat_lt: "n < 2 ^ LENGTH('a::len) \<Longrightarrow> unat (of_nat n :: 'a word) = n"
  by (simp add: unat_of_nat take_bit_nat_eq_self)

lemma of_nat_word_inj:
  assumes "(of_nat m :: 'a::len word) = of_nat n"
    and "m < 2 ^ LENGTH('a)" and "n < 2 ^ LENGTH('a)"
  shows "m = n"
  using assms by (metis unat_of_nat_lt)

lemma sint_small:
  assumes "unat (w :: 'a::len word) < 2 ^ (LENGTH('a) - 1)"
  shows "sint w = int (unat w)"
proof -
  have "int (unat w) < int (2 ^ (LENGTH('a) - 1))" using assms by (simp only: of_nat_less_iff)
  then have "uint w < 2 ^ (LENGTH('a) - 1)" by simp
  moreover have "- (2 ^ (LENGTH('a) - 1)) \<le> (0::int)" by simp
  then have "- (2 ^ (LENGTH('a) - 1)) \<le> uint w" by (rule order.trans) simp
  ultimately have "signed_take_bit (LENGTH('a) - 1) (uint w) = uint w"
    by (intro signed_take_bit_int_eq_self)
  then show ?thesis by (simp add: sint_uint)
qed

lemma sint_big:
  assumes "2 ^ (LENGTH('a) - 1) \<le> unat (w :: 'a::len word)"
  shows "sint w < 0"
proof (rule ccontr)
  assume "\<not> sint w < 0"
  moreover have s: "sint w < 2 ^ (LENGTH('a) - 1)" by (rule sint_lt)
  moreover have "sint w < 2 ^ LENGTH('a)"
    using s by (rule order.strict_trans2) (rule power_increasing, simp_all)
  ultimately have "uint w = sint w" by (simp add: uint_sint take_bit_int_eq_self)
  with s have "int (unat w) < int (2 ^ (LENGTH('a) - 1))" by simp
  then have "unat w < 2 ^ (LENGTH('a) - 1)" by (simp only: of_nat_less_iff)
  with assms show False by simp
qed

lemma unat_ucast_small:
  "unat (w :: 'a::len word) < 2 ^ LENGTH('b) \<Longrightarrow> unat (ucast w :: 'b::len word) = unat w"
  by (simp add: unsigned_ucast_eq take_bit_nat_eq_self)

lemma word_of_nat_unat [simp]: "(of_nat (unat (w :: 'a::len word)) :: 'a word) = w"
  by simp

section \<open>Bit fields\<close>

text \<open>Bits \<open>o\<close> to \<open>o + w - 1\<close>, and the store of a C bit field.\<close>

definition get_field :: "nat \<Rightarrow> nat \<Rightarrow> 'a::len word \<Rightarrow> 'a word" where
  "get_field o' w x = take_bit w (drop_bit o' x)"

definition set_field :: "nat \<Rightarrow> nat \<Rightarrow> 'a::len word \<Rightarrow> 'a word \<Rightarrow> 'a word" where
  "set_field o' w v x = (x AND NOT (push_bit o' (mask w))) OR push_bit o' (take_bit w v)"

lemma get_set_field: "o' + w \<le> LENGTH('a) \<Longrightarrow> get_field o' w (set_field o' w v x) = take_bit w (v :: 'a::len word)"
  by (rule bit_word_eqI) (auto simp: get_field_def set_field_def bit_simps)

lemma get_set_other:
  "o1 + w1 \<le> o2 \<or> o2 + w2 \<le> o1 \<Longrightarrow> get_field o1 w1 (set_field o2 w2 v x) = get_field o1 w1 (x :: 'a::len word)"
  by (rule bit_word_eqI) (auto simp: get_field_def set_field_def bit_simps dest: bit_imp_le_length)

lemma take_bit_ucast_eq: "LENGTH('a) \<le> w \<Longrightarrow> take_bit w (ucast (x :: 'a::len word) :: 'b::len word) = ucast x"
  by (rule bit_word_eqI) (auto simp: bit_simps dest: bit_imp_le_length)

lemma get_field_sub: "a + w \<le> w' \<Longrightarrow> get_field (o' + a) w x = get_field a w (get_field o' w' x)"
  by (rule bit_word_eqI) (auto simp: get_field_def bit_simps ac_simps)

end
