(* ===== verification/CString.thy ===== *)
theory CString
  imports Prelude
begin

text \<open>
  The byte and string routines of \<^verbatim>\<open>sys/string.c\<close> (the C library's
  \<^verbatim>\<open>libc/string.c\<close> is the same text), \<^verbatim>\<open>memcpy\<close> of
  \<^verbatim>\<open>sys/process.c\<close> and \<^verbatim>\<open>memset\<close> of \<^verbatim>\<open>sys/ahci.c\<close>, over a flat byte
  memory. The scanning loops stop only at a NUL byte, so they are partial: \<open>None\<close> is a scan
  that never ends. The lemmas show that on NUL-terminated strings in disjoint memory they
  return, what they compute, and which bytes they leave alone; later theories therefore work
  with strings as values.
\<close>

type_synonym bmem = "u64 \<Rightarrow> u8"

section \<open>The routines\<close>

partial_function (option) strcmp :: "bmem \<Rightarrow> u64 \<Rightarrow> u64 \<Rightarrow> int option" where
  "strcmp m s t =
     (if m s = m t then (if m s = 0 then Some 0 else strcmp m (s + 1) (t + 1))
      else Some (sint (m s) - sint (m t)))"

partial_function (option) strcpy :: "bmem \<Rightarrow> u64 \<Rightarrow> u64 \<Rightarrow> bmem option" where
  "strcpy m string2 string1 =
     (if m string1 \<noteq> 0
      then strcpy (m(string2 := m string1)) (string2 + 1) (string1 + 1)
      else Some (m(string2 := 0)))"

partial_function (option) strlen_loop :: "bmem \<Rightarrow> u64 \<Rightarrow> u32 \<Rightarrow> u32 option" where
  "strlen_loop m string len =
     (if m string \<noteq> 0 then strlen_loop m (string + 1) (len + 1) else Some len)"

definition strlen :: "bmem \<Rightarrow> u64 \<Rightarrow> u32 option" where
  "strlen m string = strlen_loop m string 0"

partial_function (option) strcat_seek :: "bmem \<Rightarrow> u64 \<Rightarrow> u64 option" where
  "strcat_seek m string1 = (if m string1 \<noteq> 0 then strcat_seek m (string1 + 1) else Some string1)"

partial_function (option) strcat_copy :: "bmem \<Rightarrow> u64 \<Rightarrow> u64 \<Rightarrow> (u64 \<times> bmem) option" where
  "strcat_copy m string1 string2 =
     (if m string2 \<noteq> 0
      then strcat_copy (m(string1 := m string2)) (string1 + 1) (string2 + 1)
      else Some (string1, m(string1 := 0)))"

definition strcat :: "bmem \<Rightarrow> u64 \<Rightarrow> u64 \<Rightarrow> (u64 \<times> bmem) option" where
  "strcat m string1 string2 =
     (case strcat_seek m string1 of None \<Rightarrow> None | Some e \<Rightarrow> strcat_copy m e string2)"

fun memcpy_loop :: "bmem \<Rightarrow> u64 \<Rightarrow> u64 \<Rightarrow> nat \<Rightarrow> bmem" where
  "memcpy_loop m dest source 0 = m"
| "memcpy_loop m dest source (Suc n) =
     memcpy_loop (m(dest := m source)) (dest + 1) (source + 1) n"

definition memcpy :: "bmem \<Rightarrow> u64 \<Rightarrow> u64 \<Rightarrow> u64 \<Rightarrow> bmem" where
  "memcpy m dst src cnt = memcpy_loop m dst src (unat cnt)"

fun memset_loop :: "bmem \<Rightarrow> u64 \<Rightarrow> u8 \<Rightarrow> nat \<Rightarrow> bmem" where
  "memset_loop m p c 0 = m"
| "memset_loop m p c (Suc n) = memset_loop (m(p := c)) (p + 1) c n"

definition memset :: "bmem \<Rightarrow> u64 \<Rightarrow> u32 \<Rightarrow> u64 \<Rightarrow> bmem" where
  "memset m s c n = memset_loop m s (ucast c) (unat n)"

section \<open>Strings and byte runs in memory\<close>

fun cstr :: "bmem \<Rightarrow> u64 \<Rightarrow> u8 list \<Rightarrow> bool" where
  "cstr m p [] = (m p = 0)"
| "cstr m p (c # cs) = (c \<noteq> 0 \<and> m p = c \<and> cstr m (p + 1) cs)"

fun poke :: "bmem \<Rightarrow> u64 \<Rightarrow> u8 list \<Rightarrow> bmem" where
  "poke m p [] = m"
| "poke m p (b # bs) = poke (m(p := b)) (p + 1) bs"

fun peek :: "bmem \<Rightarrow> u64 \<Rightarrow> nat \<Rightarrow> u8 list" where
  "peek m p 0 = []"
| "peek m p (Suc n) = m p # peek m (p + 1) n"

fun region :: "u64 \<Rightarrow> nat \<Rightarrow> u64 set" where
  "region p 0 = {}"
| "region p (Suc n) = insert p (region (p + 1) n)"

text \<open>Comparison of strings as lists: the difference of the first bytes that differ.\<close>

fun bytes_cmp :: "u8 list \<Rightarrow> u8 list \<Rightarrow> int" where
  "bytes_cmp [] [] = 0"
| "bytes_cmp (c # cs) [] = sint c"
| "bytes_cmp [] (d # ds) = - sint d"
| "bytes_cmp (c # cs) (d # ds) = (if c = d then bytes_cmp cs ds else sint c - sint d)"

definition bytes_of :: "string \<Rightarrow> u8 list" where
  "bytes_of s = map of_char s"

lemma region_iff: "a \<in> region p n \<longleftrightarrow> (\<exists>i<n. a = p + of_nat i)"
proof (induction n arbitrary: p)
  case (Suc n)
  have "(\<exists>i<Suc n. a = p + of_nat i) \<longleftrightarrow> a = p \<or> (\<exists>i<n. a = p + 1 + of_nat i)"
    by (auto simp: less_Suc_eq_0_disj algebra_simps)
  then show ?case by (simp add: Suc.IH)
qed simp

lemma region_step_notin: "Suc n < 2 ^ 64 \<Longrightarrow> p \<notin> region (p + 1) n"
proof
  assume n: "Suc n < 2 ^ 64" and "p \<in> region (p + 1) n"
  then obtain i where "i < n" and "(0::u64) = of_nat (Suc i)"
    by (auto simp: region_iff algebra_simps)
  then have "unat (of_nat (Suc i) :: u64) = 0" by (metis unat_0)
  moreover have "unat (of_nat (Suc i) :: u64) = Suc i"
    using n \<open>i < n\<close> by (intro unat_of_nat_lt) simp
  ultimately show False by simp
qed

lemma poke_frame: "a \<notin> region p (length bs) \<Longrightarrow> poke m p bs a = m a"
  by (induction bs arbitrary: m p) auto

lemma peek_poke:
  "length bs < 2 ^ 64 \<Longrightarrow> peek (poke m p bs) p (length bs) = bs"
proof (induction bs arbitrary: m p)
  case (Cons b bs)
  then have "p \<notin> region (p + 1) (length bs)" by (intro region_step_notin) simp
  then show ?case using Cons by (simp add: poke_frame)
qed simp

lemma cstr_iff_peek: "cstr m p s \<longleftrightarrow> peek m p (Suc (length s)) = s @ [0] \<and> 0 \<notin> set s"
  by (induction s arbitrary: p) auto

lemma cstr_poke: "Suc (length s) < 2 ^ 64 \<Longrightarrow> 0 \<notin> set s \<Longrightarrow> cstr (poke m p (s @ [0])) p s"
  using peek_poke [of "s @ [0]" m p] by (simp add: cstr_iff_peek)

lemma cstr_nonzero: "cstr m p s \<Longrightarrow> 0 \<notin> set s"
  by (simp add: cstr_iff_peek)

lemma cstr_frame: "a \<notin> region p (Suc (length s)) \<Longrightarrow> cstr (m(a := b)) p s = cstr m p s"
  by (induction s arbitrary: p) auto

lemma cstr_same:
  assumes "cstr m p s" and "\<And>a. a \<in> region p (Suc (length s)) \<Longrightarrow> m' a = m a"
  shows "cstr m' p s"
  using assms
proof (induction s arbitrary: p)
  case (Cons c cs)
  have "cstr m' (p + 1) cs" using Cons.prems by (intro Cons.IH) simp_all
  then show ?case using Cons.prems by simp
qed simp

lemma cstr_append:
  assumes "cstr m p s" and "\<And>a. a \<in> region p (length s) \<Longrightarrow> m' a = m a"
    and "cstr m' (p + of_nat (length s)) t"
  shows "cstr m' p (s @ t)"
  using assms
proof (induction s arbitrary: p)
  case (Cons c cs)
  then show ?case using Cons.IH [of "p + 1"] by (auto simp: algebra_simps)
qed simp

lemma region_append_disjoint:
  assumes "a + b \<le> 2 ^ 64"
  shows "region p a \<inter> region (p + of_nat a) b = {}"
proof -
  have False if "i < a" "j < b" "(of_nat i :: u64) = of_nat (a + j)" for i j
    using of_nat_word_inj [OF that(3)] that(1,2) assms by simp
  then show ?thesis by (auto simp: region_iff algebra_simps)
qed

lemma bytes_cmp_eq_0_iff: "0 \<notin> set s \<Longrightarrow> 0 \<notin> set t \<Longrightarrow> bytes_cmp s t = 0 \<longleftrightarrow> s = t"
proof (induction s t rule: bytes_cmp.induct)
  case (4 c cs d ds)
  then show ?case by (auto simp: word_eq_iff_signed [where ?'a = int, symmetric])
qed (auto simp: signed_eq_0_iff)

lemma bytes_cmp_antisym: "bytes_cmp s t = - bytes_cmp t s"
  by (induction s t rule: bytes_cmp.induct) auto

lemma inj_bytes_of: "inj bytes_of"
proof (rule injI)
  fix s t :: string
  assume "bytes_of s = bytes_of t"
  moreover have "inj (of_char :: char \<Rightarrow> u8)"
  proof (rule injI)
    fix c d :: char
    assume "(of_char c :: u8) = of_char d"
    then have "(of_nat (of_char c) :: u8) = of_nat (of_char d)" by (simp only: of_nat_of_char)
    moreover have "of_char c < (256::nat)" "of_char d < (256::nat)" by simp_all
    ultimately have "(of_char c :: nat) = of_char d" by (auto dest: of_nat_word_inj)
    then show "c = d" by simp
  qed
  ultimately show "s = t" by (simp add: bytes_of_def inj_map_eq_map)
qed

section \<open>What the routines compute\<close>

lemma strcmp_cstr: "cstr m p s \<Longrightarrow> cstr m q t \<Longrightarrow> strcmp m p q = Some (bytes_cmp s t)"
proof (induction s t arbitrary: p q rule: bytes_cmp.induct)
  case 1
  then show ?case by (simp add: strcmp.simps [of m p q])
next
  case (2 c cs)
  then show ?case by (simp add: strcmp.simps [of m p q])
next
  case (3 d ds)
  then show ?case by (simp add: strcmp.simps [of m p q])
next
  case (4 c cs d ds)
  then show ?case by (simp add: strcmp.simps [of m p q])
qed

lemma strcpy_cstr:
  assumes "cstr m src s"
    and "region dst (Suc (length s)) \<inter> region src (Suc (length s)) = {}"
  shows "strcpy m dst src = Some (poke m dst (s @ [0]))"
  using assms
proof (induction s arbitrary: m dst src)
  case Nil
  then show ?case by (subst strcpy.simps) simp
next
  case (Cons c cs)
  have "dst \<notin> region (src + 1) (Suc (length cs))" using Cons.prems(2) by auto
  then have "cstr (m(dst := c)) (src + 1) cs" using Cons.prems(1) by (simp add: cstr_frame)
  moreover have "region (dst + 1) (Suc (length cs)) \<inter> region (src + 1) (Suc (length cs)) = {}"
    using Cons.prems(2) by auto
  ultimately have "strcpy (m(dst := c)) (dst + 1) (src + 1) = Some (poke (m(dst := c)) (dst + 1) (cs @ [0]))"
    by (rule Cons.IH)
  then show ?case using Cons.prems(1) by (simp add: strcpy.simps [of m dst src])
qed

lemma strlen_loop_cstr: "cstr m p s \<Longrightarrow> strlen_loop m p n = Some (n + of_nat (length s))"
proof (induction s arbitrary: p n)
  case Nil
  then show ?case by (simp add: strlen_loop.simps [of m p n])
next
  case (Cons c cs)
  then show ?case by (simp add: strlen_loop.simps [of m p n] algebra_simps)
qed

lemma strcat_seek_cstr: "cstr m p s \<Longrightarrow> strcat_seek m p = Some (p + of_nat (length s))"
proof (induction s arbitrary: p)
  case Nil
  then show ?case by (simp add: strcat_seek.simps [of m p])
next
  case (Cons c cs)
  then show ?case by (simp add: strcat_seek.simps [of m p] algebra_simps)
qed

text \<open>The second loop of \<open>strcat\<close> is \<open>strcpy\<close> that also returns where it stopped.\<close>

lemma strcat_copy_cstr:
  assumes "cstr m src s"
    and "region dst (Suc (length s)) \<inter> region src (Suc (length s)) = {}"
  shows "strcat_copy m dst src = Some (dst + of_nat (length s), poke m dst (s @ [0]))"
  using assms
proof (induction s arbitrary: m dst src)
  case Nil
  then show ?case by (subst strcat_copy.simps) simp
next
  case (Cons c cs)
  have "dst \<notin> region (src + 1) (Suc (length cs))" using Cons.prems(2) by auto
  then have "cstr (m(dst := c)) (src + 1) cs" using Cons.prems(1) by (simp add: cstr_frame)
  moreover have "region (dst + 1) (Suc (length cs)) \<inter> region (src + 1) (Suc (length cs)) = {}"
    using Cons.prems(2) by auto
  ultimately have "strcat_copy (m(dst := c)) (dst + 1) (src + 1)
      = Some (dst + 1 + of_nat (length cs), poke (m(dst := c)) (dst + 1) (cs @ [0]))"
    by (rule Cons.IH)
  then show ?case using Cons.prems(1) by (simp add: strcat_copy.simps [of m dst src] algebra_simps)
qed

lemma memcpy_loop_poke:
  "region dst n \<inter> region src n = {} \<Longrightarrow> memcpy_loop m dst src n = poke m dst (peek m src n)"
proof (induction n arbitrary: m dst src)
  case (Suc n)
  have *: "a \<notin> region p k \<Longrightarrow> peek (m(a := b)) p k = peek m p k" for a b p k
    by (induction k arbitrary: p) auto
  have "dst \<notin> region (src + 1) n" "region (dst + 1) n \<inter> region (src + 1) n = {}"
    using Suc.prems by auto
  then show ?case by (simp add: * Suc.IH del: fun_upd_apply)
qed simp

lemma memset_loop_poke: "memset_loop m p c n = poke m p (replicate n c)"
  by (induction n arbitrary: m p) auto

section \<open>The contracts of the string routines\<close>

text \<open>
  \<open>strcpy\<close> of a NUL-terminated string into memory that does not overlap it returns, the
  destination then holds the string, the source still does, and no byte outside the
  destination run of \<open>length + 1\<close> bytes has changed.
\<close>

theorem strcpy_copies:
  assumes str: "cstr m src s" and len: "Suc (length s) < 2 ^ 64"
    and disj: "region dst (Suc (length s)) \<inter> region src (Suc (length s)) = {}"
  shows "\<exists>m'. strcpy m dst src = Some m' \<and> cstr m' dst s \<and> cstr m' src s \<and>
           (\<forall>a. a \<notin> region dst (Suc (length s)) \<longrightarrow> m' a = m a)"
proof (intro exI conjI allI impI)
  let ?m = "poke m dst (s @ [0])"
  show "strcpy m dst src = Some ?m" by (rule strcpy_cstr [OF str disj])
  show "cstr ?m dst s" by (rule cstr_poke [OF len cstr_nonzero [OF str]])
  show frame: "?m a = m a" if "a \<notin> region dst (Suc (length s))" for a
    using that by (intro poke_frame) simp
  show "cstr ?m src s"
    using disj by (intro cstr_same [OF str] frame) blast
qed

theorem strcpy_copies_witness:
  "\<exists>m'. strcpy (poke (\<lambda>_. 0) 100 [108, 115]) 200 100 = Some m' \<and> cstr m' 200 [108, 115] \<and>
     cstr m' 100 [108, 115] \<and>
     (\<forall>a. a \<notin> region 200 (Suc (length [108, 115 :: u8])) \<longrightarrow> m' a = poke (\<lambda>_. 0) 100 [108, 115] a)"
  by (rule strcpy_copies) simp_all

text \<open>
  \<open>strcmp\<close> on two NUL-terminated strings returns; the result is 0 exactly for equal
  strings, and swapping the arguments negates it.
\<close>

theorem strcmp_decides_equality:
  assumes "cstr m p s" and "cstr m q t"
  shows "\<exists>r. strcmp m p q = Some r \<and> (r = 0 \<longleftrightarrow> s = t) \<and> strcmp m q p = Some (- r)"
  using assms strcmp_cstr [OF assms] strcmp_cstr [OF assms(2,1)]
  by (auto simp: bytes_cmp_eq_0_iff cstr_nonzero bytes_cmp_antisym [of t s])

theorem strcmp_decides_equality_witness:
  "\<exists>r. strcmp (poke (\<lambda>_. 0) 8 [99, 100]) 8 9 = Some r \<and> (r = 0 \<longleftrightarrow> [99, 100] = [100 :: u8]) \<and>
     strcmp (poke (\<lambda>_. 0) 8 [99, 100]) 9 8 = Some (- r)"
  by (rule strcmp_decides_equality) simp_all

text \<open>
  \<open>strcat\<close> on two NUL-terminated strings, with room behind the first that overlaps
  neither, returns the address of the new terminator and leaves the concatenation at the
  destination.
\<close>

theorem strcat_appends:
  assumes s: "cstr m d s" and t: "cstr m p t"
    and len: "Suc (length (s @ t)) < 2 ^ 64"
    and disj: "region (d + of_nat (length s)) (Suc (length t)) \<inter> region p (Suc (length t)) = {}"
  shows "\<exists>m'. strcat m d p = Some (d + of_nat (length (s @ t)), m') \<and> cstr m' d (s @ t) \<and>
           (\<forall>a. a \<notin> region (d + of_nat (length s)) (Suc (length t)) \<longrightarrow> m' a = m a)"
proof (intro exI conjI allI impI)
  let ?e = "d + of_nat (length s)" and ?m = "poke m (d + of_nat (length s)) (t @ [0])"
  show "strcat m d p = Some (d + of_nat (length (s @ t)), ?m)"
    using strcat_copy_cstr [OF t disj] by (simp add: strcat_def strcat_seek_cstr [OF s] algebra_simps)
  show "?m a = m a" if "a \<notin> region ?e (Suc (length t))" for a
    using that by (intro poke_frame) simp
  have "cstr ?m ?e t" using len by (intro cstr_poke cstr_nonzero [OF t]) simp
  moreover have "?m a = m a" if "a \<in> region d (length s)" for a
    using that region_append_disjoint [of "length s" "Suc (length t)" d] len
    by (intro poke_frame) auto
  ultimately show "cstr ?m d (s @ t)" by (intro cstr_append [OF s]) auto
qed

theorem strcat_appends_witness:
  "\<exists>m'. strcat (poke (\<lambda>_. 0) 8 [97, 0, 0, 98]) 8 11 = Some (8 + of_nat (length ([97 :: u8] @ [98])), m') \<and>
     cstr m' 8 ([97] @ [98]) \<and>
     (\<forall>a. a \<notin> region (8 + of_nat (length [97 :: u8])) (Suc (length [98 :: u8])) \<longrightarrow>
        m' a = poke (\<lambda>_. 0) 8 [97, 0, 0, 98] a)"
  by (rule strcat_appends) simp_all

end
