(* ===== verification/Phys_Alloc.thy ===== *)
theory Phys_Alloc
  imports Prelude
begin

text \<open>
  The physical page allocator of \<^verbatim>\<open>sys/paging.c\<close> (\<^verbatim>\<open>mem_map\<close>,
  \<^verbatim>\<open>free\<close>, \<^verbatim>\<open>getrefcount\<close>, \<^verbatim>\<open>increfcount\<close>, \<^verbatim>\<open>allocate_page\<close>): an
  array of 75000 descriptors, the free ones threaded on a singly linked list. A pointer into
  the array is the index it points at. The invariant says that the list is finite, holds
  exactly the descriptors marked free and that each carries its own page address; the locale
  \<open>page_source\<close> is what the paging code relies on, and the allocator is an instance of it.
\<close>

section \<open>State\<close>

record freelist =
  fl_address :: u64
  fl_free :: int
  fl_ref_count :: int
  fl_next :: "nat option"

abbreviation n_pagelist :: nat where "n_pagelist \<equiv> 75000"

text \<open>\<^verbatim>\<open>sizeof(pagelist)\<close>: 75000 descriptors of 8 + 4 + 4 + 8 bytes.\<close>

abbreviation sizeof_pagelist :: u64 where "sizeof_pagelist \<equiv> 1800000"

record palloc =
  pagelist :: "nat \<Rightarrow> freelist"
  head :: "nat option"
  pg_count :: u64

section \<open>Operations\<close>

definition set_page :: "nat \<Rightarrow> freelist \<Rightarrow> 'a palloc_scheme \<Rightarrow> 'a palloc_scheme" where
  "set_page i n s = s\<lparr>pagelist := (pagelist s)(i := n)\<rparr>"

text \<open>
  One iteration of the loop of \<^verbatim>\<open>mem_map\<close> per call. Each iteration writes the
  descriptor \<open>ptr / 4096\<close>, so the loop leaves the array before \<open>ptr\<close> can wrap around.
\<close>

function mem_map_loop ::
  "u64 \<Rightarrow> u64 \<Rightarrow> u64 \<Rightarrow> nat option \<Rightarrow> 'a palloc_scheme \<Rightarrow> 'a palloc_scheme res" where
  "mem_map_loop lim physfree ptr lst s =
     (if ptr < lim then
        let i = unat (ptr div 4096); s = s\<lparr>pg_count := ptr div 4096 + 1\<rparr> in
        if n_pagelist \<le> i then Inl OutOfBounds
        else if ptr > physfree \<and> ptr + 4096 < lim then
          (case head s of
             None \<Rightarrow>
               mem_map_loop lim physfree (ptr + 4096) (Some i)
                 ((set_page i \<lparr>fl_address = ptr, fl_free = 1, fl_ref_count = 0, fl_next = head s\<rparr> s)
                    \<lparr>head := Some i\<rparr>)
           | Some h \<Rightarrow>
               let s = set_page i \<lparr>fl_address = ptr, fl_free = 1, fl_ref_count = 0, fl_next = None\<rparr> s in
               (case lst of
                  None \<Rightarrow> Inl NullDeref
                | Some l \<Rightarrow>
                    mem_map_loop lim physfree (ptr + 4096) (Some i)
                      (set_page l ((pagelist s l)\<lparr>fl_next := Some i\<rparr>) s)))
        else
          mem_map_loop lim physfree (ptr + 4096) lst
            (set_page i \<lparr>fl_address = ptr, fl_free = 0, fl_ref_count = 1, fl_next = None\<rparr> s)
      else Inr s)"
  by pat_completeness auto
termination
proof -
  have *: "n_pagelist - unat (ptr + 4096) div 4096 < n_pagelist - unat ptr div 4096"
    if "\<not> n_pagelist \<le> unat (ptr div 4096)" for ptr :: u64
  proof -
    have lt: "unat ptr div 4096 < n_pagelist" using that by (simp add: unat_div)
    then have "unat ptr < 75000 * 4096" by simp
    then have "unat (ptr + 4096) = unat ptr + 4096" by (simp add: unat_word_ariths)
    with lt show ?thesis by simp
  qed
  show ?thesis
    by (relation "measure (\<lambda>(lim, physfree, ptr, lst, s). n_pagelist - unat ptr div 4096)")
      (simp_all add: * del: diff_less_mono2)
qed

declare mem_map_loop.simps [simp del]

definition mem_map :: "u64 \<Rightarrow> u64 \<Rightarrow> u64 \<Rightarrow> u64 \<Rightarrow> 'a palloc_scheme \<Rightarrow> 'a palloc_scheme res" where
  "mem_map base len physbase physfree s =
     mem_map_loop (base + len) (physfree + sizeof_pagelist) base None s"

text \<open>\<^verbatim>\<open>int i = add/4096\<close>: the quotient is cut to 32 bits and read as signed.\<close>

definition page_int :: "u64 \<Rightarrow> int" where
  "page_int add = sint (ucast (add div 4096) :: u32)"

definition free :: "u64 \<Rightarrow> 'a palloc_scheme \<Rightarrow> 'a palloc_scheme res" where
  "free add s =
     (let i = page_int add in
      if i < 0 \<or> int n_pagelist \<le> i then Inl OutOfBounds
      else
        let n = pagelist s (nat i) in
        if fl_address n = add \<and> fl_ref_count n > 1
        then Inr (set_page (nat i) (n\<lparr>fl_ref_count := fl_ref_count n - 1\<rparr>) s)
        else if fl_address n = add
        then Inr ((set_page (nat i) (n\<lparr>fl_free := 1, fl_next := head s\<rparr>) s)\<lparr>head := Some (nat i)\<rparr>)
        else Inr s)"

definition getrefcount :: "u64 \<Rightarrow> 'a palloc_scheme \<Rightarrow> int res" where
  "getrefcount add s =
     (let i = unat (add div 4096) in
      if n_pagelist \<le> i then Inl OutOfBounds else Inr (fl_ref_count (pagelist s i)))"

definition increfcount :: "u64 \<Rightarrow> 'a palloc_scheme \<Rightarrow> 'a palloc_scheme res" where
  "increfcount add s =
     (let i = unat (add div 4096); n = pagelist s i in
      if n_pagelist \<le> i then Inl OutOfBounds
      else if fl_ref_count n = 2147483647 then Inl SignedOverflow
      else Inr (set_page i (n\<lparr>fl_ref_count := fl_ref_count n + 1\<rparr>) s))"

definition allocate_page :: "'a palloc_scheme \<Rightarrow> (u64 \<times> 'a palloc_scheme) res" where
  "allocate_page s =
     (case head s of
        None \<Rightarrow> Inl OutOfMemory
      | Some t \<Rightarrow>
          let n = pagelist s t;
              s = set_page t (n\<lparr>fl_free := 0, fl_ref_count := 1\<rparr>) s
          in Inr (fl_address n, s\<lparr>head := fl_next n\<rparr>))"

section \<open>The free list as a list\<close>

primrec chain :: "(nat \<Rightarrow> freelist) \<Rightarrow> nat option \<Rightarrow> nat list \<Rightarrow> bool" where
  "chain pl p [] \<longleftrightarrow> p = None"
| "chain pl p (i # is) \<longleftrightarrow> p = Some i \<and> chain pl (fl_next (pl i)) is"

text \<open>The address of page \<open>i\<close> and the pages that are free.\<close>

definition page_addr :: "nat \<Rightarrow> u64" where
  "page_addr i = of_nat (4096 * i)"

definition free_idx :: "'a palloc_scheme \<Rightarrow> nat set" where
  "free_idx s = {i. i < n_pagelist \<and> fl_free (pagelist s i) = 1}"

definition free_pages :: "'a palloc_scheme \<Rightarrow> u64 set" where
  "free_pages s = page_addr ` free_idx s"

definition pa_inv :: "'a palloc_scheme \<Rightarrow> bool" where
  "pa_inv s \<longleftrightarrow>
     (\<exists>xs. chain (pagelist s) (head s) xs \<and> set xs = free_idx s) \<and>
     (\<forall>i<n_pagelist. fl_address (pagelist s i) = page_addr i \<or>
        fl_address (pagelist s i) = 0 \<and> fl_free (pagelist s i) \<noteq> 1)"

text \<open>The state of the allocator's variables when the kernel is loaded: all bytes zero.\<close>

definition boot_palloc :: palloc where
  "boot_palloc =
     \<lparr>pagelist = (\<lambda>_. \<lparr>fl_address = 0, fl_free = 0, fl_ref_count = 0, fl_next = None\<rparr>),
      head = None, pg_count = 0\<rparr>"

lemma pagelist_set_page [simp]: "pagelist (set_page i n s) = (pagelist s)(i := n)"
  by (simp add: set_page_def)

lemma head_set_page [simp]: "head (set_page i n s) = head s"
  by (simp add: set_page_def)

lemma pagelist_head_update [simp]: "pagelist (s\<lparr>head := h\<rparr>) = pagelist s"
  by simp

lemma page_addr_inj: "i < n_pagelist \<Longrightarrow> j < n_pagelist \<Longrightarrow> page_addr i = page_addr j \<longleftrightarrow> i = j"
  using of_nat_word_inj [where ?'a = 64, of "4096 * i" "4096 * j"] by (auto simp: page_addr_def)

lemma unat_page_addr: "i < n_pagelist \<Longrightarrow> unat (page_addr i) = 4096 * i"
  unfolding page_addr_def by (rule unat_of_nat_lt) simp

lemma page_index: "i < n_pagelist \<Longrightarrow> unat (page_addr i div 4096) = i"
  by (simp add: unat_div unat_page_addr)

lemma page_addr_div: "i < n_pagelist \<Longrightarrow> page_addr i div 4096 = of_nat i"
  using page_index [of i] by (metis word_of_nat_unat)

lemma page_int_addr: "i < n_pagelist \<Longrightarrow> page_int (page_addr i) = int i"
  by (simp add: page_int_def sint_small unat_ucast_small page_index)

lemma chain_upd_other: "i \<notin> set xs \<Longrightarrow> chain (pl(i := n)) p xs = chain pl p xs"
  by (induction xs arbitrary: p) auto

lemma chain_upd_same_next:
  "fl_next n = fl_next (pl i) \<Longrightarrow> chain (pl(i := n)) p xs = chain pl p xs"
  by (induction xs arbitrary: p) auto

lemma chain_unique: "chain pl p xs \<Longrightarrow> chain pl p ys \<Longrightarrow> xs = ys"
proof (induction xs arbitrary: p ys)
  case Nil
  then show ?case by (cases ys) auto
next
  case (Cons x xs)
  then show ?case by (cases ys) auto
qed

lemma chain_suffix: "chain pl p (xs @ i # ys) \<Longrightarrow> chain pl (Some i) (i # ys)"
  by (induction xs arbitrary: p) auto

lemma chain_distinct: "chain pl p xs \<Longrightarrow> distinct xs"
proof (induction xs arbitrary: p)
  case (Cons i xs)
  have "i \<notin> set xs"
  proof
    assume "i \<in> set xs"
    then obtain as bs where "xs = as @ i # bs" by (auto simp: in_set_conv_decomp)
    then have "chain pl (Some i) (i # bs)" using Cons.prems by (auto dest: chain_suffix)
    moreover have "chain pl (Some i) (i # xs)" using Cons.prems by simp
    ultimately have "xs = bs" by (auto dest: chain_unique)
    with \<open>xs = as @ i # bs\<close> show False by simp
  qed
  with Cons show ?case by auto
qed simp

lemma chain_snoc:
  assumes "chain pl p xs" and "xs \<noteq> []" and "i \<notin> set xs" and "fl_next (pl i) = None"
  shows "chain (pl(last xs := (pl (last xs))\<lparr>fl_next := Some i\<rparr>)) p (xs @ [i])"
  using assms
proof (induction xs arbitrary: p)
  case (Cons x xs)
  show ?case
  proof (cases "xs = []")
    case True
    with Cons.prems show ?thesis by auto
  next
    case False
    moreover have "x \<noteq> last xs"
      using chain_distinct [OF Cons.prems(1)] False by auto
    ultimately show ?thesis using Cons by auto
  qed
qed simp

section \<open>The invariant\<close>

lemma pa_invE:
  assumes "pa_inv s"
  obtains xs where "chain (pagelist s) (head s) xs" "set xs = free_idx s" "distinct xs"
    "\<And>i. i \<in> free_idx s \<Longrightarrow> fl_address (pagelist s i) = page_addr i"
  using assms chain_distinct unfolding pa_inv_def free_idx_def by fast

lemma pa_inv_head:
  assumes "pa_inv s"
  shows "head s = None \<longleftrightarrow> free_idx s = {}"
proof -
  obtain xs where xs: "chain (pagelist s) (head s) xs" "set xs = free_idx s"
    using assms by (rule pa_invE)
  then show ?thesis by (cases xs) auto
qed

lemma pa_inv_head_addr:
  assumes "pa_inv s" and "head s = Some i"
  shows "fl_address (pagelist s i) = page_addr i"
proof -
  obtain xs where "chain (pagelist s) (head s) xs" "set xs = free_idx s"
    "\<And>i. i \<in> free_idx s \<Longrightarrow> fl_address (pagelist s i) = page_addr i"
    using assms(1) by (rule pa_invE) blast
  with assms(2) show ?thesis by (cases xs) auto
qed

lemma allocate_page_inv:
  assumes inv: "pa_inv s" and alloc: "allocate_page s = Inr (p, s')"
  shows "pa_inv s'" and "p \<in> free_pages s" and "free_pages s' = free_pages s - {p}"
proof -
  obtain xs where xs: "chain (pagelist s) (head s) xs" "set xs = free_idx s" "distinct xs"
    and addr: "\<And>i. i \<in> free_idx s \<Longrightarrow> fl_address (pagelist s i) = page_addr i"
    using inv by (rule pa_invE) blast
  from alloc obtain t where t: "head s = Some t" and p: "p = fl_address (pagelist s t)"
    and s': "s' = (set_page t ((pagelist s t)\<lparr>fl_free := 0, fl_ref_count := 1\<rparr>) s)
                    \<lparr>head := fl_next (pagelist s t)\<rparr>"
    by (auto simp: allocate_page_def Let_def split: option.splits)
  from t xs obtain ys where ys: "xs = t # ys" "chain (pagelist s) (fl_next (pagelist s t)) ys"
    by (cases xs) auto
  then have tf: "t \<in> free_idx s" and tn: "t < n_pagelist" using xs by (auto simp: free_idx_def)
  have idx: "free_idx s' = free_idx s - {t}" by (auto simp: s' free_idx_def)
  have "chain (pagelist s') (head s') ys" using ys xs(3) by (simp add: s' chain_upd_other)
  moreover have "set ys = free_idx s'" using xs ys idx by auto
  ultimately show "pa_inv s'" using inv addr [OF tf] by (auto simp: pa_inv_def s')
  show "p \<in> free_pages s" using addr [OF tf] tf by (auto simp: p free_pages_def)
  have "page_addr ` (free_idx s - {t}) = page_addr ` free_idx s - {page_addr t}"
    using tn by (auto simp: free_idx_def page_addr_inj)
  then show "free_pages s' = free_pages s - {p}" by (simp add: free_pages_def idx p addr [OF tf])
qed

lemma allocate_page_total:
  assumes "pa_inv s"
  shows "free_pages s \<noteq> {} \<Longrightarrow> \<exists>p s'. allocate_page s = Inr (p, s')"
    and "free_pages s = {} \<Longrightarrow> allocate_page s = Inl OutOfMemory"
  using pa_inv_head [OF assms]
  by (auto simp: free_pages_def allocate_page_def Let_def split: option.splits)

text \<open>
  A page in use once (or not counted) goes back on the list; one that is shared only loses a
  reference. The descriptor must not be on the list already.
\<close>

lemma free_last_ref:
  assumes inv: "pa_inv s" and i: "i < n_pagelist" "i \<notin> free_idx s"
    and addr: "fl_address (pagelist s i) = page_addr i" and rc: "fl_ref_count (pagelist s i) \<le> 1"
  shows "\<exists>s'. free (page_addr i) s = Inr s' \<and> pa_inv s' \<and> free_pages s' = insert (page_addr i) (free_pages s) \<and>
           head s' = Some i"
proof -
  let ?s = "(set_page i ((pagelist s i)\<lparr>fl_free := 1, fl_next := head s\<rparr>) s)\<lparr>head := Some i\<rparr>"
  obtain xs where xs: "chain (pagelist s) (head s) xs" "set xs = free_idx s" "distinct xs"
    using inv by (rule pa_invE)
  have "free (page_addr i) s = Inr ?s"
    using i addr rc by (simp add: free_def page_int_addr Let_def)
  moreover have idx: "free_idx ?s = insert i (free_idx s)" using i by (auto simp: free_idx_def)
  moreover have "chain (pagelist ?s) (head ?s) (i # xs)" using xs i by (simp add: chain_upd_other)
  then have "pa_inv ?s" using inv xs idx addr by (auto simp: pa_inv_def intro!: exI [of _ "i # xs"])
  ultimately show ?thesis by (auto simp: free_pages_def)
qed

lemma free_shared:
  assumes "i < n_pagelist" and "fl_address (pagelist s i) = page_addr i"
    and "fl_ref_count (pagelist s i) > 1"
  shows "free (page_addr i) s =
    Inr (set_page i ((pagelist s i)\<lparr>fl_ref_count := fl_ref_count (pagelist s i) - 1\<rparr>) s)"
  using assms by (simp add: free_def page_int_addr Let_def)

lemma set_ref_count_inv:
  assumes "pa_inv s"
  shows "pa_inv (set_page i ((pagelist s i)\<lparr>fl_ref_count := c\<rparr>) s)"
    and "free_idx (set_page i ((pagelist s i)\<lparr>fl_ref_count := c\<rparr>) s) = free_idx s"
proof -
  show *: "free_idx (set_page i ((pagelist s i)\<lparr>fl_ref_count := c\<rparr>) s) = free_idx s"
    by (auto simp: free_idx_def)
  show "pa_inv (set_page i ((pagelist s i)\<lparr>fl_ref_count := c\<rparr>) s)"
    using assms by (auto simp: pa_inv_def * chain_upd_same_next)
qed

section \<open>What \<open>mem_map\<close> builds\<close>

text \<open>Page \<open>i\<close> of a region that ends at \<open>lim\<close> becomes free; the number of pages that start below \<open>lim\<close>.\<close>

definition mm_free :: "u64 \<Rightarrow> u64 \<Rightarrow> nat \<Rightarrow> bool" where
  "mm_free lim physfree i \<longleftrightarrow> page_addr i > physfree \<and> page_addr i + 4096 < lim"

definition mm_end :: "u64 \<Rightarrow> nat" where
  "mm_end lim = (unat lim + 4095) div 4096"

definition mm_node :: "u64 \<Rightarrow> u64 \<Rightarrow> nat \<Rightarrow> u64 \<times> int \<times> int" where
  "mm_node lim physfree i = (page_addr i, if mm_free lim physfree i then (1, 0) else (0, 1))"

definition core :: "freelist \<Rightarrow> u64 \<times> int \<times> int" where
  "core n = (fl_address n, fl_free n, fl_ref_count n)"

lemma core_next [simp]: "core (n\<lparr>fl_next := x\<rparr>) = core n"
  by (simp add: core_def)

lemma page_addr_Suc: "page_addr (Suc i) = page_addr i + 4096"
  by (simp add: page_addr_def algebra_simps)

lemma mm_end_iff: "unat lim \<le> 4096 * n_pagelist \<Longrightarrow> k < mm_end lim \<longleftrightarrow> 4096 * k < unat lim"
  by (auto simp: mm_end_def)

lemma page_addr_less_lim:
  assumes "unat lim \<le> 4096 * n_pagelist" and "k \<le> n_pagelist"
  shows "page_addr k < lim \<longleftrightarrow> k < mm_end lim"
proof -
  have "unat (page_addr k) = 4096 * k"
    unfolding page_addr_def using assms(2) by (intro unat_of_nat_lt) simp
  then show ?thesis by (simp add: word_less_nat_alt mm_end_iff [OF assms(1)])
qed

text \<open>One iteration: the list grows at its end by the page if that is free; no other descriptor changes.\<close>

lemma mem_map_loop_unfold:
  assumes lim: "unat lim \<le> 4096 * n_pagelist" and ke: "k < mm_end lim"
  shows "mem_map_loop lim physfree (page_addr k) lst s =
      (let s0 = s\<lparr>pg_count := page_addr k div 4096 + 1\<rparr> in
       if mm_free lim physfree k
       then (case head s of
          None \<Rightarrow> mem_map_loop lim physfree (page_addr (Suc k)) (Some k)
              ((set_page k \<lparr>fl_address = page_addr k, fl_free = 1, fl_ref_count = 0, fl_next = None\<rparr> s0)\<lparr>head := Some k\<rparr>)
        | Some h \<Rightarrow> (case lst of None \<Rightarrow> Inl NullDeref
            | Some l \<Rightarrow> mem_map_loop lim physfree (page_addr (Suc k)) (Some k)
              (let s1 = set_page k \<lparr>fl_address = page_addr k, fl_free = 1, fl_ref_count = 0, fl_next = None\<rparr> s0
               in set_page l ((pagelist s1 l)\<lparr>fl_next := Some k\<rparr>) s1)))
       else mem_map_loop lim physfree (page_addr (Suc k)) lst
              (set_page k \<lparr>fl_address = page_addr k, fl_free = 0, fl_ref_count = 1, fl_next = None\<rparr> s0))"
proof -
  have kn: "k < n_pagelist" using lim ke by (simp add: mm_end_iff [OF lim])
  show ?thesis
    using kn ke page_addr_less_lim [OF lim less_imp_le [OF kn]]
    by (subst mem_map_loop.simps)
      (simp add: page_index [OF kn] mm_free_def page_addr_Suc Let_def split: option.split)
qed

lemma mem_map_loop_step:
  assumes lim: "unat lim \<le> 4096 * n_pagelist" and ke: "k < mm_end lim"
    and ch: "chain (pagelist s) (head s) ys" and knew: "k \<notin> set ys"
    and lst: "lst = (if ys = [] then None else Some (last ys))"
    and ys': "ys' = (if mm_free lim physfree k then ys @ [k] else ys)"
  shows "\<exists>s' lst'.
    mem_map_loop lim physfree (page_addr k) lst s = mem_map_loop lim physfree (page_addr (Suc k)) lst' s' \<and>
    chain (pagelist s') (head s') ys' \<and>
    lst' = (if ys' = [] then None else Some (last ys')) \<and>
    (\<forall>i. core (pagelist s' i) = (if i = k then mm_node lim physfree k else core (pagelist s i)))"
proof -
  note step = mem_map_loop_unfold [OF lim ke, of physfree lst s]
  define s1 where
    "s1 = set_page k \<lparr>fl_address = page_addr k, fl_free = 1, fl_ref_count = 0, fl_next = None\<rparr>
            (s\<lparr>pg_count := page_addr k div 4096 + 1\<rparr>)"
  consider (reserved) "\<not> mm_free lim physfree k"
    | (first) "mm_free lim physfree k" "ys = []"
    | (next_free) "mm_free lim physfree k" "ys \<noteq> []" by blast
  then show ?thesis
  proof cases
    case reserved
    with ch lst knew ys' step show ?thesis
      by (intro exI [of _ "set_page k \<lparr>fl_address = page_addr k, fl_free = 0, fl_ref_count = 1, fl_next = None\<rparr>
            (s\<lparr>pg_count := page_addr k div 4096 + 1\<rparr>)"] exI [of _ lst])
        (auto simp: chain_upd_other mm_node_def core_def)
  next
    case first
    with ch ys' step show ?thesis
      by (intro exI [of _ "s1\<lparr>head := Some k\<rparr>"] exI [of _ "Some k"])
        (auto simp: s1_def mm_node_def core_def)
  next
    case next_free
    with ch have h: "head s = Some (hd ys)" by (cases ys) auto
    have "chain (pagelist s1) (head s1) ys" using ch knew by (simp add: s1_def chain_upd_other)
    then have "chain ((pagelist s1)(last ys := (pagelist s1 (last ys))\<lparr>fl_next := Some k\<rparr>)) (head s1) (ys @ [k])"
      using next_free knew by (intro chain_snoc) (simp_all add: s1_def)
    with next_free h step lst knew ys' show ?thesis
      by (intro exI [of _ "set_page (last ys) ((pagelist s1 (last ys))\<lparr>fl_next := Some k\<rparr>) s1"] exI [of _ "Some k"])
        (auto simp: s1_def mm_node_def core_def Let_def)
  qed
qed

lemma mem_map_loop_spec:
  assumes lim: "unat lim \<le> 4096 * n_pagelist" and k: "k \<le> n_pagelist"
    and ch: "chain (pagelist s) (head s) ys" and ys: "\<forall>y\<in>set ys. y < k"
    and lst: "lst = (if ys = [] then None else Some (last ys))"
  shows "\<exists>s'. mem_map_loop lim physfree (page_addr k) lst s = Inr s' \<and>
    chain (pagelist s') (head s') (ys @ filter (mm_free lim physfree) [k..<mm_end lim]) \<and>
    (\<forall>i. core (pagelist s' i) =
       (if k \<le> i \<and> i < mm_end lim then mm_node lim physfree i else core (pagelist s i)))"
  using k ch ys lst
proof (induction "mm_end lim - k" arbitrary: k s ys lst)
  case 0
  then show ?case
    using page_addr_less_lim [OF lim 0(2)] by (subst mem_map_loop.simps) auto
next
  case (Suc n)
  then have ke: "k < mm_end lim" by simp
  then have kn: "Suc k \<le> n_pagelist" using lim by (simp add: mm_end_iff [OF lim])
  have upt: "[k..<mm_end lim] = k # [Suc k..<mm_end lim]" using ke by (simp add: upt_conv_Cons)
  have knew: "k \<notin> set ys" using Suc.prems(3) by auto
  define ys' where "ys' = (if mm_free lim physfree k then ys @ [k] else ys)"
  obtain s' lst' where
    rec: "mem_map_loop lim physfree (page_addr k) lst s = mem_map_loop lim physfree (page_addr (Suc k)) lst' s'"
    and ch': "chain (pagelist s') (head s') ys'"
    and lst': "lst' = (if ys' = [] then None else Some (last ys'))"
    and core': "\<forall>i. core (pagelist s' i) = (if i = k then mm_node lim physfree k else core (pagelist s i))"
    using mem_map_loop_step [OF lim ke Suc.prems(2) knew Suc.prems(4) ys'_def] by blast
  have "\<forall>y\<in>set ys'. y < Suc k" using Suc.prems(3) by (auto simp: ys'_def)
  moreover have "n = mm_end lim - Suc k" using Suc.hyps(2) by simp
  ultimately obtain s'' where s'': "mem_map_loop lim physfree (page_addr (Suc k)) lst' s' = Inr s''"
    "chain (pagelist s'') (head s'') (ys' @ filter (mm_free lim physfree) [Suc k..<mm_end lim])"
    "\<forall>i. core (pagelist s'' i) =
       (if Suc k \<le> i \<and> i < mm_end lim then mm_node lim physfree i else core (pagelist s' i))"
    using Suc.hyps(1) [OF _ kn ch' _ lst'] by blast
  then show ?case using core' ke by (auto simp: rec upt ys'_def le_less)
qed

lemma mem_map_loop_no_last:
  assumes lim: "unat lim \<le> 4096 * n_pagelist" and "head s = Some h"
    and "k \<le> i" and "i < mm_end lim" and free: "mm_free lim physfree i"
  shows "mem_map_loop lim physfree (page_addr k) None s = Inl NullDeref"
  using assms(2-4)
proof (induction "i - k" arbitrary: k s)
  case 0
  then show ?case using free by (simp add: mem_map_loop_unfold [OF lim])
next
  case (Suc n)
  have "n = i - Suc k" "Suc k \<le> i" using Suc.hyps(2) by simp_all
  note IH = Suc.hyps(1) [OF this(1) _ this(2) Suc.prems(3)]
  show ?case
    using Suc.prems by (simp add: mem_map_loop_unfold [OF lim] IH Let_def)
qed

section \<open>The interface the paging code uses\<close>

text \<open>A run of \<open>n\<close> allocations and the pages it hands out.\<close>

primrec alloc_many :: "('s \<Rightarrow> (u64 \<times> 's) res) \<Rightarrow> nat \<Rightarrow> 's \<Rightarrow> (u64 list \<times> 's) res" where
  "alloc_many alloc 0 s = Inr ([], s)"
| "alloc_many alloc (Suc n) s =
     rbind (alloc s) (\<lambda>(p, s'). rbind (alloc_many alloc n s') (\<lambda>(ps, s''). Inr (p # ps, s'')))"

text \<open>
  A source of page frames: while the source is in a good state, an allocation takes an
  available page out, and it fails exactly when there is none.
\<close>

locale page_source =
  fixes avail :: "'s \<Rightarrow> u64 set"
    and good :: "'s \<Rightarrow> bool"
    and alloc :: "'s \<Rightarrow> (u64 \<times> 's) res"
  assumes alloc_good: "good s \<Longrightarrow> alloc s = Inr (p, s') \<Longrightarrow> good s'"
    and alloc_avail: "good s \<Longrightarrow> alloc s = Inr (p, s') \<Longrightarrow> p \<in> avail s \<and> avail s' = avail s - {p}"
    and alloc_some: "good s \<Longrightarrow> avail s \<noteq> {} \<Longrightarrow> \<exists>p s'. alloc s = Inr (p, s')"
    and alloc_none: "good s \<Longrightarrow> avail s = {} \<Longrightarrow> alloc s = Inl OutOfMemory"
    and avail_finite: "good s \<Longrightarrow> finite (avail s)"
begin

lemma card_alloc: "good s \<Longrightarrow> alloc s = Inr (p, s') \<Longrightarrow> card (avail s) = Suc (card (avail s'))"
  using alloc_avail [of s p s'] avail_finite [of s] by (metis card_Suc_Diff1)

lemma many_fresh:
  "good s \<Longrightarrow> alloc_many alloc n s = Inr (ps, s') \<Longrightarrow>
     length ps = n \<and> distinct ps \<and> set ps \<subseteq> avail s \<and> avail s' = avail s - set ps \<and> good s'"
proof (induction n arbitrary: s ps)
  case (Suc n)
  then obtain p s1 qs where p: "alloc s = Inr (p, s1)" and qs: "alloc_many alloc n s1 = Inr (qs, s')"
    and ps: "ps = p # qs" by (auto simp: res_simps)
  from alloc_avail [OF Suc.prems(1) p] Suc.IH [OF alloc_good [OF Suc.prems(1) p] qs]
  show ?case by (auto simp: ps)
qed simp

lemma many_result:
  "good s \<Longrightarrow>
     (if n \<le> card (avail s) then \<exists>ps s'. alloc_many alloc n s = Inr (ps, s')
      else alloc_many alloc n s = Inl OutOfMemory)"
proof (induction n arbitrary: s)
  case (Suc n)
  show ?case
  proof (cases "avail s = {}")
    case True
    with Suc.prems show ?thesis by (simp add: alloc_none)
  next
    case False
    then obtain p s1 where p: "alloc s = Inr (p, s1)" using alloc_some Suc.prems by blast
    with Suc.IH [OF alloc_good [OF Suc.prems p]] show ?thesis
      by (auto simp: card_alloc [OF Suc.prems p] split: if_splits)
  qed
qed simp

end

lemma finite_free_pages: "finite (free_pages s)"
  by (simp add: free_pages_def free_idx_def)

interpretation frames: page_source free_pages pa_inv allocate_page
  using allocate_page_inv allocate_page_total finite_free_pages by unfold_locales blast+

section \<open>Example states\<close>

text \<open>Pages 3, 5 and 9 free, in this order on the list, page 7 in use, nothing else known.\<close>

definition example_palloc :: palloc where
  "example_palloc =
     \<lparr>pagelist = (\<lambda>_. \<lparr>fl_address = 0, fl_free = 0, fl_ref_count = 0, fl_next = None\<rparr>)
        (3 := \<lparr>fl_address = page_addr 3, fl_free = 1, fl_ref_count = 0, fl_next = Some 5\<rparr>,
         5 := \<lparr>fl_address = page_addr 5, fl_free = 1, fl_ref_count = 0, fl_next = Some 9\<rparr>,
         9 := \<lparr>fl_address = page_addr 9, fl_free = 1, fl_ref_count = 0, fl_next = None\<rparr>,
         7 := \<lparr>fl_address = page_addr 7, fl_free = 0, fl_ref_count = 1, fl_next = None\<rparr>),
      head = Some 3, pg_count = 0\<rparr>"

lemma boot_palloc_inv: "pa_inv boot_palloc"
  by (auto simp: pa_inv_def boot_palloc_def free_idx_def intro!: exI [of _ "[]"])

lemma example_free_idx: "free_idx example_palloc = {3, 5, 9}"
  by (auto simp: free_idx_def example_palloc_def)

lemma example_palloc_inv: "pa_inv example_palloc"
  unfolding pa_inv_def example_free_idx
  by (auto simp: example_palloc_def intro!: exI [of _ "[3, 5, 9]"])

lemma example_free_pages: "free_pages example_palloc = {page_addr 3, page_addr 5, page_addr 9}"
  by (simp add: free_pages_def example_free_idx)

section \<open>Properties of the allocator\<close>

lemma mem_map_free_list:
  assumes inv: "pa_inv s" and empty: "head s = None"
    and base: "base = page_addr b" "b \<le> n_pagelist"
    and lim: "unat (base + len) \<le> 4096 * n_pagelist"
  shows "\<exists>s'. mem_map base len physbase physfree s = Inr s' \<and> pa_inv s' \<and>
    free_pages s' = {page_addr i |i. b \<le> i \<and> page_addr i < base + len \<and> i < n_pagelist \<and>
       physfree + sizeof_pagelist < page_addr i \<and> page_addr i + 4096 < base + len}"
proof -
  let ?lim = "base + len" and ?pf = "physfree + sizeof_pagelist"
  obtain s' where run: "mem_map base len physbase physfree s = Inr s'"
    and ch: "chain (pagelist s') (head s') (filter (mm_free ?lim ?pf) [b..<mm_end ?lim])"
    and nodes: "\<forall>i. core (pagelist s' i) =
      (if b \<le> i \<and> i < mm_end ?lim then mm_node ?lim ?pf i else core (pagelist s i))"
    using mem_map_loop_spec [OF lim base(2), of s "[]" None ?pf] empty
    by (auto simp: mem_map_def base(1))
  have none: "fl_free (pagelist s i) \<noteq> 1" if "i < n_pagelist" for i
    using pa_inv_head [OF inv] empty that by (auto simp: free_idx_def)
  have end_le: "i < n_pagelist" if "i < mm_end ?lim" for i using lim that by (simp add: mm_end_iff [OF lim])
  have node: "fl_address (pagelist s' i) = page_addr i \<and> (fl_free (pagelist s' i) = 1 \<longleftrightarrow> mm_free ?lim ?pf i)"
    if "b \<le> i" "i < mm_end ?lim" for i
    using nodes [rule_format, of i] that by (auto simp: core_def mm_node_def split: if_splits)
  have other: "fl_address (pagelist s' i) = fl_address (pagelist s i) \<and> fl_free (pagelist s' i) = fl_free (pagelist s i)"
    if "\<not> (b \<le> i \<and> i < mm_end ?lim)" for i
    using nodes [rule_format, of i] that by (auto simp: core_def)
  have idx: "free_idx s' = {i. b \<le> i \<and> i < mm_end ?lim \<and> mm_free ?lim ?pf i}"
  proof (rule set_eqI)
    show "i \<in> free_idx s' \<longleftrightarrow> i \<in> {i. b \<le> i \<and> i < mm_end ?lim \<and> mm_free ?lim ?pf i}" for i
      using node [of i] other [of i] none [of i] end_le [of i]
      by (cases "b \<le> i \<and> i < mm_end ?lim") (auto simp: free_idx_def)
  qed
  then have "set (filter (mm_free ?lim ?pf) [b..<mm_end ?lim]) = free_idx s'" by auto
  moreover have "fl_address (pagelist s' i) = page_addr i \<or> fl_address (pagelist s' i) = 0 \<and> fl_free (pagelist s' i) \<noteq> 1"
    if "i < n_pagelist" for i
    using node [of i] other [of i] inv that by (cases "b \<le> i \<and> i < mm_end ?lim") (auto simp: pa_inv_def)
  ultimately have "pa_inv s'" using ch by (auto simp: pa_inv_def)
  moreover have "i < mm_end ?lim \<longleftrightarrow> page_addr i < ?lim \<and> i < n_pagelist" for i
    using end_le [of i] page_addr_less_lim [OF lim, of i] by auto
  then have "free_pages s' = {page_addr i |i. b \<le> i \<and> page_addr i < ?lim \<and> i < n_pagelist \<and>
       ?pf < page_addr i \<and> page_addr i + 4096 < ?lim}"
    by (auto simp: free_pages_def idx mm_free_def)
  ultimately show ?thesis using run by blast
qed

text \<open>
  C25. The first usable region: whatever the free list was empty for, \<open>mem_map\<close> over a
  page-aligned region below 75000 pages returns, the invariant holds again, and the free pages
  are exactly the region's pages that lie behind the kernel image and the descriptor array and
  end before the region does.
\<close>

theorem mem_map_builds_free_list:
  assumes inv: "pa_inv s" and empty: "head s = None"
    and base: "base = page_addr b" "b \<le> n_pagelist"
    and lim: "unat (base + len) \<le> 4096 * n_pagelist"
  shows "\<exists>s'. mem_map base len physbase physfree s = Inr s' \<and> pa_inv s' \<and>
    free_pages s' = {page_addr i |i. b \<le> i \<and> page_addr i < base + len \<and> i < n_pagelist \<and>
       physfree + sizeof_pagelist < page_addr i \<and> page_addr i + 4096 < base + len}"
  by (rule mem_map_free_list [OF assms])

theorem mem_map_builds_free_list_witness:
  "\<exists>s'. mem_map (page_addr 256) 0x600000 0x200000 0x300000 boot_palloc = Inr s' \<and> pa_inv s' \<and>
    free_pages s' = {page_addr i |i. 256 \<le> i \<and> page_addr i < page_addr 256 + 0x600000 \<and> i < n_pagelist \<and>
       0x300000 + sizeof_pagelist < page_addr i \<and> page_addr i + 4096 < page_addr 256 + 0x600000}"
  by (rule mem_map_builds_free_list [OF boot_palloc_inv])
    (simp_all add: boot_palloc_def page_addr_def)

text \<open>
  C6. Allocation as the rest of the kernel sees it: \<open>n\<close> calls of \<open>allocate_page\<close> succeed
  exactly while \<open>n\<close> pages are free, hand out \<open>n\<close> different pages that were free and are
  not free any more, and keep the invariant; one call too many is the out-of-memory halt.
\<close>

theorem allocate_page_fresh:
  assumes "pa_inv s"
  shows "if n \<le> card (free_pages s)
         then \<exists>ps s'. alloc_many allocate_page n s = Inr (ps, s') \<and> length ps = n \<and> distinct ps \<and>
                set ps \<subseteq> free_pages s \<and> free_pages s' = free_pages s - set ps \<and> pa_inv s'
         else alloc_many allocate_page n s = Inl OutOfMemory"
proof (cases "n \<le> card (free_pages s)")
  case True
  then obtain ps s' where run: "alloc_many allocate_page n s = Inr (ps, s')"
    using frames.many_result [OF assms, of n] by auto
  show ?thesis using True run frames.many_fresh [OF assms run] by auto
next
  case False
  then show ?thesis using frames.many_result [OF assms, of n] by simp
qed

theorem allocate_page_fresh_witness:
  "\<exists>ps s'. alloc_many allocate_page 2 example_palloc = Inr (ps, s') \<and> length ps = 2 \<and> distinct ps \<and>
     set ps \<subseteq> free_pages example_palloc \<and> free_pages s' = free_pages example_palloc - set ps \<and> pa_inv s'"
proof -
  have "card (free_pages example_palloc) = 3"
    by (simp add: example_free_pages page_addr_def)
  then show ?thesis using allocate_page_fresh [OF example_palloc_inv, of 2] by simp
qed

text \<open>
  Freeing the last reference to a page in use puts it on the free list and keeps the
  invariant, and the next allocation returns that very page, after which the set of free pages
  is what it was.
\<close>

theorem free_then_allocate:
  assumes inv: "pa_inv s" and i: "i < n_pagelist" "page_addr i \<notin> free_pages s"
    and addr: "fl_address (pagelist s i) = page_addr i" and rc: "fl_ref_count (pagelist s i) \<le> 1"
  shows "\<exists>s1 s2. free (page_addr i) s = Inr s1 \<and> pa_inv s1 \<and>
           free_pages s1 = insert (page_addr i) (free_pages s) \<and>
           allocate_page s1 = Inr (page_addr i, s2) \<and> pa_inv s2 \<and> free_pages s2 = free_pages s"
proof -
  have "i \<notin> free_idx s" using i(2) by (auto simp: free_pages_def)
  then obtain s1 where s1: "free (page_addr i) s = Inr s1" "pa_inv s1"
    "free_pages s1 = insert (page_addr i) (free_pages s)" "head s1 = Some i"
    using free_last_ref [OF inv i(1) _ addr rc] by blast
  then have "fl_address (pagelist s1 i) = page_addr i" by (intro pa_inv_head_addr)
  then obtain s2 where s2: "allocate_page s1 = Inr (page_addr i, s2)"
    using s1(4) by (simp add: allocate_page_def Let_def)
  then show ?thesis
    using s1 allocate_page_inv [OF s1(2) s2] i(2) by blast
qed

theorem free_then_allocate_witness:
  "\<exists>s1 s2. free (page_addr 7) example_palloc = Inr s1 \<and> pa_inv s1 \<and>
     free_pages s1 = insert (page_addr 7) (free_pages example_palloc) \<and>
     allocate_page s1 = Inr (page_addr 7, s2) \<and> pa_inv s2 \<and> free_pages s2 = free_pages example_palloc"
  by (rule free_then_allocate [OF example_palloc_inv])
    (simp_all add: example_free_pages page_addr_inj, simp_all add: example_palloc_def)

text \<open>
  Sharing is undone by freeing: after \<open>increfcount\<close> of a page in use, \<open>free\<close> of the
  same page gives back the allocator state exactly, and the page does not become free.
\<close>

theorem increfcount_free_roundtrip:
  assumes "i < n_pagelist" and "fl_address (pagelist s i) = page_addr i"
    and "1 \<le> fl_ref_count (pagelist s i)" and "fl_ref_count (pagelist s i) < 2147483647"
  shows "\<exists>s'. increfcount (page_addr i) s = Inr s' \<and>
           getrefcount (page_addr i) s' = Inr (fl_ref_count (pagelist s i) + 1) \<and>
           free (page_addr i) s' = Inr s"
proof -
  let ?s' = "set_page i ((pagelist s i)\<lparr>fl_ref_count := fl_ref_count (pagelist s i) + 1\<rparr>) s"
  have "increfcount (page_addr i) s = Inr ?s'"
    using assms by (simp add: increfcount_def page_index Let_def)
  moreover have "free (page_addr i) ?s' = Inr s"
    using assms by (subst free_shared) (simp_all add: set_page_def)
  ultimately show ?thesis using assms(1) by (simp add: getrefcount_def page_index)
qed

theorem increfcount_free_roundtrip_witness:
  "\<exists>s'. increfcount (page_addr 7) example_palloc = Inr s' \<and>
     getrefcount (page_addr 7) s' = Inr (fl_ref_count (pagelist example_palloc 7) + 1) \<and>
     free (page_addr 7) s' = Inr example_palloc"
  by (rule increfcount_free_roundtrip) (simp_all add: example_palloc_def)

text \<open>
  A page freed twice is handed out twice: \<open>free\<close> does not look at the descriptor's
  free mark, so the second call links the page to itself and the next two allocations
  both return it.
\<close>

theorem double_free_aliases:
  assumes "pa_inv s" and "i < n_pagelist" and "page_addr i \<notin> free_pages s"
    and "fl_address (pagelist s i) = page_addr i" and "fl_ref_count (pagelist s i) \<le> 1"
  shows "\<exists>s1 s2 s3 s4. free (page_addr i) s = Inr s1 \<and> free (page_addr i) s1 = Inr s2 \<and> \<not> pa_inv s2 \<and>
           allocate_page s2 = Inr (page_addr i, s3) \<and> allocate_page s3 = Inr (page_addr i, s4)"
proof -
  let ?s1 = "(set_page i ((pagelist s i)\<lparr>fl_free := 1, fl_next := head s\<rparr>) s)\<lparr>head := Some i\<rparr>"
  let ?s2 = "(set_page i ((pagelist ?s1 i)\<lparr>fl_free := 1, fl_next := head ?s1\<rparr>) ?s1)\<lparr>head := Some i\<rparr>"
  have "free (page_addr i) s = Inr ?s1" "free (page_addr i) ?s1 = Inr ?s2"
    using assms by (simp_all add: free_def page_int_addr Let_def)
  moreover have "\<not> chain (pagelist ?s2) (Some i) xs" for xs
    using chain_distinct [of "pagelist ?s2" "Some i" "i # xs"] by (cases xs) (auto split: list.splits)
  then have "\<not> pa_inv ?s2" by (simp add: pa_inv_def)
  ultimately show ?thesis using assms(4) by (simp add: allocate_page_def Let_def)
qed

theorem double_free_aliases_witness:
  "\<exists>s1 s2 s3 s4. free (page_addr 7) example_palloc = Inr s1 \<and> free (page_addr 7) s1 = Inr s2 \<and> \<not> pa_inv s2 \<and>
     allocate_page s2 = Inr (page_addr 7, s3) \<and> allocate_page s3 = Inr (page_addr 7, s4)"
  by (rule double_free_aliases [OF example_palloc_inv])
    (simp_all add: example_free_pages page_addr_inj, simp_all add: example_palloc_def)

text \<open>
  A second usable region that has a page for the free list: \<open>mem_map\<close> starts with
  \<open>last = NULL\<close> and, finding the list non-empty, stores through it.
\<close>

theorem mem_map_second_region_faults:
  assumes head: "head s = Some h" and base: "base = page_addr b"
    and lim: "unat (base + len) \<le> 4096 * n_pagelist"
    and i: "b \<le> i" "i < mm_end (base + len)" "mm_free (base + len) (physfree + sizeof_pagelist) i"
  shows "mem_map base len physbase physfree s = Inl NullDeref"
  unfolding mem_map_def base(1)
  using head i lim
  by (intro mem_map_loop_no_last) (simp_all add: base)

theorem mem_map_second_region_faults_witness:
  "mem_map (page_addr 256) 0x600000 0x200000 0x300000 example_palloc = Inl NullDeref"
  by (rule mem_map_second_region_faults [where b = 256 and i = 1500])
    (simp_all add: example_palloc_def page_addr_def mm_free_def mm_end_def)

end
