(* ===== verification/Page_Table.thy ===== *)
theory Page_Table
  imports Phys_Alloc
begin

unbundle bit_operations_syntax

text \<open>
  Four-level page tables as \<^verbatim>\<open>sys/paging.c\<close> builds and walks them. Memory is a
  function from the kernel-virtual address of a quadword to its value: the kernel reaches the
  page frame at physical address \<open>p\<close> at \<open>0xffffffff80000000 + p\<close>, and what the hardware
  reads at a physical address is what the kernel reads there. The kernel's own table is also
  reached through that window (the variable \<^verbatim>\<open>pml4e\<close>). The hardware walk is \<open>walk\<close>;
  the theory shows what mapping one page does to every walk.
\<close>

section \<open>State\<close>

abbreviation KERNBASE :: u64 where "KERNBASE \<equiv> 0xffffffff80000000"
abbreviation PTE_MASK :: u64 where "PTE_MASK \<equiv> 0xFFFFFFFFFFFFF000"

record vmem = palloc +
  kmem :: "u64 \<Rightarrow> u64"
  pml4e :: u64
  viraddr :: u64
  k_cr3 :: u64
  cr3 :: u64

text \<open>\<^verbatim>\<open>p[i]\<close> for a pointer to quadwords, and \<^verbatim>\<open>p[i] = v\<close>.\<close>

definition rd :: "'a vmem_scheme \<Rightarrow> u64 \<Rightarrow> u64 \<Rightarrow> u64" where
  "rd s p i = kmem s (p + 8 * i)"

definition wr :: "u64 \<Rightarrow> u64 \<Rightarrow> u64 \<Rightarrow> 'a vmem_scheme \<Rightarrow> 'a vmem_scheme" where
  "wr p i v s = s\<lparr>kmem := (kmem s)(p + 8 * i := v)\<rparr>"

text \<open>\<^verbatim>\<open>(v >> n) & 0x1FF\<close>.\<close>

definition tidx :: "nat \<Rightarrow> u64 \<Rightarrow> u64" where
  "tidx n v = drop_bit n v AND 0x1FF"

text \<open>\<^verbatim>\<open>memset(p,0,4096)\<close> on a page of quadwords.\<close>

definition memset_page :: "u64 \<Rightarrow> 'a vmem_scheme \<Rightarrow> 'a vmem_scheme" where
  "memset_page p s = fold (\<lambda>i. wr p (of_nat i) 0) [0..<512] s"

section \<open>Operations\<close>

text \<open>The last-level table that holds the entry of \<open>v\<close>; the caller indexes it.\<close>

definition getPTE :: "u64 \<Rightarrow> u64 \<Rightarrow> 'a vmem_scheme \<Rightarrow> u64" where
  "getPTE r_pml4e v s =
     (let p4 = r_pml4e + KERNBASE;
          p3 = (rd s p4 (tidx 39 v) AND PTE_MASK) + KERNBASE;
          p2 = (rd s p3 (tidx 30 v) AND PTE_MASK) + KERNBASE;
          p1 = (rd s p2 (tidx 21 v) AND PTE_MASK) + KERNBASE
      in p1)"

text \<open>\<^verbatim>\<open>map\<close>: a page of the kernel's own tables; new tables are not cleared.\<close>

definition map_kernel :: "u64 \<Rightarrow> u64 \<Rightarrow> 'a vmem_scheme \<Rightarrow> 'a vmem_scheme res" where
  "map_kernel vaddr_s phy s =
     (let id1 = tidx 39 vaddr_s; id2 = tidx 30 vaddr_s; id3 = tidx 21 vaddr_s; id4 = tidx 12 vaddr_s in
      if rd s (pml4e s) id1 AND 1 = 0 then
        rbind (allocate_page s) (\<lambda>(p3, s).
          let s = wr (pml4e s) id1 ((p3 AND PTE_MASK) OR 3) s; p3 = KERNBASE + p3 in
        rbind (allocate_page s) (\<lambda>(p2, s).
          let s = wr p3 id2 ((p2 AND PTE_MASK) OR 3) s; p2 = KERNBASE + p2 in
        rbind (allocate_page s) (\<lambda>(p1, s).
          let s = wr p2 id3 ((p1 AND PTE_MASK) OR 3) s; p1 = KERNBASE + p1 in
          Inr (wr p1 id4 ((phy AND PTE_MASK) OR 3) s))))
      else
        let p3 = KERNBASE + (rd s (pml4e s) id1 AND PTE_MASK) in
        if rd s p3 id2 AND 1 = 0 then
          rbind (allocate_page s) (\<lambda>(p2, s).
            let s = wr p3 id2 ((p2 AND PTE_MASK) OR 3) s; p2 = KERNBASE + p2 in
          rbind (allocate_page s) (\<lambda>(p1, s).
            let s = wr p2 id3 ((p1 AND PTE_MASK) OR 3) s; p1 = KERNBASE + p1 in
            Inr (wr p1 id4 ((phy AND PTE_MASK) OR 3) s)))
        else
          let p2 = KERNBASE + (rd s p3 id2 AND PTE_MASK) in
          if rd s p2 id3 AND 1 = 0 then
            rbind (allocate_page s) (\<lambda>(p1, s).
              let s = wr p2 id3 ((p1 AND PTE_MASK) OR 3) s; p1 = KERNBASE + p1 in
              Inr (wr p1 id4 ((phy AND PTE_MASK) OR 3) s))
          else
            let p1 = KERNBASE + (rd s p2 id3 AND PTE_MASK) in
            Inr (wr p1 id4 ((phy AND PTE_MASK) OR 3) s))"

definition allocate_page_for_process :: "'a vmem_scheme \<Rightarrow> (u64 \<times> 'a vmem_scheme) res" where
  "allocate_page_for_process s =
     rbind (allocate_page s) (\<lambda>(ax, s).
       let s = s\<lparr>viraddr := KERNBASE + ax\<rparr> in
       rbind (map_kernel (viraddr s) ax s) (\<lambda>s. Inr (viraddr s, s)))"

text \<open>The loop of \<^verbatim>\<open>kmalloc\<close> that takes pages behind the first, whose address is returned.\<close>

fun kmalloc_rest :: "nat \<Rightarrow> 'a vmem_scheme \<Rightarrow> 'a vmem_scheme res" where
  "kmalloc_rest 0 s = Inr s"
| "kmalloc_rest (Suc n) s = rbind (allocate_page_for_process s) (\<lambda>(_, s). kmalloc_rest n s)"

definition kmalloc :: "int \<Rightarrow> 'a vmem_scheme \<Rightarrow> (u64 \<times> 'a vmem_scheme) res" where
  "kmalloc sz s =
     (let no_pages = sz div 4096 + 1 in
      rbind (allocate_page_for_process s) (\<lambda>(add, s).
      rbind (kmalloc_rest (nat (no_pages - 1)) s) (\<lambda>s. Inr (add, s))))"

text \<open>\<^verbatim>\<open>init_pages_for_process\<close>: one user page; new tables are cleared.\<close>

definition init_pages_for_process :: "u64 \<Rightarrow> u64 \<Rightarrow> u64 \<Rightarrow> 'a vmem_scheme \<Rightarrow> 'a vmem_scheme res" where
  "init_pages_for_process vaddr_s phy pml4 s =
     (let s = wr pml4 511 ((rd s (pml4e s) 511 AND PTE_MASK) OR 7) s;
          id1 = tidx 39 vaddr_s; id2 = tidx 30 vaddr_s; id3 = tidx 21 vaddr_s; id4 = tidx 12 vaddr_s in
      if rd s pml4 id1 AND 1 = 0 then
        rbind (allocate_page s) (\<lambda>(p3, s).
          let s = wr pml4 id1 ((p3 AND PTE_MASK) OR 7) s; p3 = KERNBASE + p3; s = memset_page p3 s in
        rbind (allocate_page s) (\<lambda>(p2, s).
          let s = wr p3 id2 ((p2 AND PTE_MASK) OR 7) s; p2 = KERNBASE + p2; s = memset_page p2 s in
        rbind (allocate_page s) (\<lambda>(p1, s).
          let s = wr p2 id3 ((p1 AND PTE_MASK) OR 7) s; p1 = KERNBASE + p1; s = memset_page p1 s in
          Inr (wr p1 id4 ((phy AND PTE_MASK) OR 7) s))))
      else
        let p3 = KERNBASE + (rd s pml4 id1 AND PTE_MASK) in
        if rd s p3 id2 AND 1 = 0 then
          rbind (allocate_page s) (\<lambda>(p2, s).
            let s = wr p3 id2 ((p2 AND PTE_MASK) OR 7) s; p2 = KERNBASE + p2; s = memset_page p2 s in
          rbind (allocate_page s) (\<lambda>(p1, s).
            let s = wr p2 id3 ((p1 AND PTE_MASK) OR 7) s; p1 = KERNBASE + p1; s = memset_page p1 s in
            Inr (wr p1 id4 ((phy AND PTE_MASK) OR 7) s)))
        else
          let p2 = KERNBASE + (rd s p3 id2 AND PTE_MASK) in
          if rd s p2 id3 AND 1 = 0 then
            rbind (allocate_page s) (\<lambda>(p1, s).
              let s = wr p2 id3 ((p1 AND PTE_MASK) OR 7) s; p1 = KERNBASE + p1; s = memset_page p1 s in
              Inr (wr p1 id4 ((phy AND PTE_MASK) OR 7) s))
          else
            let p1 = KERNBASE + (rd s p2 id3 AND PTE_MASK) in
            Inr (wr p1 id4 ((phy AND PTE_MASK) OR 7) s))"

definition switchtokern :: "'a vmem_scheme \<Rightarrow> 'a vmem_scheme" where
  "switchtokern s = s\<lparr>cr3 := k_cr3 s\<rparr>"

section \<open>The hardware's view\<close>

text \<open>The table a list of indices leads to from a root table, and the last-level entry of an address.\<close>

fun table_at :: "(u64 \<Rightarrow> u64) \<Rightarrow> u64 \<Rightarrow> u64 list \<Rightarrow> u64 option" where
  "table_at m t [] = Some t"
| "table_at m t (i # is) =
     (let e = m (t + 8 * i) in
      if e AND 1 = 0 then None else table_at m (KERNBASE + (e AND PTE_MASK)) is)"

definition vpath :: "u64 \<Rightarrow> u64 list" where
  "vpath v = [tidx 39 v, tidx 30 v, tidx 21 v]"

definition walk :: "(u64 \<Rightarrow> u64) \<Rightarrow> u64 \<Rightarrow> u64 \<Rightarrow> u64 option" where
  "walk m root v =
     (case table_at m root (vpath v) of
        None \<Rightarrow> None
      | Some p1 \<Rightarrow> let e = m (p1 + 8 * tidx 12 v) in if e AND 1 = 0 then None else Some e)"

text \<open>The part of an address that selects its page: bits 12 to 47.\<close>

definition page_of :: "u64 \<Rightarrow> u64" where
  "page_of v = v AND 0xFFFFFFFFF000"

text \<open>
  A user address space: the tables reached through the lower 511 slots of the root form a
  tree (no table is reached on two ways), are page aligned and are not free page frames.
\<close>

definition user_path :: "u64 list \<Rightarrow> bool" where
  "user_path q \<longleftrightarrow> length q \<le> 3 \<and> (\<forall>i\<in>set q. i < 512) \<and> (q \<noteq> [] \<longrightarrow> hd q \<noteq> 511)"

definition page_aligned :: "u64 \<Rightarrow> bool" where
  "page_aligned t \<longleftrightarrow> t AND 0xFFF = 0"

definition pt_tree :: "u64 \<Rightarrow> 'a vmem_scheme \<Rightarrow> bool" where
  "pt_tree root s \<longleftrightarrow>
     (\<forall>p q t. user_path p \<and> user_path q \<and> table_at (kmem s) root p = Some t \<and>
        table_at (kmem s) root q = Some t \<longrightarrow> p = q) \<and>
     (\<forall>p t. user_path p \<and> table_at (kmem s) root p = Some t \<longrightarrow>
        page_aligned t \<and> t - KERNBASE \<notin> free_pages s)"

section \<open>Words: alignment, indices, entries\<close>

lemma PTE_MASK_eq: "PTE_MASK = NOT (mask 12)"
  by (simp add: mask_eq_exp_minus_1)

lemma seven_eq_mask: "(7 :: u64) = mask 3"
  by (simp add: mask_eq_exp_minus_1)

lemma page_aligned_bit: "page_aligned t \<longleftrightarrow> (\<forall>n<12. \<not> bit t n)"
proof -
  have "t AND 0xFFF = take_bit 12 t" by (simp add: take_bit_eq_mask mask_eq_exp_minus_1)
  then show ?thesis by (auto simp: page_aligned_def bit_eq_iff bit_simps)
qed

lemma page_aligned_unat: "page_aligned t \<longleftrightarrow> 4096 dvd unat t"
proof -
  have "t AND 0xFFF = t mod 4096"
    using take_bit_eq_mod [of 12 t] by (simp add: take_bit_eq_mask mask_eq_exp_minus_1)
  then have "page_aligned t \<longleftrightarrow> unat (t mod 4096) = 0" by (simp add: page_aligned_def unsigned_eq_0_iff)
  then show ?thesis by (simp add: unat_mod dvd_eq_mod_eq_0)
qed

lemma tidx_bound [paging_simps, simp]: "tidx n v < 512"
proof -
  have "tidx n v \<le> 0x1FF" by (simp add: tidx_def word_and_le1)
  then show ?thesis by (rule order.strict_trans1) simp
qed

lemma slot_unat:
  assumes "page_aligned t" and "i < 512"
  shows "unat (t + 8 * i) = unat t + 8 * unat i"
proof -
  have i: "unat i < 512" using assms(2) by (simp add: word_less_nat_alt)
  obtain k where k: "unat t = 4096 * k" using assms(1) by (auto simp: page_aligned_unat)
  have "unat t < 2 ^ 64" using unsigned_less [of t] by simp
  then have "k < 2 ^ 52" by (simp add: k)
  then have "unat t + 4096 \<le> 2 ^ 64" by (simp add: k)
  then show ?thesis using i by (simp add: unat_word_ariths)
qed

lemma slot_eq_iff:
  assumes "page_aligned t" "page_aligned t'" "i < 512" "j < 512"
  shows "t + 8 * i = t' + 8 * j \<longleftrightarrow> t = t' \<and> i = j"
proof
  assume eq: "t + 8 * i = t' + 8 * j"
  have ij: "unat i < 512" "unat j < 512" using assms(3,4) by (simp_all add: word_less_nat_alt)
  from assms(1,2) obtain k k' where k: "unat t = 4096 * k" "unat t' = 4096 * k'"
    unfolding page_aligned_unat dvd_def by blast
  have "unat t + 8 * unat i = unat t' + 8 * unat j"
    using eq slot_unat [OF assms(1,3)] slot_unat [OF assms(2,4)] by simp
  then have e: "512 * k + unat i = 512 * k' + unat j" by (simp add: k)
  then have "(512 * k + unat i) div 512 = (512 * k' + unat j) div 512" by simp
  then have "k = k'" using ij by simp
  with e k have "unat t = unat t' \<and> unat i = unat j" by simp
  then show "t = t' \<and> i = j" by (metis word_of_nat_unat)
qed simp

lemma page_aligned_KERNBASE: "page_aligned p \<Longrightarrow> page_aligned (KERNBASE + p)"
  unfolding page_aligned_unat by (simp add: unat_word_ariths dvd_mod)

lemma page_addr_aligned: "page_aligned (page_addr i)"
  unfolding page_aligned_unat page_addr_def by (simp add: unat_of_nat take_bit_eq_mod dvd_mod del: of_nat_mult)

lemma free_pages_aligned: "p \<in> free_pages s \<Longrightarrow> page_aligned p"
  by (auto simp: free_pages_def page_addr_aligned)

lemma entry_table [paging_simps]:
  "page_aligned p \<Longrightarrow> ((p AND PTE_MASK) OR 7) AND PTE_MASK = p"
  unfolding PTE_MASK_eq page_aligned_bit
  by (rule bit_word_eqI) (auto simp: bit_simps seven_eq_mask)

lemma entry_present [paging_simps]: "((p AND PTE_MASK) OR 7) AND 1 \<noteq> (0 :: u64)"
proof
  assume "((p AND PTE_MASK) OR 7) AND 1 = (0 :: u64)"
  then have "\<not> bit (((p AND PTE_MASK) OR 7) AND 1) 0" by simp
  then show False by (simp add: bit_simps)
qed

section \<open>Frames: which parts of the state an operation touches\<close>

lemma kmem_wr [simp]: "kmem (wr p i v s) = (kmem s)(p + 8 * i := v)"
  by (simp add: wr_def)

lemma palloc_wr [simp]:
  "pagelist (wr p i v s) = pagelist s" "head (wr p i v s) = head s"
  "pml4e (wr p i v s) = pml4e s" "k_cr3 (wr p i v s) = k_cr3 s" "cr3 (wr p i v s) = cr3 s"
  "viraddr (wr p i v s) = viraddr s"
  by (simp_all add: wr_def)

lemma palloc_fold_wr:
  "pagelist (fold (\<lambda>i. wr p (of_nat i) 0) is s) = pagelist s \<and>
   head (fold (\<lambda>i. wr p (of_nat i) 0) is s) = head s \<and>
   pml4e (fold (\<lambda>i. wr p (of_nat i) 0) is s) = pml4e s"
  by (induction "is" arbitrary: s) simp_all

lemma palloc_memset_page [simp]:
  "pagelist (memset_page p s) = pagelist s" "head (memset_page p s) = head s"
  "pml4e (memset_page p s) = pml4e s"
  using palloc_fold_wr [of p "[0..<512]" s] by (simp_all add: memset_page_def)

lemma kmem_fold_wr:
  "kmem (fold (\<lambda>i. wr p (of_nat i) 0) is s) a =
     (if \<exists>i\<in>set is. a = p + 8 * of_nat i then 0 else kmem s a)"
  by (induction "is" arbitrary: s) auto

lemma kmem_memset_page:
  "kmem (memset_page p s) a = (if \<exists>j<512. a = p + 8 * j then 0 else kmem s a)"
proof -
  have "(\<exists>i\<in>set [0..<512]. a = p + 8 * of_nat i) \<longleftrightarrow> (\<exists>j<512. a = p + 8 * j)"
  proof
    assume "\<exists>i\<in>set [0..<512]. a = p + 8 * of_nat i"
    then obtain i :: nat where i: "i < 512" "a = p + 8 * of_nat i" by auto
    then have "(of_nat i :: u64) < 512" by (simp add: word_less_nat_alt unat_of_nat_lt)
    with i show "\<exists>j<512. a = p + 8 * j" by blast
  next
    assume "\<exists>j<512. a = p + 8 * j"
    then obtain j :: u64 where j: "j < 512" "a = p + 8 * j" by blast
    then have "unat j < 512" by (simp add: word_less_nat_alt)
    with j(2) show "\<exists>i\<in>set [0..<512]. a = p + 8 * of_nat i"
      by (intro bexI [of _ "unat j"]) simp_all
  qed
  then show ?thesis by (simp add: memset_page_def kmem_fold_wr)
qed

lemma pa_inv_cong:
  assumes "pagelist s' = pagelist s" and "head s' = head s"
  shows "pa_inv s' = pa_inv s" and "free_pages s' = free_pages s"
  using assms by (simp_all add: pa_inv_def free_pages_def free_idx_def)

lemma alloc_wr [frame_simps]:
  "pa_inv (wr p i v s) = pa_inv s" "free_pages (wr p i v s) = free_pages s"
  "pa_inv (memset_page p s) = pa_inv s" "free_pages (memset_page p s) = free_pages s"
  by (rule pa_inv_cong; simp)+

lemma allocate_page_frame:
  "allocate_page s = Inr (p, s') \<Longrightarrow> kmem s' = kmem s \<and> pml4e s' = pml4e s \<and>
     k_cr3 s' = k_cr3 s \<and> cr3 s' = cr3 s \<and> viraddr s' = viraddr s"
  by (auto simp: allocate_page_def set_page_def Let_def split: option.splits)

section \<open>Tables along a path\<close>

lemma user_path_appendD: "user_path (p @ q) \<Longrightarrow> user_path p"
  by (cases p) (auto simp: user_path_def)

lemma user_path_index: "user_path (p @ i # q) \<Longrightarrow> i < 512"
  by (simp add: user_path_def)

lemma table_at_append:
  "table_at m root (p @ q) = (case table_at m root p of None \<Rightarrow> None | Some t \<Rightarrow> table_at m t q)"
  by (induction p arbitrary: root) (auto simp: Let_def)

lemma table_at_cong:
  assumes "\<And>q' j q'' t. q = q' @ j # q'' \<Longrightarrow> table_at m root q' = Some t \<Longrightarrow> m' (t + 8 * j) = m (t + 8 * j)"
  shows "table_at m' root q = table_at m root q"
  using assms
proof (induction q arbitrary: root)
  case (Cons i "is")
  have here: "m' (root + 8 * i) = m (root + 8 * i)"
    using Cons.prems [of "[]" i "is" root] by simp
  show ?case
  proof (cases "m (root + 8 * i) AND 1 = 0")
    case True
    with here show ?thesis by simp
  next
    case False
    let ?t = "KERNBASE + (m (root + 8 * i) AND PTE_MASK)"
    have "table_at m' ?t is = table_at m ?t is"
      using Cons.prems [of "i # q'" for q'] False by (intro Cons.IH) auto
    with here False show ?thesis by simp
  qed
qed simp

lemma pt_tree_unique:
  "pt_tree root s \<Longrightarrow> user_path p \<Longrightarrow> user_path q \<Longrightarrow> table_at (kmem s) root p = Some t \<Longrightarrow>
     table_at (kmem s) root q = Some t \<Longrightarrow> p = q"
  by (simp add: pt_tree_def)

lemma pt_tree_table:
  "pt_tree root s \<Longrightarrow> user_path p \<Longrightarrow> table_at (kmem s) root p = Some t \<Longrightarrow>
     page_aligned t \<and> t - KERNBASE \<notin> free_pages s"
  by (simp add: pt_tree_def)

text \<open>
  A store to slot \<open>i\<close> of the table at path \<open>p\<close>, and stores to a page frame that was free,
  cannot be seen on a path that does not go through that slot.
\<close>

lemma table_at_other_path:
  assumes tree: "pt_tree root s" and p: "user_path p" "table_at (kmem s) root p = Some t" "i < 512"
    and q: "user_path q" "\<And>r. q \<noteq> p @ i # r"
    and m': "\<And>a. a \<noteq> t + 8 * i \<Longrightarrow> (\<And>n j. n \<in> free_pages s \<Longrightarrow> j < 512 \<Longrightarrow> a \<noteq> KERNBASE + n + 8 * j) \<Longrightarrow> m' a = kmem s a"
  shows "table_at m' root q = table_at (kmem s) root q"
proof (rule table_at_cong)
  fix q' j q'' u
  assume dec: "q = q' @ j # q''" and u: "table_at (kmem s) root q' = Some u"
  have q': "user_path q'" and j: "j < 512" using q(1) by (auto simp: dec dest: user_path_appendD user_path_index)
  note ua = pt_tree_table [OF tree q' u] and ta = pt_tree_table [OF tree p(1,2)]
  show "m' (u + 8 * j) = kmem s (u + 8 * j)"
  proof (rule m')
    show "u + 8 * j \<noteq> t + 8 * i"
    proof
      assume "u + 8 * j = t + 8 * i"
      then have "u = t" "j = i" using ua ta j p(3) by (simp_all add: slot_eq_iff)
      with u have "q' = p" by (intro pt_tree_unique [OF tree q' p(1) _ p(2)]) simp
      with \<open>j = i\<close> dec q(2) show False by simp
    qed
    show "u + 8 * j \<noteq> KERNBASE + n + 8 * k" if "n \<in> free_pages s" "k < 512" for n k
    proof
      assume "u + 8 * j = KERNBASE + n + 8 * k"
      moreover have "page_aligned (KERNBASE + n)"
        using that(1) by (intro page_aligned_KERNBASE free_pages_aligned)
      ultimately have "u = KERNBASE + n" using ua j that(2) by (simp add: slot_eq_iff)
      with ua that(1) show False by simp
    qed
  qed
qed

text \<open>A new, cleared table in an empty slot: exactly one path leads somewhere new.\<close>

lemma table_at_new_table:
  assumes tree: "pt_tree root s" and p: "user_path (p @ [i])" "table_at (kmem s) root p = Some t"
    and absent: "kmem s (t + 8 * i) AND 1 = 0" and n: "n \<in> free_pages s"
    and m': "\<And>a. m' a = (if \<exists>j<512. a = KERNBASE + n + 8 * j then 0
                        else if a = t + 8 * i then (n AND PTE_MASK) OR 7 else kmem s a)"
    and q: "user_path q"
  shows "table_at m' root q = (if q = p @ [i] then Some (KERNBASE + n) else table_at (kmem s) root q)"
proof -
  have up: "user_path p" and i: "i < 512" using p(1) by (auto dest: user_path_appendD user_path_index)
  have same: "table_at m' root q' = table_at (kmem s) root q'" if "user_path q'" "\<And>r. q' \<noteq> p @ i # r" for q'
    using n by (intro table_at_other_path [OF tree up p(2) i that]) (auto simp: m')
  show ?thesis
  proof (cases "\<exists>r. q = p @ i # r")
    case False
    with same [OF q] show ?thesis by auto
  next
    case True
    then obtain r where r: "q = p @ i # r" by blast
    note ta = pt_tree_table [OF tree up p(2)]
    have al: "page_aligned n" "page_aligned (KERNBASE + n)"
      using n by (auto intro: free_pages_aligned page_aligned_KERNBASE)
    have "t + 8 * i \<noteq> KERNBASE + n + 8 * j" if "j < 512" for j
      using ta n that i by (auto simp: slot_eq_iff al)
    then have "m' (t + 8 * i) = (n AND PTE_MASK) OR 7" by (auto simp: m')
    moreover have "table_at m' root p = Some t" using same [OF up] p(2) by simp
    ultimately have new: "table_at m' root q = table_at m' (KERNBASE + n) r"
      by (simp add: r table_at_append entry_present entry_table [OF al(1)])
    have old: "table_at (kmem s) root q = None" using p(2) absent by (simp add: r table_at_append)
    show ?thesis
    proof (cases r)
      case Nil
      with new show ?thesis by (simp add: r)
    next
      case (Cons j r')
      then have "m' (KERNBASE + n + 8 * j) = 0" using q by (auto simp: m' r user_path_def)
      with new old Cons show ?thesis by (simp add: r)
    qed
  qed
qed

section \<open>Mapping as three table steps and a store\<close>

text \<open>
  The reference: make sure that the slot holds a table, three levels down, then write the
  entry. \<open>init_pages_for_process\<close> spells the four situations out; it is this.
\<close>

definition ensure_table :: "u64 \<Rightarrow> u64 \<Rightarrow> 'a vmem_scheme \<Rightarrow> (u64 \<times> 'a vmem_scheme) res" where
  "ensure_table t i s =
     (if rd s t i AND 1 = 0
      then rbind (allocate_page s) (\<lambda>(p, s).
        Inr (KERNBASE + p, memset_page (KERNBASE + p) (wr t i ((p AND PTE_MASK) OR 7) s)))
      else Inr (KERNBASE + (rd s t i AND PTE_MASK), s))"

definition map_user :: "u64 \<Rightarrow> u64 \<Rightarrow> u64 \<Rightarrow> 'a vmem_scheme \<Rightarrow> 'a vmem_scheme res" where
  "map_user v phy pml4 s =
     rbind (ensure_table pml4 (tidx 39 v) s) (\<lambda>(p3, s).
     rbind (ensure_table p3 (tidx 30 v) s) (\<lambda>(p2, s).
     rbind (ensure_table p2 (tidx 21 v) s) (\<lambda>(p1, s).
       Inr (wr p1 (tidx 12 v) ((phy AND PTE_MASK) OR 7) s))))"

lemma rd_memset_page [simp]: "i < 512 \<Longrightarrow> rd (memset_page p s) p i = 0"
  by (auto simp: rd_def kmem_memset_page)

lemma rd_alloc_memset:
  "allocate_page (memset_page p s) = Inr (n, s') \<Longrightarrow> i < 512 \<Longrightarrow> rd s' p i = 0"
  using allocate_page_frame [of "memset_page p s" n s'] by (auto simp: rd_def kmem_memset_page)

lemma init_pages_for_process_eq:
  "init_pages_for_process v phy pml4 s =
     map_user v phy pml4 (wr pml4 511 ((rd s (pml4e s) 511 AND PTE_MASK) OR 7) s)"
  by (simp add: init_pages_for_process_def map_user_def ensure_table_def Let_def rbind_assoc
      split_def cong: rbind_cong)

text \<open>What a table step may do: take page frames and add empty tables, changing no translation.\<close>

definition grows :: "u64 \<Rightarrow> 'a vmem_scheme \<Rightarrow> 'a vmem_scheme \<Rightarrow> bool" where
  "grows root s s' \<longleftrightarrow> pa_inv s' \<and> pt_tree root s' \<and> free_pages s' \<subseteq> free_pages s \<and>
     (\<forall>v. tidx 39 v \<noteq> 511 \<longrightarrow> walk (kmem s') root v = walk (kmem s) root v) \<and>
     rd s' root 511 = rd s root 511"

lemma user_path_vpath: "tidx 39 v \<noteq> 511 \<Longrightarrow> user_path (vpath v)"
  by (simp add: user_path_def vpath_def)

lemma ensure_table_present:
  assumes "pa_inv s" "pt_tree root s" "table_at (kmem s) root p = Some t"
    and "rd s t i AND 1 \<noteq> 0"
  shows "\<exists>t'. ensure_table t i s = Inr (t', s) \<and> grows root s s \<and> table_at (kmem s) root (p @ [i]) = Some t'"
  using assms by (simp add: ensure_table_def grows_def table_at_append rd_def)

lemma new_table_slot:
  assumes tree: "pt_tree root s" and p: "user_path (p @ [i])" "table_at (kmem s) root p = Some t"
    and n: "n \<in> free_pages s"
    and m': "\<And>a. m' a = (if \<exists>j<512. a = KERNBASE + n + 8 * j then 0
                        else if a = t + 8 * i then (n AND PTE_MASK) OR 7 else kmem s a)"
    and q: "user_path q" "table_at (kmem s) root q = Some u" "j < 512" "q \<noteq> p \<or> j \<noteq> i"
  shows "m' (u + 8 * j) = kmem s (u + 8 * j)"
proof -
  have up: "user_path p" and i: "i < 512" using p by (auto dest: user_path_appendD user_path_index)
  have al: "page_aligned (KERNBASE + n)" using n by (intro page_aligned_KERNBASE free_pages_aligned)
  note ua = pt_tree_table [OF tree q(1,2)] and ta = pt_tree_table [OF tree up p(2)]
  have "u + 8 * j \<noteq> t + 8 * i"
    using q(4) pt_tree_unique [OF tree q(1) up q(2)] p(2) ua ta q(3) i by (auto simp: slot_eq_iff)
  moreover have "u + 8 * j \<noteq> KERNBASE + n + 8 * k" if "k < 512" for k
    using ua al n q(3) that by (auto simp: slot_eq_iff)
  ultimately show ?thesis by (auto simp: m')
qed

lemma ensure_table_absent:
  assumes inv: "pa_inv s" and tree: "pt_tree root s" and p: "user_path (p @ [i])"
    and t: "table_at (kmem s) root p = Some t" and absent: "rd s t i AND 1 = 0"
    and alloc: "allocate_page s = Inr (n, s1)"
    and s': "s' = memset_page (KERNBASE + n) (wr t i ((n AND PTE_MASK) OR 7) s1)"
  shows "grows root s s'" and "table_at (kmem s') root (p @ [i]) = Some (KERNBASE + n)"
proof -
  note fresh = allocate_page_inv [OF inv alloc]
  have mem: "kmem s' a = (if \<exists>j<512. a = KERNBASE + n + 8 * j then 0
      else if a = t + 8 * i then (n AND PTE_MASK) OR 7 else kmem s a)" for a
    using allocate_page_frame [OF alloc] by (auto simp: s' kmem_memset_page)
  have inv': "pa_inv s'" and free': "free_pages s' = free_pages s - {n}"
    using fresh by (simp_all add: s' alloc_wr)
  note tab = table_at_new_table [OF tree p t absent [unfolded rd_def] fresh(2), where m' = "kmem s'", OF mem]
  show here: "table_at (kmem s') root (p @ [i]) = Some (KERNBASE + n)" using tab [OF p] by simp
  have al: "page_aligned (KERNBASE + n)" using fresh(2) by (intro page_aligned_KERNBASE free_pages_aligned)
  have up: "user_path p" and i: "i < 512" using p by (auto dest: user_path_appendD user_path_index)
  have old: "u \<noteq> KERNBASE + n" if "user_path q" "table_at (kmem s) root q = Some u" for q u
    using pt_tree_table [OF tree that] fresh(2) by auto
  have tree': "pt_tree root s'"
    unfolding pt_tree_def free'
  proof (intro conjI allI impI; elim conjE)
    fix q r u
    assume "user_path q" "user_path r" "table_at (kmem s') root q = Some u" "table_at (kmem s') root r = Some u"
    then show "q = r"
      using old pt_tree_unique [OF tree] by (auto simp: tab split: if_splits)
  next
    fix q u
    assume "user_path q" "table_at (kmem s') root q = Some u"
    then show "page_aligned u" "u - KERNBASE \<notin> free_pages s - {n}"
      using pt_tree_table [OF tree] al by (auto simp: tab split: if_splits)
  qed
  note slot = new_table_slot [OF tree p t fresh(2), where m' = "kmem s'", OF mem]
  have "walk (kmem s') root v = walk (kmem s) root v" if v: "tidx 39 v \<noteq> 511" for v
  proof (cases "vpath v = p @ [i]")
    case True
    then have "table_at (kmem s) root (vpath v) = None" using t absent by (simp add: table_at_append rd_def)
    moreover have "\<exists>j<512. KERNBASE + n + 8 * tidx 12 v = KERNBASE + n + 8 * j" using tidx_bound by blast
    then have "kmem s' (KERNBASE + n + 8 * tidx 12 v) = 0" by (simp only: mem if_True)
    ultimately show ?thesis using here by (simp add: walk_def True)
  next
    case False
    note q = user_path_vpath [OF v]
    have "vpath v \<noteq> p" using p by (auto simp: vpath_def user_path_def)
    then show ?thesis using tab [OF q] slot [OF q] False by (auto simp: walk_def split: option.splits)
  qed
  moreover have "rd s' root 511 = rd s root 511"
    using slot [of "[]" root 511] p by (cases p) (auto simp: rd_def user_path_def)
  ultimately show "grows root s s'" using inv' tree' free' by (auto simp: grows_def)
qed

lemma ensure_table_ok:
  assumes "pa_inv s" "pt_tree root s" "user_path (p @ [i])" "table_at (kmem s) root p = Some t"
  shows "case ensure_table t i s of
      Inl e \<Rightarrow> e = OutOfMemory \<and> free_pages s = {}
    | Inr (t', s') \<Rightarrow> grows root s s' \<and> table_at (kmem s') root (p @ [i]) = Some t' \<and>
        card (free_pages s) \<le> Suc (card (free_pages s'))"
proof (cases "rd s t i AND 1 = 0")
  case False
  with ensure_table_present [OF assms(1,2,4), of i] show ?thesis by auto
next
  case absent: True
  show ?thesis
  proof (cases "allocate_page s")
    case (Inl e)
    with allocate_page_total [OF assms(1)] absent show ?thesis
      by (cases "free_pages s = {}") (auto simp: ensure_table_def)
  next
    case (Inr r)
    then obtain n s1 where alloc: "allocate_page s = Inr (n, s1)" by (cases r) auto
    let ?s' = "memset_page (KERNBASE + n) (wr t i ((n AND PTE_MASK) OR 7) s1)"
    have "card (free_pages s) = Suc (card (free_pages ?s'))"
      using frames.card_alloc [OF assms(1) alloc] by (simp add: alloc_wr)
    with ensure_table_absent [OF assms absent alloc refl] absent show ?thesis
      by (simp add: ensure_table_def alloc)
  qed
qed

lemma grows_trans: "grows root s s' \<Longrightarrow> grows root s' s'' \<Longrightarrow> grows root s s''"
  unfolding grows_def by auto

lemma growsD: "grows root s s' \<Longrightarrow> pa_inv s' \<and> pt_tree root s'"
  by (simp add: grows_def)

lemma three_tables:
  assumes inv: "pa_inv s" "pt_tree root s" and v: "tidx 39 v \<noteq> 511"
  shows "case map_user v phy root s of
      Inl e \<Rightarrow> e = OutOfMemory \<and> card (free_pages s) < 3
    | Inr s' \<Rightarrow> \<exists>p1 s3. s' = wr p1 (tidx 12 v) ((phy AND PTE_MASK) OR 7) s3 \<and> grows root s s3 \<and>
        table_at (kmem s3) root (vpath v) = Some p1"
proof -
  have up: "user_path ([] @ [tidx 39 v])" "user_path ([tidx 39 v] @ [tidx 30 v])"
    "user_path ([tidx 39 v, tidx 30 v] @ [tidx 21 v])" using v by (simp_all add: user_path_def)
  note e1 = ensure_table_ok [OF inv up(1), of root]
  show ?thesis
  proof (cases "ensure_table root (tidx 39 v) s")
    case (Inl e)
    with e1 show ?thesis by (simp add: map_user_def)
  next
    case (Inr r)
    then obtain p3 s1 where r1: "ensure_table root (tidx 39 v) s = Inr (p3, s1)" by (cases r) auto
    with e1 have g1: "grows root s s1" "card (free_pages s) \<le> Suc (card (free_pages s1))"
      and t1: "table_at (kmem s1) root [tidx 39 v] = Some p3" by auto
    note e2 = ensure_table_ok [OF growsD [OF g1(1), THEN conjunct1] growsD [OF g1(1), THEN conjunct2] up(2) t1]
    show ?thesis
    proof (cases "ensure_table p3 (tidx 30 v) s1")
      case (Inl e)
      with e2 g1 show ?thesis by (simp add: map_user_def r1)
    next
      case (Inr r)
      then obtain p2 s2 where r2: "ensure_table p3 (tidx 30 v) s1 = Inr (p2, s2)" by (cases r) auto
      with e2 have g2: "grows root s1 s2" "card (free_pages s1) \<le> Suc (card (free_pages s2))"
        and t2: "table_at (kmem s2) root [tidx 39 v, tidx 30 v] = Some p2" by auto
      note e3 = ensure_table_ok [OF growsD [OF g2(1), THEN conjunct1] growsD [OF g2(1), THEN conjunct2] up(3) t2]
      show ?thesis
      proof (cases "ensure_table p2 (tidx 21 v) s2")
        case (Inl e)
        with e3 g1 g2 show ?thesis by (simp add: map_user_def r1 r2)
      next
        case (Inr r)
        with e3 grows_trans [OF grows_trans [OF g1(1) g2(1)]] show ?thesis
          by (cases r) (auto simp: map_user_def r1 r2 vpath_def)
      qed
    qed
  qed
qed

lemma leaf_store:
  assumes tree: "pt_tree root s" and v: "tidx 39 v \<noteq> 511"
    and p1: "table_at (kmem s) root (vpath v) = Some p1" and e: "e AND 1 \<noteq> 0"
    and s': "s' = wr p1 (tidx 12 v) e s"
  shows "pt_tree root s'"
    and "\<And>v'. tidx 39 v' \<noteq> 511 \<Longrightarrow> walk (kmem s') root v' =
          (if vpath v' = vpath v \<and> tidx 12 v' = tidx 12 v then Some e else walk (kmem s) root v')"
    and "rd s' root 511 = rd s root 511"
proof -
  note up = user_path_vpath [OF v] and p1a = pt_tree_table [OF tree user_path_vpath [OF v] p1]
  have tab: "table_at (kmem s') root q = table_at (kmem s) root q" if "user_path q" for q
    using that by (intro table_at_other_path [OF tree up p1 tidx_bound [of 12 v]])
      (auto simp: s' user_path_def vpath_def)
  have slot: "u + 8 * j = p1 + 8 * tidx 12 v \<longleftrightarrow> q = vpath v \<and> j = tidx 12 v"
    if q: "user_path q" "table_at (kmem s) root q = Some u" and j: "j < 512" for q u j
    using pt_tree_table [OF tree q] p1a pt_tree_unique [OF tree q(1) up q(2)] p1 q(2) j
    by (auto simp: slot_eq_iff)
  show "pt_tree root s'"
    using tree alloc_wr(2) [of p1 "tidx 12 v" e s] unfolding pt_tree_def s' [symmetric]
    by (auto simp: tab)
  show "walk (kmem s') root v' =
      (if vpath v' = vpath v \<and> tidx 12 v' = tidx 12 v then Some e else walk (kmem s) root v')"
    if v': "tidx 39 v' \<noteq> 511" for v'
    using tab [OF user_path_vpath [OF v']] slot [OF user_path_vpath [OF v'] _ tidx_bound [of 12 v']] p1 e
    by (auto simp: walk_def s' split: option.splits)
  show "rd s' root 511 = rd s root 511"
    using slot [of "[]" root 511] by (auto simp: rd_def s' user_path_def vpath_def)
qed

lemma page_of_eq_iff: "page_of v = page_of v' \<longleftrightarrow> vpath v = vpath v' \<and> tidx 12 v = tidx 12 v'"
proof -
  have word_bits: "a = b \<longleftrightarrow> (\<forall>n. bit a n = bit b n)" for a b :: u64
    by (auto intro: bit_eqI)
  have m: "(0x1FF :: u64) = mask 9" "(0xFFFFFFFFF000 :: u64) = push_bit 12 (mask 36)"
    by (simp_all add: mask_eq_exp_minus_1)
  have t: "bit (tidx n w) k \<longleftrightarrow> k < 9 \<and> bit w (n + k)" for n w k
    unfolding tidx_def m(1) by (auto simp only: bit_and_iff bit_mask_iff bit_drop_bit_eq o_apply) simp
  have p: "bit (page_of w) k \<longleftrightarrow> 12 \<le> k \<and> k < 48 \<and> bit w k" for w k
    unfolding page_of_def m(2) by (auto simp only: bit_and_iff bit_push_bit_iff bit_mask_iff) simp_all
  have tidx_eq: "tidx n v = tidx n v' \<longleftrightarrow> (\<forall>k. n \<le> k \<and> k < n + 9 \<longrightarrow> bit v k = bit v' k)" for n
  proof -
    have "tidx n v = tidx n v' \<longleftrightarrow> (\<forall>k<9. bit v (n + k) = bit v' (n + k))"
      by (auto simp: word_bits t)
    then show ?thesis by (metis add_less_cancel_left le_add1 le_iff_add)
  qed
  have "page_of v = page_of v' \<longleftrightarrow> (\<forall>k. 12 \<le> k \<and> k < 48 \<longrightarrow> bit v k = bit v' k)"
    by (auto simp: word_bits p)
  also have "\<dots> \<longleftrightarrow> tidx 39 v = tidx 39 v' \<and> tidx 30 v = tidx 30 v' \<and> tidx 21 v = tidx 21 v' \<and> tidx 12 v = tidx 12 v'"
    unfolding tidx_eq
  proof (rule iffI)
    assume eq: "(\<forall>k. 39 \<le> k \<and> k < 39 + 9 \<longrightarrow> bit v k = bit v' k) \<and>
      (\<forall>k. 30 \<le> k \<and> k < 30 + 9 \<longrightarrow> bit v k = bit v' k) \<and>
      (\<forall>k. 21 \<le> k \<and> k < 21 + 9 \<longrightarrow> bit v k = bit v' k) \<and>
      (\<forall>k. 12 \<le> k \<and> k < 12 + 9 \<longrightarrow> bit v k = bit v' k)"
    show "\<forall>k. 12 \<le> k \<and> k < 48 \<longrightarrow> bit v k = bit v' k"
    proof (intro allI impI)
      fix k :: nat
      assume k: "12 \<le> k \<and> k < 48"
      then consider "k < 21" | "21 \<le> k" "k < 30" | "30 \<le> k" "k < 39" | "39 \<le> k" by linarith
      then show "bit v k = bit v' k" using k eq by cases auto
    qed
  qed auto
  finally show ?thesis by (auto simp: vpath_def)
qed

lemma root_slot_511:
  assumes tree: "pt_tree root s" and s': "s' = wr root 511 e s"
  shows "pt_tree root s'" and "\<And>v. tidx 39 v \<noteq> 511 \<Longrightarrow> walk (kmem s') root v = walk (kmem s) root v"
proof -
  have root: "user_path []" "table_at (kmem s) root [] = Some root" by (simp_all add: user_path_def)
  have tab: "table_at (kmem s') root q = table_at (kmem s) root q" if "user_path q" for q
    using that by (intro table_at_other_path [OF tree root, of 511]) (auto simp: s' user_path_def)
  show "pt_tree root s'"
    using tree alloc_wr(2) [of root 511 e s] unfolding pt_tree_def s' [symmetric] by (auto simp: tab)
  fix v assume "tidx 39 v \<noteq> 511"
  note q = user_path_vpath [OF this]
  have "u + 8 * tidx 12 v \<noteq> root + 8 * 511" if u: "table_at (kmem s) root (vpath v) = Some u" for u
    using pt_tree_table [OF tree q u] pt_tree_table [OF tree root] pt_tree_unique [OF tree q root(1) u]
      slot_eq_iff [of u root "tidx 12 v" 511]
    by (auto simp: vpath_def)
  then show "walk (kmem s') root v = walk (kmem s) root v"
    using tab [OF q] by (auto simp: walk_def s' split: option.splits)
qed

section \<open>Properties of the user mapping\<close>

lemma user_page_mapped:
  assumes inv: "pa_inv s" and tree: "pt_tree pml4 s" and v: "tidx 39 v \<noteq> 511"
  shows "case init_pages_for_process v phy pml4 s of
      Inl e \<Rightarrow> e = OutOfMemory \<and> card (free_pages s) < 3
    | Inr s' \<Rightarrow>
        walk (kmem s') pml4 v = Some ((phy AND PTE_MASK) OR 7) \<and>
        (\<forall>v'. tidx 39 v' \<noteq> 511 \<and> page_of v' \<noteq> page_of v \<longrightarrow> walk (kmem s') pml4 v' = walk (kmem s) pml4 v') \<and>
        rd s' pml4 511 = (rd s (pml4e s) 511 AND PTE_MASK) OR 7 \<and>
        pa_inv s' \<and> pt_tree pml4 s' \<and> free_pages s' \<subseteq> free_pages s"
proof -
  define s0 where "s0 = wr pml4 511 ((rd s (pml4e s) 511 AND PTE_MASK) OR 7) s"
  note s0 = root_slot_511 [OF tree s0_def]
  have inv0: "pa_inv s0" "free_pages s0 = free_pages s" using inv by (simp_all add: s0_def alloc_wr)
  note three = three_tables [OF inv0(1) s0(1) v, of phy]
  show ?thesis
  proof (cases "init_pages_for_process v phy pml4 s")
    case (Inl e)
    with three show ?thesis by (simp add: init_pages_for_process_eq s0_def alloc_wr)
  next
    case (Inr s')
    with three obtain p1 s3 where s': "s' = wr p1 (tidx 12 v) ((phy AND PTE_MASK) OR 7) s3"
      and g: "grows pml4 s0 s3" and p1: "table_at (kmem s3) pml4 (vpath v) = Some p1"
      by (auto simp: init_pages_for_process_eq s0_def)
    note leaf = leaf_store [OF growsD [OF g, THEN conjunct2] v p1 entry_present s']
    have "rd s' pml4 511 = (rd s (pml4e s) 511 AND PTE_MASK) OR 7"
      using leaf(3) g by (simp add: grows_def s0_def rd_def)
    moreover have "walk (kmem s') pml4 v' = walk (kmem s) pml4 v'"
      if "tidx 39 v' \<noteq> 511" "page_of v' \<noteq> page_of v" for v'
      using that leaf(2) g s0(2) by (auto simp: grows_def page_of_eq_iff)
    moreover have "pa_inv s'" "free_pages s' \<subseteq> free_pages s"
      using g inv0 by (auto simp: s' alloc_wr grows_def)
    ultimately show ?thesis using Inr leaf(1,2) v by auto
  qed
qed

text \<open>
  C4. Mapping one page of a user address space either maps exactly that page or runs out of
  page frames with fewer than three left. On success the page's entry is the frame with the
  flags present, writable, user; every other user page translates as before; slot 511 of the
  root is the kernel's entry; allocator and table tree stay well-formed.
\<close>

theorem init_pages_for_process_maps:
  assumes inv: "pa_inv s" and tree: "pt_tree pml4 s" and v: "tidx 39 v \<noteq> 511"
  shows "case init_pages_for_process v phy pml4 s of
      Inl e \<Rightarrow> e = OutOfMemory \<and> card (free_pages s) < 3
    | Inr s' \<Rightarrow>
        walk (kmem s') pml4 v = Some ((phy AND PTE_MASK) OR 7) \<and>
        (\<forall>v'. tidx 39 v' \<noteq> 511 \<and> page_of v' \<noteq> page_of v \<longrightarrow> walk (kmem s') pml4 v' = walk (kmem s) pml4 v') \<and>
        rd s' pml4 511 = (rd s (pml4e s) 511 AND PTE_MASK) OR 7 \<and>
        pa_inv s' \<and> pt_tree pml4 s' \<and> free_pages s' \<subseteq> free_pages s"
  by (rule user_page_mapped [OF assms])

text \<open>Three free frames, an empty address space at frame 7, the kernel's table at frame 8.\<close>

definition example_vmem :: vmem where
  "example_vmem =
     \<lparr>pagelist = pagelist example_palloc, head = head example_palloc, pg_count = 0,
      kmem = (\<lambda>_. 0), pml4e = KERNBASE + page_addr 8, viraddr = 0, k_cr3 = page_addr 8, cr3 = page_addr 8\<rparr>"

lemma example_vmem_inv: "pa_inv example_vmem" "free_pages example_vmem = {page_addr 3, page_addr 5, page_addr 9}"
  using pa_inv_cong [of example_vmem example_palloc] example_palloc_inv example_free_pages
  by (simp_all add: example_vmem_def)

lemma table_at_zero: "table_at (\<lambda>_. 0) root q = (if q = [] then Some root else None)"
  by (cases q) simp_all

lemma example_vmem_tree: "pt_tree (KERNBASE + page_addr 7) example_vmem"
proof -
  have "kmem example_vmem = (\<lambda>_. 0)" by (simp add: example_vmem_def)
  then show ?thesis
    by (auto simp: pt_tree_def table_at_zero example_vmem_inv page_addr_inj split: if_splits
        intro: page_aligned_KERNBASE page_addr_aligned)
qed

theorem init_pages_for_process_maps_witness:
  "\<exists>s'. init_pages_for_process 0x400000 0x20000 (KERNBASE + page_addr 7) example_vmem = Inr s' \<and>
     walk (kmem s') (KERNBASE + page_addr 7) 0x400000 = Some (0x20000 AND PTE_MASK OR 7)"
proof -
  have "card (free_pages example_vmem) = 3" by (simp add: example_vmem_inv page_addr_def)
  moreover have "tidx 39 0x400000 \<noteq> 511" by (simp add: tidx_def)
  ultimately show ?thesis
    using init_pages_for_process_maps [OF example_vmem_inv(1) example_vmem_tree, of "0x400000" "0x20000"]
    by (auto split: sum.splits)
qed


text \<open>
  When the hardware finds a last-level table for an address, \<open>getPTE\<close> returns exactly
  that table, so its slot for the address holds the entry the hardware uses.
\<close>

theorem getPTE_is_walk:
  assumes "walk (kmem s) (r_pml4e + KERNBASE) v = Some e"
  shows "rd s (getPTE r_pml4e v s) (tidx 12 v) = e \<and> e AND 1 \<noteq> 0"
  using assms by (auto simp: walk_def vpath_def getPTE_def rd_def Let_def add.commute split: option.splits if_splits)

theorem getPTE_is_walk_witness:
  "let s = example_vmem\<lparr>kmem := \<lambda>_. 0x20007\<rparr> in
     rd s (getPTE 0x7000 0x400000 s) (tidx 12 0x400000) = 0x20007 \<and> (0x20007 :: u64) AND 1 \<noteq> 0"
  unfolding Let_def by (rule getPTE_is_walk) (simp add: walk_def vpath_def)

end
