(* ===== verification/Addr_Space.thy ===== *)
theory Addr_Space
  imports Page_Table
begin

unbundle bit_operations_syntax

text \<open>
  Whole address spaces: \<^verbatim>\<open>copytables\<close> (the copy-on-write half of \<^verbatim>\<open>fork\<close>)
  and \<^verbatim>\<open>dealloc_pml4\<close> of \<^verbatim>\<open>sys/paging.c\<close>, one definition per nested loop.
\<close>

section \<open>Copying and dropping address spaces\<close>

text \<open>The indices \<open>0\<close> to \<open>n - 1\<close> of a table, as machine words.\<close>

abbreviation table_idx :: "nat \<Rightarrow> u64 list" where
  "table_idx n \<equiv> map of_nat [0..<n]"

text \<open>\<^verbatim>\<open>copytables\<close>: one definition per loop, innermost first. \<open>c\<close> is the copy's table, \<open>p\<close> the parent's.\<close>

definition copy_p1 :: "u64 \<Rightarrow> u64 \<Rightarrow> 'a vmem_scheme \<Rightarrow> 'a vmem_scheme res" where
  "copy_p1 p1 c1 = rfold (\<lambda>l s.
     if rd s p1 l AND 1 \<noteq> 0 then
       rbind (increfcount (rd s p1 l AND PTE_MASK) s) (\<lambda>s.
       let s = wr p1 l ((rd s p1 l AND 0xFFFFFFFFFFFFFFFD) OR 0x200) s in
       Inr (wr c1 l (rd s p1 l) s))
     else Inr s) (table_idx 512)"

definition copy_p2 :: "u64 \<Rightarrow> u64 \<Rightarrow> 'a vmem_scheme \<Rightarrow> 'a vmem_scheme res" where
  "copy_p2 p2 c2 = rfold (\<lambda>k s.
     if rd s p2 k AND 1 \<noteq> 0 then
       rbind (allocate_page_for_process s) (\<lambda>(c1, s).
       let s = memset_page c1 s;
           s = wr c2 k (((c1 - KERNBASE) AND PTE_MASK) OR 7) s
       in copy_p1 (KERNBASE + (rd s p2 k AND PTE_MASK)) c1 s)
     else Inr s) (table_idx 512)"

definition copy_p3 :: "u64 \<Rightarrow> u64 \<Rightarrow> 'a vmem_scheme \<Rightarrow> 'a vmem_scheme res" where
  "copy_p3 p3 c3 = rfold (\<lambda>j s.
     if rd s p3 j AND 1 \<noteq> 0 then
       rbind (allocate_page_for_process s) (\<lambda>(c2, s).
       let s = memset_page c2 s;
           s = wr c3 j (((c2 - KERNBASE) AND PTE_MASK) OR 7) s
       in copy_p2 (KERNBASE + (rd s p3 j AND PTE_MASK)) c2 s)
     else Inr s) (table_idx 512)"

definition copytables :: "u64 \<Rightarrow> u64 \<Rightarrow> 'a vmem_scheme \<Rightarrow> 'a vmem_scheme res" where
  "copytables p_pml4e c_pml4e s =
     (let p4 = p_pml4e + KERNBASE; c4 = c_pml4e + KERNBASE in
      rfold (\<lambda>i s.
        if rd s p4 i AND 1 \<noteq> 0 then
          rbind (allocate_page_for_process s) (\<lambda>(c3, s).
          let s = memset_page c3 s;
              s = wr c4 i (((c3 - KERNBASE) AND PTE_MASK) OR 7) s
          in copy_p3 (KERNBASE + (rd s p4 i AND PTE_MASK)) c3 s)
        else Inr s) (table_idx 511) (wr c4 511 (rd s p4 511) s))"

text \<open>\<^verbatim>\<open>dealloc_pml4\<close>, in the same shape.\<close>

definition dealloc_p1 :: "u64 \<Rightarrow> 'a vmem_scheme \<Rightarrow> 'a vmem_scheme res" where
  "dealloc_p1 p1 = rfold (\<lambda>l s.
     rbind (if rd s p1 l AND 1 \<noteq> 0 then free (rd s p1 l AND PTE_MASK) s else Inr s)
       (\<lambda>s. Inr (wr p1 l 0 s))) (table_idx 512)"

definition dealloc_p2 :: "u64 \<Rightarrow> 'a vmem_scheme \<Rightarrow> 'a vmem_scheme res" where
  "dealloc_p2 p2 = rfold (\<lambda>k s.
     rbind (if rd s p2 k AND 1 \<noteq> 0
            then rbind (dealloc_p1 (KERNBASE + (rd s p2 k AND PTE_MASK)) s)
                   (\<lambda>s. free (rd s p2 k AND PTE_MASK) s)
            else Inr s)
       (\<lambda>s. Inr (wr p2 k 0 s))) (table_idx 512)"

definition dealloc_p3 :: "u64 \<Rightarrow> 'a vmem_scheme \<Rightarrow> 'a vmem_scheme res" where
  "dealloc_p3 p3 = rfold (\<lambda>j s.
     rbind (if rd s p3 j AND 1 \<noteq> 0
            then rbind (dealloc_p2 (KERNBASE + (rd s p3 j AND PTE_MASK)) s)
                   (\<lambda>s. free (rd s p3 j AND PTE_MASK) s)
            else Inr s)
       (\<lambda>s. Inr (wr p3 j 0 s))) (table_idx 512)"

definition dealloc_pml4 :: "u64 \<Rightarrow> 'a vmem_scheme \<Rightarrow> 'a vmem_scheme res" where
  "dealloc_pml4 pm4 =
     (let p4 = pm4 + KERNBASE in
      rfold (\<lambda>i s.
        rbind (if rd s p4 i AND 1 \<noteq> 0
               then rbind (dealloc_p3 (KERNBASE + (rd s p4 i AND PTE_MASK)) s)
                      (\<lambda>s. free (rd s p4 i AND PTE_MASK) s)
               else Inr s)
          (\<lambda>s. Inr (wr p4 i 0 s))) (table_idx 511))"

text \<open>Dropping an address space only ever stores zeros, and it touches no register.\<close>

definition zeroes :: "'a vmem_scheme \<Rightarrow> 'a vmem_scheme \<Rightarrow> bool" where
  "zeroes s s' \<longleftrightarrow> (\<forall>a. kmem s' a = kmem s a \<or> kmem s' a = 0) \<and>
     pml4e s' = pml4e s \<and> k_cr3 s' = k_cr3 s \<and> cr3 s' = cr3 s"

lemma zeroes_refl: "zeroes s s"
  by (simp add: zeroes_def)

lemma zeroes_trans: "zeroes s s' \<Longrightarrow> zeroes s' s'' \<Longrightarrow> zeroes s s''"
  by (auto simp: zeroes_def) metis

lemma zeroes_free: "free a s = Inr s' \<Longrightarrow> zeroes s s'"
  by (auto simp: free_def set_page_def zeroes_def Let_def split: if_splits)

lemma zeroes_wr: "zeroes s (wr p i 0 s)"
  by (simp add: zeroes_def)

lemma zeroes_rfold:
  assumes "rfold f is s = Inr s'" and "\<And>i s s'. f i s = Inr s' \<Longrightarrow> zeroes s s'"
  shows "zeroes s s'"
  by (rule rfold_invariant [OF assms(1), where P = "zeroes s"]) (auto intro: zeroes_refl zeroes_trans assms(2))

lemma zeroes_slot:
  assumes "\<And>s s'. sub s = Inr s' \<Longrightarrow> zeroes s s'"
  shows "rbind (if b then rbind (sub s) (\<lambda>s. free (g s) s) else Inr s) (\<lambda>s. Inr (wr p i 0 s)) = Inr s' \<Longrightarrow> zeroes s s'"
  by (auto simp: res_simps split: if_splits intro: zeroes_trans [OF _ zeroes_wr] zeroes_wr zeroes_trans [OF assms] zeroes_free)

lemma zeroes_dealloc:
  "dealloc_p1 p s = Inr s' \<Longrightarrow> zeroes s s'"
  "dealloc_p2 p s = Inr s' \<Longrightarrow> zeroes s s'"
  "dealloc_p3 p s = Inr s' \<Longrightarrow> zeroes s s'"
  "dealloc_pml4 p s = Inr s' \<Longrightarrow> zeroes s s'"
proof -
  show 1: "dealloc_p1 p s = Inr s' \<Longrightarrow> zeroes s s'" for p and s s' :: "'a vmem_scheme"
    unfolding dealloc_p1_def
    by (erule zeroes_rfold)
      (auto simp: res_simps split: if_splits intro: zeroes_wr zeroes_trans [OF zeroes_free zeroes_wr])
  show 2: "dealloc_p2 p s = Inr s' \<Longrightarrow> zeroes s s'" for p and s s' :: "'a vmem_scheme"
    unfolding dealloc_p2_def by (erule zeroes_rfold, erule zeroes_slot [rotated], rule 1)
  show 3: "dealloc_p3 p s = Inr s' \<Longrightarrow> zeroes s s'" for p and s s' :: "'a vmem_scheme"
    unfolding dealloc_p3_def by (erule zeroes_rfold, erule zeroes_slot [rotated], rule 2)
  show "dealloc_pml4 p s = Inr s' \<Longrightarrow> zeroes s s'"
    unfolding dealloc_pml4_def Let_def by (erule zeroes_rfold, erule zeroes_slot [rotated], rule 3)
qed

lemma table_idx_mem: "i < of_nat n \<Longrightarrow> n \<le> 512 \<Longrightarrow> i \<in> set (table_idx n)"
  by (auto simp: word_less_nat_alt unat_of_nat_lt intro!: image_eqI [of _ _ "unat i"])

text \<open>
  C27. After \<open>dealloc_pml4\<close> no user address of that address space translates any more,
  and the operation changes no control register.
\<close>

theorem dealloc_pml4_unmaps:
  assumes run: "dealloc_pml4 pm4 s = Inr s'"
  shows "(\<forall>v. tidx 39 v \<noteq> 511 \<longrightarrow> walk (kmem s') (pm4 + KERNBASE) v = None) \<and>
    cr3 s' = cr3 s \<and> k_cr3 s' = k_cr3 s"
proof -
  let ?p4 = "pm4 + KERNBASE"
  have slot: "rd s' ?p4 i = 0" if "i < 511" for i
  proof (rule rfold_establishes [OF run [unfolded dealloc_pml4_def Let_def], where Q = "\<lambda>s. rd s ?p4 i = 0"])
    show "i \<in> set (table_idx 511)" using that by (intro table_idx_mem) simp_all
  next
    fix t t' :: "'a vmem_scheme"
    assume "rbind (if rd t ?p4 i AND 1 \<noteq> 0
        then rbind (dealloc_p3 (KERNBASE + (rd t ?p4 i AND PTE_MASK)) t) (\<lambda>t. free (rd t ?p4 i AND PTE_MASK) t)
        else Inr t) (\<lambda>t. Inr (wr ?p4 i 0 t)) = Inr t'"
    then show "rd t' ?p4 i = 0" by (auto simp: res_simps rd_def)
  next
    fix j and t t' :: "'a vmem_scheme"
    assume "rd t ?p4 i = 0" and "rbind (if rd t ?p4 j AND 1 \<noteq> 0
        then rbind (dealloc_p3 (KERNBASE + (rd t ?p4 j AND PTE_MASK)) t) (\<lambda>t. free (rd t ?p4 j AND PTE_MASK) t)
        else Inr t) (\<lambda>t. Inr (wr ?p4 j 0 t)) = Inr t'"
    moreover from this(2) have "zeroes t t'" by (rule zeroes_slot [rotated]) (rule zeroes_dealloc(3))
    then have "rd t' ?p4 i = rd t ?p4 i \<or> rd t' ?p4 i = 0" by (simp add: zeroes_def rd_def)
    ultimately show "rd t' ?p4 i = 0" by argo
  qed
  have "walk (kmem s') ?p4 v = None" if "tidx 39 v \<noteq> 511" for v
  proof -
    have "tidx 39 v \<le> 511"
      using tidx_bound [of 39 v] by (simp add: word_less_nat_alt word_le_nat_alt)
    with that have "tidx 39 v < 511" by (simp add: order.not_eq_order_implies_strict)
    then show ?thesis using slot [of "tidx 39 v"] by (simp add: walk_def vpath_def rd_def)
  qed
  with zeroes_dealloc(4) [OF run] show ?thesis by (simp add: zeroes_def)
qed

text \<open>The address space at frame 8 has one third-level table, at frame 7, and nothing in it.\<close>

definition example_space :: vmem where
  "example_space = wr (page_addr 8 + KERNBASE) 0 ((page_addr 7 AND PTE_MASK) OR 7) example_vmem"

lemma wr_zero: "kmem s (p + 8 * i) = 0 \<Longrightarrow> wr p i 0 s = s"
  by (simp add: wr_def fun_upd_idem)

lemma dealloc_p3_empty:
  assumes "\<And>i. i < 512 \<Longrightarrow> rd s p3 i = 0"
  shows "dealloc_p3 p3 s = Inr s"
  unfolding dealloc_p3_def
proof (rule rfold_noop)
  fix i assume "i \<in> set (table_idx 512)"
  then have "i < 512" by (auto simp: word_less_nat_alt unat_of_nat_lt)
  then show "rbind (if rd s p3 i AND 1 \<noteq> 0
      then rbind (dealloc_p2 (KERNBASE + (rd s p3 i AND PTE_MASK)) s) (\<lambda>s. free (rd s p3 i AND PTE_MASK) s)
      else Inr s) (\<lambda>s. Inr (wr p3 i 0 s)) = Inr s"
    using assms [of i] by (simp add: wr_zero rd_def)
qed

lemma example_space_dealloc: "\<exists>s'. dealloc_pml4 (page_addr 8) example_space = Inr s'"
proof -
  let ?p4 = "page_addr 8 + KERNBASE"
  let ?f = "\<lambda>i s. rbind (if rd s ?p4 i AND 1 \<noteq> 0
      then rbind (dealloc_p3 (KERNBASE + (rd s ?p4 i AND PTE_MASK)) s) (\<lambda>s. free (rd s ?p4 i AND PTE_MASK) s)
      else Inr s) (\<lambda>s. Inr (wr ?p4 i 0 s))"
  have idx: "table_idx 511 = 0 # map of_nat [1..<511]" by (subst upt_conv_Cons) (simp_all only: list.map of_nat_0, simp_all)
  have z: "(0 :: u64) < 512" by simp
  have slot: "rd example_space ?p4 0 = (page_addr 7 AND PTE_MASK) OR 7" by (simp add: rd_def example_space_def)
  have p3: "rd example_space (KERNBASE + page_addr 7) i = 0" if "i < 512" for i
    using slot_eq_iff [OF page_aligned_KERNBASE [OF page_addr_aligned [of 7]]
        page_aligned_KERNBASE [OF page_addr_aligned [of 8]] that z]
    by (simp add: rd_def example_space_def example_vmem_def page_addr_inj add.commute)
  have "fl_address (pagelist example_space 7) = page_addr 7 \<and> fl_ref_count (pagelist example_space 7) = 1"
    by (simp add: example_space_def example_vmem_def example_palloc_def)
  then obtain s1 where s1: "free (page_addr 7) example_space = Inr s1" "kmem s1 = kmem example_space"
    by (simp add: free_def page_int_addr Let_def set_page_def)
  have "?f 0 example_space = Inr (wr ?p4 0 0 s1)"
    by (simp add: slot entry_present entry_table page_addr_aligned dealloc_p3_empty p3 s1)
  moreover have "kmem (wr ?p4 0 0 s1) = (\<lambda>_. 0)" by (auto simp: s1 example_space_def example_vmem_def)
  then have "rfold ?f (map of_nat [1..<511]) (wr ?p4 0 0 s1) = Inr (wr ?p4 0 0 s1)"
    by (intro rfold_noop) (simp add: rd_def wr_zero)
  ultimately show ?thesis by (simp add: dealloc_pml4_def Let_def idx)
qed

theorem dealloc_pml4_unmaps_witness:
  "\<exists>s'. dealloc_pml4 (page_addr 8) example_space = Inr s' \<and>
     (\<forall>v. tidx 39 v \<noteq> 511 \<longrightarrow> walk (kmem s') (page_addr 8 + KERNBASE) v = None) \<and>
     cr3 s' = cr3 example_space \<and> k_cr3 s' = k_cr3 example_space"
  using example_space_dealloc dealloc_pml4_unmaps by blast

section \<open>What paging leaves alone\<close>

text \<open>
  No paging operation touches the state around it: a client's part of the record (\<open>vmem.more\<close>)
  is the same before and after.
\<close>

lemma more_wr [simp]: "vmem.more (wr p i v s) = vmem.more s"
  by (simp add: wr_def)

lemma more_memset_page [simp]: "vmem.more (memset_page p s) = vmem.more s"
proof -
  have "vmem.more (fold (\<lambda>i. wr p (of_nat i) 0) is s) = vmem.more s" for "is" :: "nat list"
    by (induction "is" arbitrary: s) simp_all
  then show ?thesis by (simp add: memset_page_def)
qed

lemma more_allocate_page: "allocate_page s = Inr (p, s') \<Longrightarrow> vmem.more s' = vmem.more s"
  by (auto simp: allocate_page_def set_page_def Let_def split: option.splits)

lemma more_free: "free a s = Inr s' \<Longrightarrow> vmem.more s' = vmem.more s"
  by (auto simp: free_def set_page_def Let_def split: if_splits)

lemma more_increfcount: "increfcount a s = Inr s' \<Longrightarrow> vmem.more s' = vmem.more s"
  by (auto simp: increfcount_def set_page_def Let_def split: if_splits)

lemma more_map_kernel: "map_kernel v p s = Inr s' \<Longrightarrow> vmem.more s' = vmem.more s"
  by (auto simp: map_kernel_def Let_def res_simps split: if_splits dest!: more_allocate_page)

lemma more_init_pages_for_process:
  "init_pages_for_process v p t s = Inr s' \<Longrightarrow> vmem.more s' = vmem.more s"
  by (auto simp: init_pages_for_process_def Let_def res_simps split: if_splits dest!: more_allocate_page)

lemma more_allocate_page_for_process:
  "allocate_page_for_process s = Inr (p, s') \<Longrightarrow> vmem.more s' = vmem.more s"
  by (auto simp: allocate_page_for_process_def Let_def res_simps dest!: more_allocate_page more_map_kernel)

lemma more_kmalloc_rest: "kmalloc_rest n s = Inr s' \<Longrightarrow> vmem.more s' = vmem.more s"
  by (induction n arbitrary: s) (auto simp: res_simps dest!: more_allocate_page_for_process)

lemma more_kmalloc: "kmalloc n s = Inr (p, s') \<Longrightarrow> vmem.more s' = vmem.more s"
  by (auto simp: kmalloc_def Let_def res_simps dest!: more_allocate_page_for_process more_kmalloc_rest)

lemma more_rfold:
  assumes "rfold f is s = Inr s'" and "\<And>i s s'. f i s = Inr s' \<Longrightarrow> vmem.more s' = vmem.more s"
  shows "vmem.more s' = vmem.more s"
  by (rule rfold_invariant [OF assms(1), where P = "\<lambda>t. vmem.more t = vmem.more s"]) (auto dest: assms(2))

lemma more_dealloc:
  "dealloc_p1 p s = Inr s' \<Longrightarrow> vmem.more s' = vmem.more s"
  "dealloc_p2 p s = Inr s' \<Longrightarrow> vmem.more s' = vmem.more s"
  "dealloc_p3 p s = Inr s' \<Longrightarrow> vmem.more s' = vmem.more s"
  "dealloc_pml4 p s = Inr s' \<Longrightarrow> vmem.more s' = vmem.more s"
proof -
  show 1: "dealloc_p1 p s = Inr s' \<Longrightarrow> vmem.more s' = vmem.more s" for p and s s' :: "'a vmem_scheme"
    unfolding dealloc_p1_def by (erule more_rfold) (auto simp: res_simps split: if_splits dest!: more_free)
  show 2: "dealloc_p2 p s = Inr s' \<Longrightarrow> vmem.more s' = vmem.more s" for p and s s' :: "'a vmem_scheme"
    unfolding dealloc_p2_def by (erule more_rfold) (auto simp: res_simps split: if_splits dest!: more_free 1)
  show 3: "dealloc_p3 p s = Inr s' \<Longrightarrow> vmem.more s' = vmem.more s" for p and s s' :: "'a vmem_scheme"
    unfolding dealloc_p3_def by (erule more_rfold) (auto simp: res_simps split: if_splits dest!: more_free 2)
  show "dealloc_pml4 p s = Inr s' \<Longrightarrow> vmem.more s' = vmem.more s"
    unfolding dealloc_pml4_def Let_def
    by (erule more_rfold) (auto simp: res_simps split: if_splits dest!: more_free 3)
qed

lemma more_copy:
  "copy_p1 p c s = Inr s' \<Longrightarrow> vmem.more s' = vmem.more s"
  "copy_p2 p c s = Inr s' \<Longrightarrow> vmem.more s' = vmem.more s"
  "copy_p3 p c s = Inr s' \<Longrightarrow> vmem.more s' = vmem.more s"
  "copytables p c s = Inr s' \<Longrightarrow> vmem.more s' = vmem.more s"
proof -
  show 1: "copy_p1 p c s = Inr s' \<Longrightarrow> vmem.more s' = vmem.more s" for p c and s s' :: "'a vmem_scheme"
    unfolding copy_p1_def
    by (erule more_rfold) (auto simp: res_simps Let_def split: if_splits dest!: more_increfcount)
  show 2: "copy_p2 p c s = Inr s' \<Longrightarrow> vmem.more s' = vmem.more s" for p c and s s' :: "'a vmem_scheme"
    unfolding copy_p2_def
    by (erule more_rfold) (auto simp: res_simps Let_def split: if_splits dest!: more_allocate_page_for_process 1)
  show 3: "copy_p3 p c s = Inr s' \<Longrightarrow> vmem.more s' = vmem.more s" for p c and s s' :: "'a vmem_scheme"
    unfolding copy_p3_def
    by (erule more_rfold) (auto simp: res_simps Let_def split: if_splits dest!: more_allocate_page_for_process 2)
  show "copytables p c s = Inr s' \<Longrightarrow> vmem.more s' = vmem.more s"
    unfolding copytables_def Let_def
    by (drule more_rfold) (auto simp: res_simps Let_def split: if_splits dest!: more_allocate_page_for_process 3)
qed

end
