(* ===== verification/Sched.thy ===== *)
theory Sched
  imports Addr_Space
begin

text \<open>
  The task structures of \<^verbatim>\<open>include/sys/process.h\<close> and \<^verbatim>\<open>include/sys/file.h\<close>,
  the kernel state built on them, and the scheduler of \<^verbatim>\<open>sys/proc_man.c\<close>
  (\<^verbatim>\<open>init_proc\<close>, \<^verbatim>\<open>yield\<close>). A pointer into the process array \<^verbatim>\<open>q\<close> is its
  index, a pointer into a kernel stack is the task and the distance in bytes below
  \<^verbatim>\<open>&kstack[511]\<close>, a code address is a constructor of \<open>code_ptr\<close>. The locale
  \<open>round_robin\<close> states the scheduling discipline and its fairness; the scan of \<open>yield\<close>
  is an instance of it.
\<close>

section \<open>Tasks\<close>

abbreviation MAX_q :: nat where "MAX_q \<equiv> 1100"

datatype pstate = RUNNING | SLEEPING | ZOMBIE | IDLE | READY | WAIT | SUSPENDED

text \<open>Where a task goes on: an address, or one of the kernel's own labels.\<close>

datatype code_ptr = Addr u64 | In_loop | Idle_loop | Yield_resume | Fork_return

type_synonym kstack_ptr = "nat \<times> u64"

record vma =
  vm_node :: u64
  vm_start :: u64
  vm_end :: u64

record file_t =
  f_fd :: int
  f_name :: string
  f_aval :: int
  f_offset :: u64
  f_entry :: int
  f_flags :: u64
  f_inode_num :: u64
  f_size :: u64
  f_address :: u64

record task_struct =
  t_name :: string
  t_kstack :: "nat \<Rightarrow> u64"
  t_ustack :: u64
  t_time :: int
  t_state :: pstate
  t_pid :: nat
  t_ppid :: nat
  t_rsp :: u64
  t_pml4e :: u64
  t_child_count :: int
  t_vm :: "vma list"
  t_curr_dir :: string
  t_fd :: "nat \<Rightarrow> file_t"
  t_fd_c :: int
  reg_rsp :: kstack_ptr
  reg_rip :: code_ptr

record kernel = vmem +
  q :: "nat \<Rightarrow> task_struct"
  r :: nat
  tss_rsp0 :: nat
  cpu_rsp :: kstack_ptr
  cpu_rip :: code_ptr

definition set_task :: "nat \<Rightarrow> task_struct \<Rightarrow> 'a kernel_scheme \<Rightarrow> 'a kernel_scheme" where
  "set_task i t s = s\<lparr>q := (q s)(i := t)\<rparr>"

abbreviation cur :: "'a kernel_scheme \<Rightarrow> task_struct" where
  "cur s \<equiv> q s (r s)"

section \<open>The scheduler\<close>

definition init_proc :: "'a kernel_scheme \<Rightarrow> 'a kernel_scheme" where
  "init_proc s = fold (\<lambda>i s. set_task i ((q s i)\<lparr>t_state := READY, t_fd_c := 0, t_time := 0\<rparr>) s) [0..<MAX_q] s"

text \<open>The scan of \<open>yield\<close>; \<open>None\<close> is a scan that never comes back to \<open>last\<close>.\<close>

partial_function (option) next_running :: "(nat \<Rightarrow> task_struct) \<Rightarrow> nat \<Rightarrow> nat \<Rightarrow> nat option" where
  "next_running tasks lastpid i =
     (if i \<noteq> lastpid then
        (if t_state (tasks i) = RUNNING then Some i
         else next_running tasks lastpid ((i + 1) mod MAX_q))
      else Some i)"

definition yield :: "'a kernel_scheme \<Rightarrow> 'a kernel_scheme res" where
  "yield s =
     (let lst = r s; lastpid = t_pid (q s lst) in
      case next_running (q s) lastpid ((lastpid + 1) mod MAX_q) of
        None \<Rightarrow> Inl Hang
      | Some i \<Rightarrow>
          let s = s\<lparr>r := i, tss_rsp0 := i\<rparr>;
              s = set_task lst ((q s lst)\<lparr>reg_rsp := cpu_rsp s\<rparr>) s;
              s = s\<lparr>cpu_rsp := reg_rsp (q s i), cr3 := t_pml4e (q s i)\<rparr>;
              s = set_task lst ((q s lst)\<lparr>reg_rip := Yield_resume\<rparr>) s
          in Inr (s\<lparr>cpu_rip := reg_rip (q s i)\<rparr>))"

section \<open>The discipline\<close>

text \<open>How many steps \<open>j\<close> is ahead of \<open>i\<close> on a circle of \<open>n\<close> places.\<close>

definition ahead :: "nat \<Rightarrow> nat \<Rightarrow> nat \<Rightarrow> nat" where
  "ahead n i j = (if i \<le> j then j - i else j + n - i)"

text \<open>
  Round robin on \<open>n\<close> places: from place \<open>i\<close> the pick is a runnable place, and no runnable
  place lies strictly between \<open>i\<close> and the pick; without another runnable place it stays.
\<close>

locale round_robin =
  fixes n :: nat and pick :: "(nat \<Rightarrow> bool) \<Rightarrow> nat \<Rightarrow> nat"
  assumes pick_less: "i < n \<Longrightarrow> pick R i < n"
    and pick_run: "i < n \<Longrightarrow> pick R i \<noteq> i \<Longrightarrow> R (pick R i)"
    and pick_first: "i < n \<Longrightarrow> j < n \<Longrightarrow> R j \<Longrightarrow> j \<noteq> i \<Longrightarrow> pick R i \<noteq> i \<and> ahead n i (pick R i) \<le> ahead n i j"
begin

lemma ahead_less: "i < n \<Longrightarrow> j < n \<Longrightarrow> ahead n i j < n"
  by (auto simp: ahead_def)

lemma ahead_pick:
  assumes "i < n" "j < n" "R j" "j \<noteq> i"
  shows "ahead n (pick R i) j < ahead n i j"
  using pick_first [of i j R] pick_less [of i R] assms by (auto simp: ahead_def split: if_splits)

text \<open>
  Fairness: while the runnable set changes from pick to pick but always contains \<open>j\<close>,
  place \<open>j\<close> is reached within the distance it is ahead.
\<close>

lemma picked_within:
  assumes start: "p 0 < n" and j: "j < n"
    and run: "\<And>t. R t j" and step: "\<And>t. p (Suc t) = pick (R t) (p t)"
  shows "\<exists>t\<le>ahead n (p 0) j. p t = j"
  using start run step
proof (induction "ahead n (p 0) j" arbitrary: p R rule: less_induct)
  case less
  show ?case
  proof (cases "p 0 = j")
    case False
    have closer: "ahead n (p 1) j < ahead n (p 0) j"
      using ahead_pick [of "p 0" j "R 0"] less.prems False j by auto
    have "p 1 < n" using pick_less less.prems by simp
    then obtain t where "t \<le> ahead n (p 1) j" "p (Suc t) = j"
      using less.hyps [of "\<lambda>t. p (Suc t)" "\<lambda>t. R (Suc t)"] closer less.prems by auto
    then show ?thesis using closer by (intro exI [of _ "Suc t"]) auto
  qed auto
qed

end

text \<open>The first runnable place after \<open>i\<close> on a circle of \<open>n\<close>, \<open>i\<close> itself without one.\<close>

definition rr_next :: "nat \<Rightarrow> (nat \<Rightarrow> bool) \<Rightarrow> nat \<Rightarrow> nat" where
  "rr_next n R i =
     (case filter R (map (\<lambda>k. (i + k) mod n) [1..<n]) of [] \<Rightarrow> i | j # _ \<Rightarrow> j)"

lemma ahead_mod: "i < n \<Longrightarrow> k < n \<Longrightarrow> ahead n i ((i + k) mod n) = k"
  by (cases "i + k < n") (auto simp: ahead_def le_mod_geq)

lemma mod_ahead: "i < n \<Longrightarrow> j < n \<Longrightarrow> (i + ahead n i j) mod n = j"
  by (auto simp: ahead_def)

lemma filter_map_first:
  assumes "filter R (map f [a..<b]) = j # ys"
  obtains k where "a \<le> k" "k < b" "j = f k" "R j" "\<And>m. a \<le> m \<Longrightarrow> m < k \<Longrightarrow> \<not> R (f m)"
  using assms
proof (induction "b - a" arbitrary: a thesis)
  case (Suc d)
  then have upt: "[a..<b] = a # [Suc a..<b]" by (simp add: upt_conv_Cons)
  show ?case
  proof (cases "R (f a)")
    case True
    with Suc.prems(2) upt have "j = f a" by simp
    with True Suc.hyps(2) show ?thesis by (intro Suc.prems(1) [of a]) auto
  next
    case False
    have d: "d = b - Suc a" using Suc.hyps(2) by simp
    from False Suc.prems(2) upt have rest: "filter R (map f [Suc a..<b]) = j # ys" by simp
    obtain k where k: "Suc a \<le> k" "k < b" "j = f k" "R j" "\<And>m. Suc a \<le> m \<Longrightarrow> m < k \<Longrightarrow> \<not> R (f m)"
      using Suc.hyps(1) [OF d _ rest] by blast
    with False show ?thesis
      by (intro Suc.prems(1) [of k]) (auto, metis not_less_eq_eq le_antisym)
  qed
qed auto

lemma rr_next_cases:
  assumes "i < n"
  obtains "rr_next n R i = i" "\<forall>j<n. R j \<longrightarrow> j = i"
  | k where "1 \<le> k" "k < n" "rr_next n R i = (i + k) mod n" "R ((i + k) mod n)"
      "\<And>m. 1 \<le> m \<Longrightarrow> m < k \<Longrightarrow> \<not> R ((i + m) mod n)"
proof (cases "filter R (map (\<lambda>k. (i + k) mod n) [1..<n])")
  case Nil
  then have none: "\<not> R ((i + k) mod n)" if "1 \<le> k" "k < n" for k
    using that by (auto simp: filter_empty_conv)
  have "j = i" if j: "j < n" "R j" for j
  proof (rule ccontr)
    assume "j \<noteq> i"
    then have "1 \<le> ahead n i j" "ahead n i j < n" using j assms by (auto simp: ahead_def)
    then show False using none mod_ahead [of i n j] j assms by metis
  qed
  with Nil show ?thesis by (intro that(1)) (auto simp: rr_next_def)
next
  case (Cons j ys)
  with that(2) show ?thesis by (auto simp: rr_next_def elim!: filter_map_first)
qed

interpretation rr: round_robin n "rr_next n" for n
proof unfold_locales
  fix i R assume i: "i < n"
  show "rr_next n R i < n" using i by (cases rule: rr_next_cases [OF i, of R]) auto
  show "R (rr_next n R i)" if "rr_next n R i \<noteq> i"
    using that by (cases rule: rr_next_cases [OF i, of R]) auto
  fix j assume j: "j < n" "R j" "j \<noteq> i"
  show "rr_next n R i \<noteq> i \<and> ahead n i (rr_next n R i) \<le> ahead n i j"
  proof (cases rule: rr_next_cases [OF i, of R])
    case (2 k)
    have "1 \<le> ahead n i j" using j i by (auto simp: ahead_def)
    then have "k \<le> ahead n i j"
      using 2(5) [of "ahead n i j"] mod_ahead [of i n j] i j by (metis not_le)
    moreover have "(i + k) mod n \<noteq> i" using ahead_mod [of i n k] i 2 by (auto simp: ahead_def)
    ultimately show ?thesis using 2 i ahead_mod by simp
  qed (use j in auto)
qed

section \<open>The scan of yield is round robin\<close>

lemma next_running_from:
  assumes p: "p < MAX_q" and k: "1 \<le> k" "k \<le> MAX_q"
  shows "next_running tasks p ((p + k) mod MAX_q) =
    Some (case filter (\<lambda>j. t_state (tasks j) = RUNNING) (map (\<lambda>k. (p + k) mod MAX_q) [k..<MAX_q]) of
            [] \<Rightarrow> p | j # _ \<Rightarrow> j)"
  using k
proof (induction "MAX_q - k" arbitrary: k)
  case 0
  then have "(p + k) mod MAX_q = p" using p by simp
  with 0 show ?case by (subst next_running.simps) simp
next
  case (Suc d)
  then have lt: "k < MAX_q" by simp
  have ne: "(p + k) mod MAX_q \<noteq> p" using ahead_mod [of p MAX_q k] p lt Suc by (auto simp: ahead_def)
  have nx: "((p + k) mod MAX_q + 1) mod MAX_q = (p + Suc k) mod MAX_q" by (simp add: mod_simps)
  have IH: "next_running tasks p ((p + Suc k) mod MAX_q) =
    Some (case filter (\<lambda>j. t_state (tasks j) = RUNNING) (map (\<lambda>k. (p + k) mod MAX_q) [Suc k..<MAX_q]) of
            [] \<Rightarrow> p | j # _ \<Rightarrow> j)"
    using Suc.hyps(1) [of "Suc k"] Suc.hyps(2) lt by simp
  show ?case using ne lt
    by (subst next_running.simps) (simp only: nx IH upt_conv_Cons [OF lt] list.map filter.simps, simp)
qed

lemma next_running_eq:
  "p < MAX_q \<Longrightarrow> next_running tasks p ((p + 1) mod MAX_q) =
     Some (rr_next MAX_q (\<lambda>j. t_state (tasks j) = RUNNING) p)"
  using next_running_from [of p 1 tasks] by (simp add: rr_next_def)

definition runnable :: "'a kernel_scheme \<Rightarrow> nat \<Rightarrow> bool" where
  "runnable s j \<longleftrightarrow> j < MAX_q \<and> t_state (q s j) = RUNNING"

text \<open>The running task sits in the slot its pid names.\<close>

definition cur_ok :: "'a kernel_scheme \<Rightarrow> bool" where
  "cur_ok s \<longleftrightarrow> r s < MAX_q \<and> t_pid (cur s) = r s"

lemma rr_next_cong:
  assumes "\<And>j. j < n \<Longrightarrow> R j = R' j"
  shows "rr_next n R i = rr_next n R' i"
proof -
  have "filter R (map (\<lambda>k. (i + k) mod n) [1..<n]) = filter R' (map (\<lambda>k. (i + k) mod n) [1..<n])"
    by (rule filter_cong) (auto simp: assms)
  then show ?thesis by (simp add: rr_next_def)
qed

text \<open>The effect of \<open>yield\<close> in one equation.\<close>

lemma yield_eq:
  assumes "cur_ok s"
  defines "i \<equiv> rr_next MAX_q (runnable s) (r s)"
  shows "yield s = Inr (s\<lparr>q := (q s)(r s := (cur s)\<lparr>reg_rsp := cpu_rsp s, reg_rip := Yield_resume\<rparr>),
           r := i, tss_rsp0 := i, cr3 := t_pml4e (q s i),
           cpu_rsp := (if i = r s then cpu_rsp s else reg_rsp (q s i)),
           cpu_rip := (if i = r s then Yield_resume else reg_rip (q s i))\<rparr>)"
proof -
  have "rr_next MAX_q (\<lambda>j. t_state (q s j) = RUNNING) (r s) = i"
    unfolding i_def by (rule rr_next_cong) (simp add: runnable_def)
  then have "next_running (q s) (r s) ((r s + 1) mod MAX_q) = Some i"
    using assms(1) by (simp only: next_running_eq cur_ok_def)
  then show ?thesis using assms(1)
    by (simp add: yield_def cur_ok_def set_task_def Let_def)
qed

lemma yield_total: "cur_ok s \<Longrightarrow> \<exists>s'. yield s = Inr s'"
  by (simp add: yield_eq)

lemma yield_r: "cur_ok s \<Longrightarrow> yield s = Inr s' \<Longrightarrow> r s' = rr_next MAX_q (runnable s) (r s)"
  by (auto simp: yield_eq)

lemma yield_task_frame:
  assumes "cur_ok s" "yield s = Inr s'"
  shows "t_state (q s' i) = t_state (q s i)" "t_pid (q s' i) = t_pid (q s i)"
    "t_ppid (q s' i) = t_ppid (q s i)" "t_time (q s' i) = t_time (q s i)"
    "t_vm (q s' i) = t_vm (q s i)" "t_pml4e (q s' i) = t_pml4e (q s i)"
  using assms by (auto simp: yield_eq)

text \<open>
  C3. From a running task in its own slot, \<open>yield\<close> always returns and picks the next runnable
  task in circular order: the new task is runnable unless it is the old one, no runnable task
  lies strictly between the two, and with another task runnable the old one does not go on.
  The page tables and the kernel stack of the new task are installed with it.
\<close>

theorem yield_round_robin:
  assumes "cur_ok s"
  shows "\<exists>s'. yield s = Inr s' \<and> r s' < MAX_q \<and> (r s' \<noteq> r s \<longrightarrow> runnable s (r s')) \<and>
    (\<forall>j. runnable s j \<and> j \<noteq> r s \<longrightarrow> r s' \<noteq> r s \<and> ahead MAX_q (r s) (r s') \<le> ahead MAX_q (r s) j) \<and>
    cr3 s' = t_pml4e (q s (r s')) \<and> tss_rsp0 s' = r s'"
proof -
  obtain s' where s': "yield s = Inr s'" using yield_total assms by blast
  have rs: "r s' = rr_next MAX_q (runnable s) (r s)" using yield_r assms s' by blast
  have lt: "r s < MAX_q" using assms by (simp add: cur_ok_def)
  have "cr3 s' = t_pml4e (q s (r s'))" "tss_rsp0 s' = r s'"
    using s' assms by (auto simp: yield_eq)
  moreover have "r s' \<noteq> r s \<and> ahead MAX_q (r s) (r s') \<le> ahead MAX_q (r s) j"
    if "runnable s j" "j \<noteq> r s" for j
    using rr.pick_first [OF lt, of j "runnable s"] that rs by (simp add: runnable_def)
  ultimately show ?thesis
    using s' rr.pick_less [OF lt, of "runnable s"] rr.pick_run [OF lt, of "runnable s"] rs by metis
qed

text \<open>
  C28. Fairness of the scheduler: over any run in which the running task yields again and again
  (\<open>s t\<close> the state before the \<open>t\<close>-th yield), whatever the tasks do in between to each other's
  states, a task that stays runnable runs after at most \<open>MAX - 1\<close> yields.
\<close>

theorem yield_fair:
  fixes s :: "nat \<Rightarrow> 'a kernel_scheme"
  assumes ok: "\<And>t. cur_ok (s t)" and run: "\<And>t. runnable (s t) j"
    and switch: "\<And>t. \<exists>s'. yield (s t) = Inr s' \<and> r (s (Suc t)) = r s'"
  shows "\<exists>t<MAX_q. r (s t) = j"
proof -
  have j: "j < MAX_q" using run [of 0] by (simp add: runnable_def)
  have 0: "r (s 0) < MAX_q" using ok [of 0] by (simp add: cur_ok_def)
  have "r (s (Suc t)) = rr_next MAX_q (runnable (s t)) (r (s t))" for t
    using switch [of t] ok [of t] yield_r by metis
  then obtain t where "t \<le> ahead MAX_q (r (s 0)) j" "r (s t) = j"
    using rr.picked_within [of "\<lambda>t. r (s t)" MAX_q j "\<lambda>t. runnable (s t)"] 0 j run by blast
  then show ?thesis using rr.ahead_less [OF 0 j] by (intro exI [of _ t]) auto
qed

text \<open>
  Context switch round trip: a task that yields and is later picked again, its saved
  registers untouched in between, goes on at the resume point of its own \<open>yield\<close> with the
  kernel stack pointer and the page tables it had.
\<close>

theorem yield_resumes_context:
  assumes ok: "cur_ok s" "cur_ok s2"
    and out: "yield s = Inr s1" and ret: "yield s2 = Inr s3"
    and kept: "q s2 (r s) = q s1 (r s)" and again: "r s3 = r s" and other: "r s2 \<noteq> r s"
  shows "cpu_rsp s3 = cpu_rsp s \<and> cpu_rip s3 = Yield_resume \<and> cr3 s3 = t_pml4e (cur s)"
  using assms by (auto simp: yield_eq)

section \<open>An example: three tasks\<close>

definition blank_file :: file_t where
  "blank_file = \<lparr>f_fd = 0, f_name = '''', f_aval = 0, f_offset = 0, f_entry = 0, f_flags = 0,
     f_inode_num = 0, f_size = 0, f_address = 0\<rparr>"

definition blank_task :: task_struct where
  "blank_task = \<lparr>t_name = '''', t_kstack = (\<lambda>_. 0), t_ustack = 0, t_time = 0, t_state = READY,
     t_pid = 0, t_ppid = 0, t_rsp = 0, t_pml4e = 0, t_child_count = 0, t_vm = [], t_curr_dir = ''/'',
     t_fd = (\<lambda>_. blank_file), t_fd_c = 0, reg_rsp = (0, 0), reg_rip = Idle_loop\<rparr>"

text \<open>Task 0 runs, task 1 is ready to go on at \<open>0x400000\<close>, task 2 waits.\<close>

definition example_kernel :: kernel where
  "example_kernel = \<lparr>pagelist = pagelist example_vmem, head = head example_vmem, pg_count = 0,
     kmem = (\<lambda>_. 0), pml4e = 0, viraddr = 0, k_cr3 = 0, cr3 = 0x3000,
     q = (\<lambda>_. blank_task)(0 := blank_task\<lparr>t_state := RUNNING, t_pml4e := 0x3000\<rparr>,
           1 := blank_task\<lparr>t_state := RUNNING, t_pid := 1, t_pml4e := 0x5000, reg_rip := Addr 0x400000,
                  reg_rsp := (1, 0)\<rparr>,
           2 := blank_task\<lparr>t_state := WAIT, t_pid := 2\<rparr>),
     r = 0, tss_rsp0 = 0, cpu_rsp = (0, 64), cpu_rip = Addr 0x401000\<rparr>"

lemma example_cur_ok: "cur_ok example_kernel"
  by (simp add: cur_ok_def example_kernel_def blank_task_def)

lemma example_runnable: "runnable example_kernel j \<longleftrightarrow> j = 0 \<or> j = 1"
  by (auto simp: runnable_def example_kernel_def blank_task_def)

theorem yield_round_robin_witness:
  "\<exists>s'. yield example_kernel = Inr s' \<and> r s' < MAX_q \<and> r s' \<noteq> r example_kernel \<and>
    ahead MAX_q (r example_kernel) (r s') \<le> ahead MAX_q (r example_kernel) 1"
proof -
  have "runnable example_kernel 1 \<and> 1 \<noteq> r example_kernel"
    using example_runnable [of 1] by (simp add: example_kernel_def)
  then show ?thesis using yield_round_robin [OF example_cur_ok] by blast
qed

lemma rr_next_two:
  assumes "\<And>j. R j \<longleftrightarrow> j = 0 \<or> j = 1" and "i = 0 \<or> i = 1"
  shows "rr_next MAX_q R i = 1 - i"
proof -
  have i: "i < MAX_q" using assms(2) by auto
  have "R (1 - i)" using assms(2) by (auto simp only: assms(1) diff_zero)
  moreover have "1 - i \<noteq> i" "1 - i < MAX_q" using assms(2) by auto
  ultimately have ne: "rr_next MAX_q R i \<noteq> i" using rr.pick_first [OF i, of "1 - i" R] by simp
  then have "R (rr_next MAX_q R i)" by (rule rr.pick_run [OF i])
  then have "rr_next MAX_q R i = 0 \<or> rr_next MAX_q R i = 1" by (simp only: assms(1))
  with ne assms(2) show ?thesis by linarith
qed

definition example_turns :: "nat \<Rightarrow> kernel" where
  "example_turns t = example_kernel\<lparr>r := t mod 2\<rparr>"

lemma example_turns_ok: "cur_ok (example_turns t)" "runnable (example_turns t) j \<longleftrightarrow> j = 0 \<or> j = 1"
  by (cases "even t"; auto simp: cur_ok_def example_turns_def example_kernel_def blank_task_def
      runnable_def odd_iff_mod_2_eq_one)+

lemma example_turns_step: "\<exists>s'. yield (example_turns t) = Inr s' \<and> r (example_turns (Suc t)) = r s'"
proof -
  obtain s' where s': "yield (example_turns t) = Inr s'" using yield_total example_turns_ok by blast
  have "r s' = 1 - r (example_turns t)"
    using yield_r [OF example_turns_ok(1) s'] rr_next_two [OF example_turns_ok(2) [of t], of "r (example_turns t)"]
    by (simp add: example_turns_def) linarith
  with s' show ?thesis by (cases "even t") (auto simp: example_turns_def mod_Suc odd_iff_mod_2_eq_one)
qed

theorem yield_fair_witness:
  "\<exists>t<MAX_q. r (example_turns t) = 1"
  by (rule yield_fair) (use example_turns_ok example_turns_step in auto)

definition example_switched :: kernel where
  "example_switched = example_kernel\<lparr>
     q := (q example_kernel)(0 := (q example_kernel 0)\<lparr>reg_rsp := (0, 64), reg_rip := Yield_resume\<rparr>),
     r := 1, tss_rsp0 := 1, cr3 := 0x5000, cpu_rsp := (1, 0), cpu_rip := Addr 0x400000\<rparr>"

lemma example_switch: "yield example_kernel = Inr example_switched"
proof -
  have "rr_next MAX_q (runnable example_kernel) (r example_kernel) = 1"
    using rr_next_two [OF example_runnable, of "r example_kernel"] by (simp add: example_kernel_def)
  then show ?thesis unfolding yield_eq [OF example_cur_ok]
    by (simp add: example_switched_def example_kernel_def)
qed

lemma example_switched_ok: "cur_ok example_switched" "runnable example_switched j \<longleftrightarrow> j = 0 \<or> j = 1"
  by (auto simp: cur_ok_def runnable_def example_switched_def example_kernel_def blank_task_def)

theorem yield_resumes_context_witness:
  "\<exists>s3. yield example_switched = Inr s3 \<and>
     cpu_rsp s3 = cpu_rsp example_kernel \<and> cpu_rip s3 = Yield_resume \<and> cr3 s3 = t_pml4e (cur example_kernel)"
proof -
  obtain s3 where s3: "yield example_switched = Inr s3" using yield_total example_switched_ok by blast
  have "r s3 = r example_kernel"
    using yield_r [OF example_switched_ok(1) s3] rr_next_two [OF example_switched_ok(2), of 1]
    by (simp add: example_switched_def example_kernel_def)
  then have "cpu_rsp s3 = cpu_rsp example_kernel \<and> cpu_rip s3 = Yield_resume \<and> cr3 s3 = t_pml4e (cur example_kernel)"
    by (intro yield_resumes_context [OF example_cur_ok example_switched_ok(1) example_switch s3])
      (simp_all add: example_switched_def example_kernel_def)
  with s3 show ?thesis by blast
qed

end
