(* ===== verification/Process.thy ===== *)
theory Process
  imports Sched
begin

text \<open>
  The process operations of \<^verbatim>\<open>sys/process.c\<close>: slots and \<^verbatim>\<open>newPID\<close>, the first
  two tasks, \<^verbatim>\<open>fork\<close>, \<^verbatim>\<open>exit\<close>, \<^verbatim>\<open>wait\<close>, \<^verbatim>\<open>waitpid\<close>,
  \<^verbatim>\<open>kill\<close>, \<^verbatim>\<open>sleep\<close> and the heap. An operation that calls
  \<^verbatim>\<open>yield\<close> in the middle is two definitions, the code up to the call and the code a
  task goes on with when it is scheduled again. The list of memory areas is a list of nodes
  with their addresses, each node in a page of its own from \<^verbatim>\<open>kmalloc\<close>.
\<close>

section \<open>Operations\<close>

text \<open>\<open>None\<close> is the \<^verbatim>\<open>-1\<close> of a full table; its callers index \<^verbatim>\<open>q\<close> with it unchecked.\<close>

definition newPID :: "'a kernel_scheme \<Rightarrow> nat option" where
  "newPID s = find (\<lambda>i. t_state (q s i) = READY) [0..<MAX_q]"

definition with_slot :: "'a kernel_scheme \<Rightarrow> (nat \<Rightarrow> 'b res) \<Rightarrow> 'b res" where
  "with_slot s f = (case newPID s of None \<Rightarrow> Inl OutOfBounds | Some i \<Rightarrow> f i)"

text \<open>One of the two kernel tasks of \<^verbatim>\<open>init_p\<close>.\<close>

definition kernel_task :: "string \<Rightarrow> code_ptr \<Rightarrow> 'a kernel_scheme \<Rightarrow> 'a kernel_scheme res" where
  "kernel_task nm code s = with_slot s (\<lambda>pid.
     Inr (set_task pid ((q s pid)\<lparr>t_pid := pid, t_name := nm, t_state := RUNNING, reg_rip := code,
                          reg_rsp := (pid, 0), t_pml4e := cr3 s\<rparr>) s))"

definition init_p :: "'a kernel_scheme \<Rightarrow> 'a kernel_scheme res" where
  "init_p s = rbind (kernel_task ''init'' In_loop s) (kernel_task ''idle'' Idle_loop)"

abbreviation sizeof_vma :: int where "sizeof_vma \<equiv> 48"

fun copy_vmas :: "vma list \<Rightarrow> 'a vmem_scheme \<Rightarrow> (vma list \<times> 'a vmem_scheme) res" where
  "copy_vmas [] s = Inr ([], s)"
| "copy_vmas (a # as) s =
     rbind (kmalloc sizeof_vma s) (\<lambda>(new, s).
     rbind (copy_vmas as s) (\<lambda>(bs, s). Inr (a\<lparr>vm_node := new\<rparr> # bs, s)))"

definition copytask :: "nat \<Rightarrow> 'a kernel_scheme \<Rightarrow> 'a kernel_scheme res" where
  "copytask c s =
     (let s = set_task c ((q s c)\<lparr>t_ppid := t_pid (cur s)\<rparr>) s in
      rbind (allocate_page_for_process s) (\<lambda>(pml4, s).
      let s = set_task c ((q s c)\<lparr>t_pml4e := pml4 - KERNBASE\<rparr>) s;
          s = memset_page (t_pml4e (q s c) + KERNBASE) s;
          s = set_task c ((q s c)\<lparr>t_name := t_name (cur s)\<rparr>) s;
          s = set_task c ((q s c)\<lparr>t_curr_dir := t_curr_dir (cur s)\<rparr>) s in
      rbind (copytables (t_pml4e (cur s)) (t_pml4e (q s c)) s) (\<lambda>s.
      rbind (copy_vmas (t_vm (cur s)) s) (\<lambda>(vs, s).
      Inr (set_task c ((q s c)\<lparr>t_vm := vs\<rparr>) s)))))"

text \<open>
  \<^verbatim>\<open>fork\<close>: the child's saved stack pointer lies as far below its own
  \<^verbatim>\<open>kstack[511]\<close> as the running one lies below the parent's.
\<close>

definition fork :: "'a kernel_scheme \<Rightarrow> (nat \<times> 'a kernel_scheme) res" where
  "fork s = with_slot s (\<lambda>pid.
     let s = set_task pid ((q s pid)\<lparr>t_pid := pid\<rparr>) s in
     rbind (copytask pid s) (\<lambda>s.
     let s = set_task pid ((q s pid)\<lparr>t_ustack := 0x100FFFFF0000, t_rsp := 0x100FFFFF0000 + 511 * 8,
               t_state := RUNNING\<rparr>) s in
     if t_child_count (cur s) = 2147483647 then Inl SignedOverflow
     else
       let s = set_task (r s) ((cur s)\<lparr>t_child_count := t_child_count (cur s) + 1\<rparr>) s;
           s = set_task pid ((q s pid)\<lparr>t_kstack := (t_kstack (cur s))(14 := 9999),
                 reg_rip := Fork_return,
                 reg_rsp := (fst (cpu_rsp s) + pid - r s, snd (cpu_rsp s))\<rparr>) s
       in Inr (t_pid (q s pid), s)))"

text \<open>The loop of \<^verbatim>\<open>exit\<close> and \<^verbatim>\<open>kill\<close> over all slots: orphans go to task 0.\<close>

definition reparent :: "nat \<Rightarrow> 'a kernel_scheme \<Rightarrow> 'a kernel_scheme" where
  "reparent pid s =
     s\<lparr>q := (\<lambda>i. if i < MAX_q \<and> t_ppid (q s i) = pid then (q s i)\<lparr>t_ppid := 0\<rparr> else q s i)\<rparr>"

text \<open>A waiting parent is made runnable.\<close>

definition wake_parent :: "nat \<Rightarrow> 'a kernel_scheme \<Rightarrow> 'a kernel_scheme res" where
  "wake_parent i s =
     (let p = t_ppid (q s i) in
      if MAX_q \<le> p then Inl OutOfBounds
      else if t_state (q s p) = WAIT then Inr (set_task p ((q s p)\<lparr>t_state := RUNNING\<rparr>) s)
      else Inr s)"

definition exit_prepare :: "'a kernel_scheme \<Rightarrow> 'a kernel_scheme res" where
  "exit_prepare s =
     (let s = set_task (r s) ((cur s)\<lparr>t_state := ZOMBIE\<rparr>) s;
          s = reparent (t_pid (cur s)) s
      in wake_parent (r s) s)"

definition exit :: "'a kernel_scheme \<Rightarrow> 'a kernel_scheme res" where
  "exit s = rbind (exit_prepare s) yield"

definition removeProcess :: "nat \<Rightarrow> 'a kernel_scheme \<Rightarrow> 'a kernel_scheme res" where
  "removeProcess i s =
     rbind (rfold (\<lambda>vm. free (vm_node vm - KERNBASE)) (t_vm (q s i)) s) (\<lambda>s.
     rbind (dealloc_pml4 (t_pml4e (q s i)) s) (\<lambda>s.
     free (t_pml4e (q s i)) s))"

definition zombie_child :: "'a kernel_scheme \<Rightarrow> nat \<Rightarrow> bool" where
  "zombie_child s i \<longleftrightarrow> t_ppid (q s i) = t_pid (cur s) \<and> t_state (q s i) = ZOMBIE"

text \<open>What \<^verbatim>\<open>wait\<close> and \<^verbatim>\<open>waitpid\<close> do with a dead child: release it and free its slot.\<close>

definition reap :: "nat \<Rightarrow> 'a kernel_scheme \<Rightarrow> 'a kernel_scheme res" where
  "reap i s = rbind (removeProcess i s) (\<lambda>s. Inr (set_task i ((q s i)\<lparr>t_state := READY\<rparr>) s))"

definition wait_scan :: "'a kernel_scheme \<Rightarrow> nat option" where
  "wait_scan s = find (zombie_child s) [0..<MAX_q]"

text \<open>
  \<^verbatim>\<open>wait\<close>, from its start or from the top of its loop: with a dead child it returns the
  child's slot, without one it goes to sleep (\<open>None\<close>). After the \<^verbatim>\<open>yield\<close> the second
  scan decides, and without a dead child the loop starts again.
\<close>

definition wait_enter :: "'a kernel_scheme \<Rightarrow> (nat option \<times> 'a kernel_scheme) res" where
  "wait_enter s =
     (case wait_scan s of
        Some i \<Rightarrow> rbind (reap i s) (\<lambda>s. Inr (Some i, s))
      | None \<Rightarrow> rbind (yield (set_task (r s) ((cur s)\<lparr>t_state := WAIT\<rparr>) s)) (\<lambda>s. Inr (None, s)))"

definition wait_resume :: "'a kernel_scheme \<Rightarrow> (nat option \<times> 'a kernel_scheme) res" where
  "wait_resume s =
     (case wait_scan s of
        Some i \<Rightarrow> rbind (reap i s) (\<lambda>s. Inr (Some i, s))
      | None \<Rightarrow> wait_enter s)"

definition in_q :: "int \<Rightarrow> bool" where
  "in_q pid \<longleftrightarrow> 0 \<le> pid \<and> pid < int MAX_q"

definition kill :: "int \<Rightarrow> 'a kernel_scheme \<Rightarrow> 'a kernel_scheme res" where
  "kill pid s =
     (if \<not> in_q pid then Inl OutOfBounds
      else
        let i = nat pid;
            s = set_task i ((q s i)\<lparr>t_state := ZOMBIE\<rparr>) s;
            s = reparent i s
        in wake_parent i s)"

definition waitpid_resume :: "int \<Rightarrow> 'a kernel_scheme \<Rightarrow> (nat option \<times> 'a kernel_scheme) res" where
  "waitpid_resume pid s =
     (if \<not> in_q pid then Inl OutOfBounds
      else if zombie_child s (nat pid) then rbind (reap (nat pid) s) (\<lambda>s. Inr (Some (nat pid), s))
      else rbind (yield s) (\<lambda>s. Inr (None, s)))"

definition waitpid_enter :: "int \<Rightarrow> 'a kernel_scheme \<Rightarrow> (nat option \<times> 'a kernel_scheme) res" where
  "waitpid_enter pid s =
     (if \<not> in_q pid then Inl OutOfBounds
      else if zombie_child s (nat pid) then rbind (reap (nat pid) s) (\<lambda>s. Inr (Some (nat pid), s))
      else rbind (yield (set_task (r s) ((cur s)\<lparr>t_state := WAIT\<rparr>) s)) (\<lambda>s. Inr (None, s)))"

definition getpid :: "'a kernel_scheme \<Rightarrow> nat" where
  "getpid s = t_pid (cur s)"

definition getppid :: "'a kernel_scheme \<Rightarrow> nat" where
  "getppid s = t_ppid (cur s)"

text \<open>\<^verbatim>\<open>sleep\<close>: the seconds are stored in a signed \<^verbatim>\<open>int\<close>.\<close>

definition sleep :: "u32 \<Rightarrow> 'a kernel_scheme \<Rightarrow> 'a kernel_scheme res" where
  "sleep seconds s =
     (if seconds = 0 then Inr s
      else yield (set_task (r s) ((cur s)\<lparr>t_time := sint seconds, t_state := SUSPENDED\<rparr>) s))"

text \<open>The loop of \<^verbatim>\<open>malloc\<close>: one page at the end of the heap area, the second of the list.\<close>

fun malloc_pages :: "nat \<Rightarrow> 'a kernel_scheme \<Rightarrow> 'a kernel_scheme res" where
  "malloc_pages 0 s = Inr s"
| "malloc_pages (Suc n) s =
     (let vm = t_vm (cur s) ! 1 in
      rbind (allocate_page s) (\<lambda>(s_add, s).
      rbind (init_pages_for_process (vm_end vm) s_add (t_pml4e (cur s) + KERNBASE) s) (\<lambda>s.
      malloc_pages n (set_task (r s)
        ((cur s)\<lparr>t_vm := (t_vm (cur s))[1 := vm\<lparr>vm_end := vm_end vm + 4096\<rparr>]\<rparr>) s))))"

definition malloc :: "int \<Rightarrow> 'a kernel_scheme \<Rightarrow> (u64 \<times> 'a kernel_scheme) res" where
  "malloc no_of_bytes s =
     (if length (t_vm (cur s)) < 2 then Inl NullDeref
      else
        let ret = vm_end (t_vm (cur s) ! 1) in
        rbind (malloc_pages (nat (cdiv no_of_bytes 4096 + 1)) s) (\<lambda>s. Inr (ret, s)))"

section \<open>What the operations leave alone\<close>

lemma more_kernel:
  fixes s s' :: "'a kernel_scheme"
  assumes "vmem.more s' = vmem.more s"
  shows "q s' = q s \<and> r s' = r s \<and> tss_rsp0 s' = tss_rsp0 s \<and> cpu_rsp s' = cpu_rsp s \<and>
    cpu_rip s' = cpu_rip s \<and> kernel.more s' = kernel.more s"
  using assms by (cases s; cases s'; simp)

lemma kernel_memset_page [simp]:
  "q (memset_page p s) = q s" "r (memset_page p s) = r s" "cpu_rsp (memset_page p s) = cpu_rsp s"
  "kernel.more (memset_page p s) = kernel.more s"
  using more_kernel [OF more_memset_page [of p s]] by simp_all

lemma kernel_wr [simp]:
  "q (wr p i v s) = q s" "r (wr p i v s) = r s" "cpu_rsp (wr p i v s) = cpu_rsp s"
  "kernel.more (wr p i v s) = kernel.more s"
  by (simp_all add: wr_def)

lemma set_task_sel [simp]:
  "q (set_task i t s) = (q s)(i := t)" "r (set_task i t s) = r s" "cpu_rsp (set_task i t s) = cpu_rsp s"
  "cr3 (set_task i t s) = cr3 s" "kmem (set_task i t s) = kmem s" "pml4e (set_task i t s) = pml4e s"
  "kernel.more (set_task i t s) = kernel.more s"
  by (simp_all add: set_task_def)

lemma kmem_memset_set_task [simp]: "kmem (memset_page p (set_task i t s)) = kmem (memset_page p s)"
  by (rule ext) (auto simp: kmem_memset_page)

lemma reparent_sel [simp]:
  "q (reparent p s) i = (if i < MAX_q \<and> t_ppid (q s i) = p then (q s i)\<lparr>t_ppid := 0\<rparr> else q s i)"
  "r (reparent p s) = r s"
  by (simp_all add: reparent_def)

lemma more_copy_vmas: "copy_vmas as s = Inr (bs, s') \<Longrightarrow> vmem.more s' = vmem.more s"
  by (induction as arbitrary: s bs) (auto simp: res_simps dest!: more_kmalloc)

lemma copy_vmas_result:
  "copy_vmas as s = Inr (bs, s') \<Longrightarrow>
     map vm_start bs = map vm_start as \<and> map vm_end bs = map vm_end as"
  by (induction as arbitrary: s bs) (auto simp: res_simps)

lemma more_removeProcess: "removeProcess i s = Inr s' \<Longrightarrow> vmem.more s' = vmem.more s"
  unfolding removeProcess_def res_simps
  by (elim exE conjE) (drule more_rfold, erule more_free, drule more_dealloc(4), drule more_free, simp)

lemma newPID_Some: "newPID s = Some i \<Longrightarrow> i < MAX_q \<and> t_state (q s i) = READY"
  by (auto simp: newPID_def find_Some_iff)

lemma newPID_None: "newPID s = None \<longleftrightarrow> (\<forall>i<MAX_q. t_state (q s i) \<noteq> READY)"
  by (auto simp: newPID_def find_None_iff)

lemma wait_scan_Some: "wait_scan s = Some i \<Longrightarrow> i < MAX_q \<and> zombie_child s i"
  by (auto simp: wait_scan_def find_Some_iff)

lemma wait_scan_None: "wait_scan s = None \<longleftrightarrow> (\<forall>i<MAX_q. \<not> zombie_child s i)"
  by (auto simp: wait_scan_def find_None_iff)

lemma reap_tasks:
  "reap i s = Inr s' \<Longrightarrow> q s' = (q s)(i := (q s i)\<lparr>t_state := READY\<rparr>) \<and> r s' = r s"
  by (auto simp: reap_def res_simps dest!: more_removeProcess more_kernel)

lemma copytask_tasks:
  assumes "copytask c s = Inr s'" and "c \<noteq> r s"
  shows "r s' = r s \<and> cpu_rsp s' = cpu_rsp s \<and> (\<forall>i. i \<noteq> c \<longrightarrow> q s' i = q s i) \<and>
    (\<exists>pml4 vs. map vm_start vs = map vm_start (t_vm (cur s)) \<and> map vm_end vs = map vm_end (t_vm (cur s)) \<and>
      q s' c = (q s c)\<lparr>t_ppid := t_pid (cur s), t_pml4e := pml4, t_name := t_name (cur s),
                 t_curr_dir := t_curr_dir (cur s), t_vm := vs\<rparr>)"
  using assms
  apply (clarsimp simp: copytask_def Let_def res_simps)
  apply (frule copy_vmas_result)
  apply (drule more_copy_vmas, drule more_copy, drule more_allocate_page_for_process)
  apply (drule more_kernel)+
  apply (simp, blast)
  done

lemma fork_tasks:
  assumes "fork s = Inr (pid, s')" and "t_state (cur s) \<noteq> READY"
  shows "newPID s = Some pid \<and> pid \<noteq> r s \<and> r s' = r s \<and> cpu_rsp s' = cpu_rsp s \<and>
    (\<forall>i. i \<noteq> pid \<and> i \<noteq> r s \<longrightarrow> q s' i = q s i) \<and>
    cur s' = (cur s)\<lparr>t_child_count := t_child_count (cur s) + 1\<rparr> \<and>
    (\<exists>pml4 vs. map vm_start vs = map vm_start (t_vm (cur s)) \<and> map vm_end vs = map vm_end (t_vm (cur s)) \<and>
      q s' pid = (q s pid)\<lparr>t_pid := pid, t_ppid := t_pid (cur s), t_pml4e := pml4, t_name := t_name (cur s),
        t_curr_dir := t_curr_dir (cur s), t_vm := vs, t_ustack := 0x100FFFFF0000,
        t_rsp := 0x100FFFFF0000 + 511 * 8, t_state := RUNNING,
        t_kstack := (t_kstack (cur s))(14 := 9999), reg_rip := Fork_return,
        reg_rsp := (fst (cpu_rsp s) + pid - r s, snd (cpu_rsp s))\<rparr>)"
proof -
  from assms(1) obtain i s1 where new: "newPID s = Some i"
    and s1: "copytask i (set_task i ((q s i)\<lparr>t_pid := i\<rparr>) s) = Inr s1"
    by (auto simp: fork_def with_slot_def Let_def res_simps split: option.splits)
  have ne: "i \<noteq> r s" using newPID_Some [OF new] assms(2) by auto
  note ct = copytask_tasks [OF s1, simplified, OF ne]
  then obtain pml4 vs where vs: "map vm_start vs = map vm_start (t_vm (cur s))"
      "map vm_end vs = map vm_end (t_vm (cur s))"
    and child: "q s1 i = (q s i)\<lparr>t_pid := i, t_ppid := t_pid (cur s), t_pml4e := pml4,
        t_name := t_name (cur s), t_curr_dir := t_curr_dir (cur s), t_vm := vs\<rparr>"
    using ne by auto
  have "pid = i"
    using assms(1) ne ct child by (simp add: fork_def with_slot_def Let_def new s1 split: if_splits)
  have fr: "r s1 = r s" "cpu_rsp s1 = cpu_rsp s" "\<And>j. j \<noteq> i \<Longrightarrow> q s1 j = q s j"
    using ct by auto
  show ?thesis
    unfolding \<open>pid = i\<close> using assms(1) ne vs fr
    by (clarsimp simp: fork_def with_slot_def Let_def new s1 child split: if_splits)
      (rule exI [of _ pml4], rule exI [of _ vs], simp)
qed

section \<open>The invariant of the process table\<close>

text \<open>A task that is neither free nor dead sits in the slot of its pid; every parent is a slot.\<close>

definition live :: "task_struct \<Rightarrow> bool" where
  "live t \<longleftrightarrow> t_state t \<noteq> READY \<and> t_state t \<noteq> ZOMBIE"

definition proc_inv :: "'a kernel_scheme \<Rightarrow> bool" where
  "proc_inv s \<longleftrightarrow> cur_ok s \<and> (\<forall>i<MAX_q. live (q s i) \<longrightarrow> t_pid (q s i) = i) \<and> (\<forall>i<MAX_q. t_ppid (q s i) < MAX_q)"

lemma proc_inv_cur: "proc_inv s \<Longrightarrow> r s < MAX_q \<and> t_pid (cur s) = r s \<and> cur_ok s \<and> t_ppid (cur s) < MAX_q"
  by (simp add: proc_inv_def cur_ok_def)

text \<open>An operation that keeps the running task and the pid and parent of every task keeps the invariant.\<close>

lemma proc_inv_tasks:
  assumes "proc_inv s" and "r s' = r s" and "t_pid (cur s') = t_pid (cur s)"
    and "\<And>i. i < MAX_q \<Longrightarrow> live (q s' i) \<Longrightarrow> t_pid (q s' i) = i"
    and "\<And>i. i < MAX_q \<Longrightarrow> t_ppid (q s' i) < MAX_q"
  shows "proc_inv s'"
  using assms by (auto simp: proc_inv_def cur_ok_def)

lemma proc_inv_more: "proc_inv s \<Longrightarrow> vmem.more s' = vmem.more s \<Longrightarrow> proc_inv s'"
  by (drule more_kernel) (auto simp: proc_inv_def cur_ok_def)

lemma proc_inv_yield:
  assumes inv: "proc_inv s" and y: "yield s = Inr s'"
  shows "proc_inv s'"
proof -
  have ok: "cur_ok s" and lt: "r s < MAX_q" using proc_inv_cur inv by auto
  note fr = yield_task_frame [OF ok y]
  have "r s' < MAX_q \<and> t_pid (q s (r s')) = r s'"
  proof (cases "r s' = r s")
    case False
    then have "runnable s (r s')" using rr.pick_run [OF lt] yield_r [OF ok y] by metis
    then show ?thesis using inv by (auto simp: proc_inv_def runnable_def live_def)
  qed (use proc_inv_cur [OF inv] in auto)
  with inv show ?thesis by (auto simp: proc_inv_def cur_ok_def fr live_def)
qed

lemma yield_leaves:
  assumes ok: "cur_ok s" and y: "yield s = Inr s'" and j: "runnable s j" and not: "\<not> runnable s (r s)"
  shows "runnable s (r s')"
proof -
  have "j \<noteq> r s" using j not by auto
  then show ?thesis
    using rr.pick_first [of "r s" MAX_q j "runnable s"] rr.pick_run [of "r s" MAX_q "runnable s"] ok j yield_r [OF ok y]
    by (auto simp: cur_ok_def runnable_def)
qed

text \<open>Marking the running task and giving up the processor.\<close>

lemma mark_yield:
  assumes inv: "proc_inv s" and t: "t_pid t = r s" "t_ppid t < MAX_q"
  shows "\<exists>s'. yield (set_task (r s) t s) = Inr s' \<and> proc_inv s'"
proof -
  have "proc_inv (set_task (r s) t s)"
    using inv t by (intro proc_inv_tasks [OF inv]) (auto simp: proc_inv_def cur_ok_def)
  then show ?thesis using yield_total proc_inv_yield proc_inv_cur by blast
qed

lemma proc_inv_reap: "proc_inv s \<Longrightarrow> reap i s = Inr s' \<Longrightarrow> proc_inv s'"
  by (drule reap_tasks) (auto simp: proc_inv_def cur_ok_def live_def)

lemma proc_inv_wait_enter: "proc_inv s \<Longrightarrow> wait_enter s = Inr (w, s') \<Longrightarrow> proc_inv s'"
  using mark_yield [of s "(cur s)\<lparr>t_state := WAIT\<rparr>"] proc_inv_cur [of s]
  by (auto simp: wait_enter_def res_simps split: option.splits intro: proc_inv_reap)

lemma proc_inv_fork:
  assumes inv: "proc_inv s" and f: "fork s = Inr (pid, s')" and st: "t_state (cur s) \<noteq> READY"
  shows "proc_inv s'"
proof -
  note ft = fork_tasks [OF f st]
  have "pid < MAX_q" using newPID_Some ft by blast
  have r: "r s < MAX_q" "t_pid (cur s) = r s" using proc_inv_cur [OF inv] by auto
  show ?thesis
  proof (rule proc_inv_tasks [OF inv])
    fix i assume "i < MAX_q"
    then show "t_ppid (q s' i) < MAX_q"
      using inv r ft by (cases "i = pid"; cases "i = r s") (auto simp: proc_inv_def)
    show "t_pid (q s' i) = i" if "live (q s' i)"
      using that \<open>i < MAX_q\<close> inv r ft by (cases "i = pid"; cases "i = r s") (auto simp: proc_inv_def)
  qed (use ft in auto)
qed

lemma proc_inv_wait_resume: "proc_inv s \<Longrightarrow> wait_resume s = Inr (w, s') \<Longrightarrow> proc_inv s'"
  by (auto simp: wait_resume_def res_simps split: option.splits intro: proc_inv_reap proc_inv_wait_enter)

lemma proc_inv_waitpid_enter: "proc_inv s \<Longrightarrow> waitpid_enter pid s = Inr (w, s') \<Longrightarrow> proc_inv s'"
  using mark_yield [of s "(cur s)\<lparr>t_state := WAIT\<rparr>"] proc_inv_cur [of s]
  by (auto simp: waitpid_enter_def res_simps split: if_splits intro: proc_inv_reap)

lemma proc_inv_waitpid_resume: "proc_inv s \<Longrightarrow> waitpid_resume pid s = Inr (w, s') \<Longrightarrow> proc_inv s'"
  by (auto simp: waitpid_resume_def res_simps split: if_splits intro: proc_inv_reap proc_inv_yield)

lemma proc_inv_sleep: "proc_inv s \<Longrightarrow> sleep n s = Inr s' \<Longrightarrow> proc_inv s'"
  using mark_yield [of s "(cur s)\<lparr>t_time := sint n, t_state := SUSPENDED\<rparr>"] proc_inv_cur [of s]
  by (auto simp: sleep_def split: if_splits)

lemma proc_inv_kill_task:
  assumes "proc_inv s" and "i < MAX_q"
  shows "proc_inv (reparent p (set_task i ((q s i)\<lparr>t_state := ZOMBIE\<rparr>) s))"
  using assms by (auto simp: proc_inv_def cur_ok_def live_def)

lemma proc_inv_wake_parent: "proc_inv s \<Longrightarrow> i < MAX_q \<Longrightarrow> \<exists>s'. wake_parent i s = Inr s' \<and> proc_inv s'"
  by (auto simp: wake_parent_def Let_def proc_inv_def cur_ok_def live_def)

lemma proc_inv_kill: "proc_inv s \<Longrightarrow> in_q pid \<Longrightarrow> \<exists>s'. kill pid s = Inr s' \<and> proc_inv s'"
  using proc_inv_wake_parent [OF proc_inv_kill_task, of s "nat pid" "nat pid" "nat pid"]
  by (simp add: kill_def in_q_def Let_def nat_less_iff)

lemma proc_inv_exit_prepare: "proc_inv s \<Longrightarrow> \<exists>s'. exit_prepare s = Inr s' \<and> proc_inv s'"
  using proc_inv_wake_parent [OF proc_inv_kill_task, of s "r s" "r s" "r s"] proc_inv_cur [of s]
  by (simp add: exit_prepare_def Let_def)

lemma proc_inv_exit: "proc_inv s \<Longrightarrow> \<exists>s'. exit s = Inr s' \<and> proc_inv s'"
  using proc_inv_exit_prepare [of s] yield_total proc_inv_yield proc_inv_cur
  by (fastforce simp: exit_def)

lemma more_malloc_pages_tasks:
  "malloc_pages n s = Inr s' \<Longrightarrow> r s' = r s \<and>
     (\<exists>vs. length vs = length (t_vm (cur s)) \<and> q s' = (q s)(r s := (cur s)\<lparr>t_vm := vs\<rparr>))"
proof (induction n arbitrary: s)
  case 0
  then show ?case by (auto intro!: exI [of _ "t_vm (cur s)"])
next
  case (Suc n)
  then show ?case
    by (fastforce simp: res_simps Let_def dest!: more_allocate_page more_init_pages_for_process more_kernel)
qed

lemma proc_inv_malloc:
  assumes inv: "proc_inv s" and "malloc n s = Inr (a, s')"
  shows "proc_inv s'"
proof -
  from assms obtain k where "malloc_pages k s = Inr s'"
    by (auto simp: malloc_def res_simps Let_def split: if_splits)
  from more_malloc_pages_tasks [OF this] inv show ?thesis
    by (auto simp: proc_inv_def cur_ok_def live_def)
qed

section \<open>An example: a shell with a dead child\<close>

text \<open>
  Task 0 (init) waits, task 1 (idle) is runnable, task 2 runs, and its child 3 is dead. The
  kernel's tables sit in the frames 20 to 23, the address spaces of 2 and 3 in frames 7 and 10.
\<close>

definition example_procs :: kernel where
  "example_procs = example_kernel\<lparr>
     kmem := (\<lambda>_. 0)(KERNBASE + page_addr 20 + 8 * 511 := page_addr 21 OR 3,
                     KERNBASE + page_addr 21 + 8 * 510 := page_addr 22 OR 3,
                     KERNBASE + page_addr 22 := page_addr 23 OR 3),
     pml4e := KERNBASE + page_addr 20,
     q := (\<lambda>_. blank_task)(0 := blank_task\<lparr>t_state := WAIT\<rparr>,
           1 := blank_task\<lparr>t_state := RUNNING, t_pid := 1\<rparr>,
           2 := blank_task\<lparr>t_state := RUNNING, t_pid := 2, t_pml4e := page_addr 7\<rparr>,
           3 := blank_task\<lparr>t_state := ZOMBIE, t_pid := 3, t_ppid := 2, t_pml4e := page_addr 10\<rparr>),
     r := 2, cpu_rsp := (2, 120)\<rparr>"

lemma example_procs_tasks:
  "r example_procs = 2" "t_pid (q example_procs i) = (if i \<in> {1, 2, 3} then i else 0)"
  "t_state (q example_procs i) = (if i = 0 then WAIT else if i = 1 \<or> i = 2 then RUNNING else if i = 3 then ZOMBIE else READY)"
  "t_ppid (q example_procs i) = (if i = 3 then 2 else 0)" "t_vm (q example_procs i) = []"
  "t_child_count (q example_procs i) = 0"
  by (auto simp: example_procs_def blank_task_def)

lemma example_procs_inv: "proc_inv example_procs"
  by (auto simp: proc_inv_def cur_ok_def live_def example_procs_tasks)

lemma example_newPID: "newPID example_procs = Some 4"
  by (auto simp: newPID_def find_upt example_procs_tasks)

lemma example_wait_scan: "wait_scan example_procs = Some 3"
  by (auto simp: wait_scan_def find_upt zombie_child_def example_procs_tasks)

lemma dealloc_pml4_empty:
  assumes "\<And>i. i < 512 \<Longrightarrow> rd s (p + KERNBASE) i = 0"
  shows "dealloc_pml4 p s = Inr s"
  unfolding dealloc_pml4_def Let_def
proof (rule rfold_noop)
  fix i assume "i \<in> set (table_idx 511)"
  then have "i < 512" by (auto simp: word_less_nat_alt unat_of_nat_lt)
  then show "rbind (if rd s (p + KERNBASE) i AND 1 \<noteq> 0
      then rbind (dealloc_p3 (KERNBASE + (rd s (p + KERNBASE) i AND PTE_MASK)) s)
             (\<lambda>sa. free (rd sa (p + KERNBASE) i AND PTE_MASK) sa)
      else Inr s) (\<lambda>s. Inr (wr (p + KERNBASE) i 0 s)) = Inr s"
    using assms [of i] by (simp add: wr_zero rd_def)
qed

lemma example_page_zero:
  assumes "n = 7 \<or> n = 10" "i < 512"
  shows "kmem example_procs (KERNBASE + page_addr n + 8 * i) = 0"
proof -
  have "KERNBASE + page_addr n + 8 * i \<noteq> KERNBASE + page_addr m + 8 * j" if "m \<in> {20, 21, 22}" "j < 512" for m j
    using slot_eq_iff [OF page_aligned_KERNBASE [OF page_addr_aligned [of n]]
        page_aligned_KERNBASE [OF page_addr_aligned [of m]] assms(2) that(2)] that(1) assms(1)
    by (auto simp: page_addr_inj)
  from this [of 20 511] this [of 21 510] this [of 22 0] show ?thesis
    by (simp add: example_procs_def)
qed

lemma example_reap: "\<exists>s'. reap 3 example_procs = Inr s'"
proof -
  have "dealloc_pml4 (page_addr 10) example_procs = Inr example_procs"
    by (rule dealloc_pml4_empty) (simp add: rd_def example_page_zero add.commute [of "page_addr 10"])
  moreover have "\<exists>s'. free (page_addr 10) example_procs = Inr s'"
    by (simp add: free_def page_int_addr Let_def)
  moreover have "t_pml4e (q example_procs 3) = page_addr 10" by (simp add: example_procs_def)
  ultimately show ?thesis by (auto simp: reap_def removeProcess_def example_procs_tasks)
qed

lemma copytables_empty:
  assumes "\<And>i. i < 512 \<Longrightarrow> rd s (p + KERNBASE) i = 0"
  shows "copytables p c s = Inr (wr (c + KERNBASE) 511 0 s)"
proof -
  let ?s = "wr (c + KERNBASE) 511 0 s"
  have z: "rd ?s (p + KERNBASE) i = 0" if "i < 512" for i using assms [OF that] by (simp add: rd_def)
  have "i < 512" if "i \<in> set (table_idx 511)" for i
    using that by (auto simp: word_less_nat_alt unat_of_nat_lt)
  moreover have "rd s (p + KERNBASE) 511 = 0" using assms [of 511] by simp
  ultimately show ?thesis
    unfolding copytables_def Let_def by (simp only:, intro rfold_noop) (simp add: z)
qed

lemma example_alloc:
  "\<exists>s1. allocate_page_for_process (example_procs\<lparr>q := f\<rparr>) = Inr (KERNBASE + page_addr 3, s1) \<and>
     kmem s1 = (kmem example_procs)(KERNBASE + page_addr 23 + 24 := page_addr 3 OR 3)"
  by (simp add: allocate_page_for_process_def allocate_page_def map_kernel_def example_procs_def
      example_kernel_def example_vmem_def example_palloc_def set_page_def page_addr_def tidx_def rd_def wr_def Let_def)

lemma example_copytask:
  "\<exists>s'. copytask 4 (set_task 4 ((q example_procs 4)\<lparr>t_pid := 4\<rparr>) example_procs) = Inr s'"
proof -
  let ?S = "set_task 4 ((q example_procs 4)\<lparr>t_pid := 4\<rparr>) example_procs"
  obtain f where f: "set_task 4 ((q ?S 4)\<lparr>t_ppid := t_pid (cur ?S)\<rparr>) ?S = example_procs\<lparr>q := f\<rparr>"
    and cur: "f 2 = q example_procs 2"
    by (simp add: set_task_def)
  obtain s1 where s1: "allocate_page_for_process (example_procs\<lparr>q := f\<rparr>) = Inr (KERNBASE + page_addr 3, s1)"
    and mem: "kmem s1 = (kmem example_procs)(KERNBASE + page_addr 23 + 24 := page_addr 3 OR 3)"
    using example_alloc [of f] by auto
  have s1q: "r s1 = 2" "q s1 2 = q example_procs 2"
    using more_kernel [OF more_allocate_page_for_process [OF s1]] cur by (simp_all add: example_procs_tasks)
  have ct: "copytables (page_addr 7) c s = Inr (wr (c + KERNBASE) 511 0 s)"
    if s: "kmem s = kmem (memset_page (page_addr 3 + KERNBASE) s1)" for c and s :: kernel
  proof (rule copytables_empty)
    fix i :: u64 assume i: "i < 512"
    have "KERNBASE + page_addr 7 + 8 * i \<noteq> KERNBASE + page_addr 23 + 8 * 3"
      using slot_eq_iff [OF page_aligned_KERNBASE [OF page_addr_aligned [of 7]]
          page_aligned_KERNBASE [OF page_addr_aligned [of 23]] i, of 3] by (simp add: page_addr_inj)
    then show "rd s (page_addr 7 + KERNBASE) i = 0"
      using example_page_zero [of 7 i] i by (simp add: rd_def s kmem_memset_page mem add.commute [of "page_addr 7"])
  qed
  have "t_pml4e (q s1 2) = page_addr 7" by (simp add: s1q example_procs_def)
  then show ?thesis
    unfolding copytask_def Let_def f s1 rbind_Inr prod.case using ct s1q by (simp add: example_procs_tasks)
qed

lemma example_fork: "\<exists>pid s'. fork example_procs = Inr (pid, s')"
proof -
  obtain s1 where s1: "copytask 4 (set_task 4 ((q example_procs 4)\<lparr>t_pid := 4\<rparr>) example_procs) = Inr s1"
    using example_copytask by blast
  have "r s1 = 2 \<and> q s1 2 = q example_procs 2"
    using copytask_tasks [OF s1] by (simp add: example_procs_tasks)
  then show ?thesis
    by (simp add: fork_def with_slot_def example_newPID s1 Let_def example_procs_tasks)
qed

section \<open>Properties of the process operations\<close>

text \<open>
  C29. A successful \<open>fork\<close> puts the child into a free slot, returns that slot to the parent,
  and changes no other task. The child is runnable, has the caller as its parent, its memory
  areas, name and directory, its own pid, and a copy of the kernel stack with the child marker;
  its saved stack pointer is as deep in its own stack as the running one is in the parent's.
\<close>

theorem fork_child:
  assumes "fork s = Inr (pid, s')" and "t_state (cur s) \<noteq> READY"
  shows "pid < MAX_q \<and> t_state (q s pid) = READY \<and> r s' = r s \<and>
    (\<forall>i. i \<noteq> pid \<and> i \<noteq> r s \<longrightarrow> q s' i = q s i) \<and>
    cur s' = (cur s)\<lparr>t_child_count := t_child_count (cur s) + 1\<rparr> \<and>
    t_state (q s' pid) = RUNNING \<and> t_pid (q s' pid) = pid \<and> t_ppid (q s' pid) = t_pid (cur s) \<and>
    t_name (q s' pid) = t_name (cur s) \<and> t_curr_dir (q s' pid) = t_curr_dir (cur s) \<and>
    map vm_start (t_vm (q s' pid)) = map vm_start (t_vm (cur s)) \<and>
    map vm_end (t_vm (q s' pid)) = map vm_end (t_vm (cur s)) \<and>
    t_kstack (q s' pid) = (t_kstack (cur s))(14 := 9999) \<and>
    (fst (cpu_rsp s) = r s \<longrightarrow> reg_rsp (q s' pid) = (pid, snd (cpu_rsp s)))"
  using fork_tasks [OF assms] newPID_Some [of s pid] by auto

theorem fork_child_witness:
  "\<exists>pid s'. fork example_procs = Inr (pid, s') \<and> t_state (q s' pid) = RUNNING \<and> t_ppid (q s' pid) = 2 \<and>
     reg_rsp (q s' pid) = (pid, 120)"
proof -
  obtain pid s' where f: "fork example_procs = Inr (pid, s')" using example_fork by blast
  have "t_state (cur example_procs) \<noteq> READY" by (simp add: example_procs_tasks)
  from fork_child [OF f this] f show ?thesis by (simp add: example_procs_tasks example_procs_def)
qed

text \<open>
  With no free slot \<open>fork\<close> does not fail cleanly: \<open>newPID\<close> returns \<open>-1\<close>, nothing checks it,
  and the process array is accessed outside its bounds.
\<close>

theorem fork_full_table_faults:
  assumes "\<forall>i<MAX_q. t_state (q s i) \<noteq> READY"
  shows "fork s = Inl OutOfBounds"
  using assms newPID_None [of s] by (simp add: fork_def with_slot_def)

theorem fork_full_table_faults_witness:
  "fork (example_kernel\<lparr>q := \<lambda>_. blank_task\<lparr>t_state := WAIT\<rparr>\<rparr>) = Inl OutOfBounds"
  by (rule fork_full_table_faults) simp



text \<open>
  C31. \<open>wait\<close>, on entry or after it was woken: when it returns a child, that child was the lowest
  dead child of the caller, its slot is free again for \<open>newPID\<close>, and no other task changed; when
  it does not return, the caller had no dead child and waits, and another runnable task, if there
  is one, runs instead.
\<close>

theorem wait_result:
  assumes inv: "proc_inv s" and w: "wait_enter s = Inr (w, s') \<or> wait_resume s = Inr (w, s')"
  shows "case w of
      Some i \<Rightarrow> i < MAX_q \<and> zombie_child s i \<and> (\<forall>j<i. \<not> zombie_child s j) \<and> r s' = r s \<and>
        q s' = (q s)(i := (q s i)\<lparr>t_state := READY\<rparr>) \<and> newPID s' \<noteq> None
    | None \<Rightarrow> (\<forall>i<MAX_q. \<not> zombie_child s i) \<and> t_state (q s' (r s)) = WAIT \<and>
        (\<forall>j. j \<noteq> r s \<and> runnable s j \<longrightarrow> runnable s (r s') \<and> r s' \<noteq> r s)"
proof -
  have enter: "wait_enter s = Inr (w, s')" using w by (auto simp: wait_resume_def wait_enter_def split: option.splits)
  show ?thesis
  proof (cases "wait_scan s")
    case (Some i)
    with enter have w: "w = Some i" and rp: "reap i s = Inr s'" by (auto simp: wait_enter_def res_simps)
    have "i < MAX_q" "zombie_child s i" "\<forall>j<i. \<not> zombie_child s j"
      using Some by (auto simp: wait_scan_def find_upt)
    moreover have "newPID s' \<noteq> None" using \<open>i < MAX_q\<close> reap_tasks [OF rp] by (auto simp: newPID_None)
    ultimately show ?thesis using w reap_tasks [OF rp] by simp
  next
    case None
    let ?s = "set_task (r s) ((cur s)\<lparr>t_state := WAIT\<rparr>) s"
    from None enter have w: "w = None" and y: "yield ?s = Inr s'" by (auto simp: wait_enter_def res_simps)
    have ok: "cur_ok ?s" using proc_inv_cur [OF inv] by (simp add: cur_ok_def)
    have "runnable s (r s') \<and> r s' \<noteq> r s" if "j \<noteq> r s" "runnable s j" for j
      using yield_leaves [OF ok y, of j] that by (auto simp: runnable_def split: if_splits)
    then show ?thesis using w None yield_task_frame(1) [OF ok y, of "r s"] by (auto simp: wait_scan_None)
  qed
qed

theorem wait_result_witness:
  "\<exists>s'. wait_enter example_procs = Inr (Some 3, s') \<and> t_state (q s' 3) = READY \<and> newPID s' \<noteq> None"
proof -
  obtain s' where s': "reap 3 example_procs = Inr s'" using example_reap by blast
  then have "wait_enter example_procs = Inr (Some 3, s')" by (simp add: wait_enter_def example_wait_scan)
  with wait_result [OF example_procs_inv, of "Some 3" s'] show ?thesis by simp
qed

text \<open>
  A lost wake-up: when a task exits whose dead child nobody has waited for, the child goes to
  task 0, but a waiting task 0 that is not the caller's own parent is not woken for it: it goes
  on waiting although it has a dead child.
\<close>

theorem exit_orphan_not_reaped:
  assumes inv: "proc_inv s" and init: "t_state (q s 0) = WAIT" "r s \<noteq> 0" "t_ppid (cur s) \<noteq> 0" "t_ppid (cur s) \<noteq> r s"
    and child: "c < MAX_q" "t_ppid (q s c) = r s" "t_state (q s c) = ZOMBIE"
  shows "\<exists>s'. exit s = Inr s' \<and> t_state (q s' 0) = WAIT \<and> zombie_child (s'\<lparr>r := 0\<rparr>) c"
proof -
  obtain s1 where s1: "exit_prepare s = Inr s1" "proc_inv s1" using proc_inv_exit_prepare [OF inv] by blast
  have r: "t_pid (cur s) = r s" "r s < MAX_q" "t_pid (q s 0) = 0"
    using proc_inv_cur [OF inv] inv init by (auto simp: proc_inv_def live_def)
  have t1: "t_state (q s1 0) = WAIT" "t_pid (q s1 0) = 0" "t_ppid (q s1 c) = 0" "t_state (q s1 c) = ZOMBIE"
    using s1(1) r init child by (auto simp: exit_prepare_def wake_parent_def Let_def split: if_splits)
  have ok: "cur_ok s1" using proc_inv_cur s1(2) by blast
  obtain s' where s': "yield s1 = Inr s'" using yield_total ok by blast
  note fr = yield_task_frame [OF ok s']
  show ?thesis using s1(1) s' t1 by (auto simp: exit_def fr zombie_child_def)
qed

theorem exit_orphan_not_reaped_witness:
  "\<exists>s'. exit (set_task 2 ((q example_procs 2)\<lparr>t_ppid := 1\<rparr>) example_procs) = Inr s' \<and>
     t_state (q s' 0) = WAIT \<and> zombie_child (s'\<lparr>r := 0\<rparr>) 3"
proof -
  let ?s = "set_task 2 ((q example_procs 2)\<lparr>t_ppid := 1\<rparr>) example_procs"
  have "proc_inv ?s" using example_procs_inv
    by (auto simp: proc_inv_def cur_ok_def live_def example_procs_tasks)
  then show ?thesis by (rule exit_orphan_not_reaped) (simp_all add: example_procs_tasks)
qed

end
