(* ===== verification/Heap_Area.thy ===== *)
theory Heap_Area
  imports Process
begin

unbundle bit_operations_syntax

text \<open>
  What the heap request \<^verbatim>\<open>malloc\<close> of \<^verbatim>\<open>sys/process.c\<close> does to the address
  space of the running task: the translations of the new pages and of all others.
\<close>

abbreviation heap_end :: "'a kernel_scheme \<Rightarrow> u64" where
  "heap_end s \<equiv> vm_end (t_vm (cur s) ! 1)"

abbreviation cur_root :: "'a kernel_scheme \<Rightarrow> u64" where
  "cur_root s \<equiv> t_pml4e (cur s) + KERNBASE"

definition heap_page :: "u64 \<Rightarrow> nat \<Rightarrow> u64" where
  "heap_page b i = b + 4096 * of_nat i"

lemma heap_page_Suc: "heap_page b (Suc i) = heap_page (b + 4096) i"
  by (simp add: heap_page_def algebra_simps)

lemma pa_inv_set_task [simp]:
  "pa_inv (set_task i t s) = pa_inv s" "free_pages (set_task i t s) = free_pages s"
  by (rule pa_inv_cong; simp add: set_task_def)+

lemma pt_tree_set_task [simp]: "pt_tree root (set_task i t s) = pt_tree root s"
  by (simp add: pt_tree_def)

text \<open>One round of the loop.\<close>

definition heap_grown :: "nat \<Rightarrow> u64 list \<Rightarrow> 'a kernel_scheme \<Rightarrow> 'a kernel_scheme \<Rightarrow> bool" where
  "heap_grown n fs s s' \<longleftrightarrow> length fs = n \<and> distinct fs \<and> set fs \<subseteq> free_pages s \<and>
     (\<forall>i<n. walk (kmem s') (cur_root s) (heap_page (heap_end s) i) = Some ((fs ! i AND PTE_MASK) OR 7)) \<and>
     (\<forall>v. tidx 39 v \<noteq> 511 \<and> (\<forall>i<n. page_of v \<noteq> page_of (heap_page (heap_end s) i)) \<longrightarrow>
        walk (kmem s') (cur_root s) v = walk (kmem s) (cur_root s) v) \<and>
     heap_end s' = heap_page (heap_end s) n \<and> cur_root s' = cur_root s \<and>
     pa_inv s' \<and> pt_tree (cur_root s) s' \<and> free_pages s' \<subseteq> free_pages s - set fs"

lemma ensure_table_card:
  "pa_inv s \<Longrightarrow> ensure_table t i s = Inr (p, s') \<Longrightarrow>
     pa_inv s' \<and> card (free_pages s) \<le> Suc (card (free_pages s'))"
  by (auto simp: ensure_table_def res_simps alloc_wr split: if_splits
      dest: frames.card_alloc frames.alloc_good)

lemma init_pages_card:
  assumes inv: "pa_inv s" and run: "init_pages_for_process v phy root s = Inr s'"
  shows "card (free_pages s) \<le> card (free_pages s') + 3"
proof -
  let ?s0 = "wr root 511 ((rd s (pml4e s) 511 AND PTE_MASK) OR 7) s"
  obtain p3 s1 p2 s2 p1 s3 where st: "ensure_table root (tidx 39 v) ?s0 = Inr (p3, s1)"
      "ensure_table p3 (tidx 30 v) s1 = Inr (p2, s2)" "ensure_table p2 (tidx 21 v) s2 = Inr (p1, s3)"
    and s': "s' = wr p1 (tidx 12 v) ((phy AND PTE_MASK) OR 7) s3"
    using run by (auto simp: init_pages_for_process_eq map_user_def res_simps)
  have "pa_inv ?s0" using inv by (simp add: alloc_wr)
  note c1 = ensure_table_card [OF this st(1)]
  note c2 = ensure_table_card [OF c1 [THEN conjunct1] st(2)]
  note c3 = ensure_table_card [OF c2 [THEN conjunct1] st(3)]
  show ?thesis using c1 c2 c3 by (simp add: s' alloc_wr)
qed

text \<open>One round of the loop.\<close>

lemma malloc_page:
  assumes inv: "pa_inv s" "pt_tree (cur_root s) s" and len: "length (t_vm (cur s)) \<ge> 2"
    and v: "tidx 39 (heap_end s) \<noteq> 511"
  shows "case malloc_pages 1 s of
      Inl e \<Rightarrow> e = OutOfMemory \<and> card (free_pages s) < 4
    | Inr s' \<Rightarrow> \<exists>f. heap_grown 1 [f] s s' \<and> length (t_vm (cur s')) = length (t_vm (cur s)) \<and>
        card (free_pages s) \<le> card (free_pages s') + 4"
proof (cases "allocate_page s")
  case (Inl e)
  then have "free_pages s = {}" "e = OutOfMemory"
    using frames.alloc_some [OF inv(1)] frames.alloc_none [OF inv(1)] by fastforce+
  with Inl show ?thesis by simp
next
  case (Inr x)
  obtain f s1 where a: "allocate_page s = Inr (f, s1)" using Inr by (cases x) auto
  note fr = allocate_page_frame [OF a] and mr = more_kernel [OF more_allocate_page [OF a]]
  have i1: "pa_inv s1" "f \<in> free_pages s" "free_pages s1 = free_pages s - {f}" "card (free_pages s) = Suc (card (free_pages s1))"
    using frames.alloc_good [OF inv(1) a] frames.alloc_avail [OF inv(1) a] frames.card_alloc [OF inv(1) a] by auto
  have t1: "pt_tree (cur_root s) s1" using inv(2) fr i1 by (auto simp: pt_tree_def)
  note um = user_page_mapped [OF i1(1) t1 v, of f]
  show ?thesis
  proof (cases "init_pages_for_process (heap_end s) f (cur_root s) s1")
    case (Inl e)
    with um a mr i1 show ?thesis by (simp add: Let_def)
  next
    case (Inr s2)
    note mr2 = more_kernel [OF more_init_pages_for_process [OF Inr]]
    from um Inr have "heap_grown 1 [f] s (set_task (r s) ((cur s)\<lparr>t_vm := (t_vm (cur s))[1 := (t_vm (cur s) ! 1)\<lparr>vm_end := heap_end s + 4096\<rparr>]\<rparr>) s2)"
      using mr mr2 i1 fr len by (auto simp: heap_grown_def heap_page_def)
    then show ?thesis using Inr a mr mr2 i1 init_pages_card [OF i1(1) Inr] by (auto simp: Let_def)
  qed
qed

lemma malloc_pages_Suc: "malloc_pages (Suc n) s = rbind (malloc_pages 1 s) (malloc_pages n)"
  by (simp add: Let_def rbind_assoc split_def cong: rbind_cong)

lemma heap_grown_step:
  assumes g1: "heap_grown 1 [f] s s1" and g2: "heap_grown n fs s1 s2"
    and apart: "\<And>i. i < n \<Longrightarrow> page_of (heap_page (heap_end s) (Suc i)) \<noteq> page_of (heap_end s)"
    and v: "tidx 39 (heap_end s) \<noteq> 511"
  shows "heap_grown (Suc n) (f # fs) s s2"
proof -
  have e1: "heap_end s1 = heap_end s + 4096" "cur_root s1 = cur_root s"
    and f: "f \<in> free_pages s" "free_pages s1 \<subseteq> free_pages s - {f}"
    and w1: "walk (kmem s1) (cur_root s) (heap_end s) = Some ((f AND PTE_MASK) OR 7)"
    using g1 by (auto simp: heap_grown_def heap_page_def)
  have pg: "heap_page (heap_end s1) i = heap_page (heap_end s) (Suc i)" for i
    by (simp only: e1 heap_page_Suc)
  have keep: "walk (kmem s2) (cur_root s) v = walk (kmem s1) (cur_root s) v"
    if "tidx 39 v \<noteq> 511" "\<forall>i<n. page_of v \<noteq> page_of (heap_page (heap_end s) (Suc i))" for v
    using g2 that unfolding heap_grown_def pg e1(2) by blast
  have w2: "walk (kmem s2) (cur_root s) (heap_end s) = Some ((f AND PTE_MASK) OR 7)"
    using keep [OF v] apart w1 by metis
  have "walk (kmem s2) (cur_root s) (heap_page (heap_end s) i) = Some (((f # fs) ! i AND PTE_MASK) OR 7)"
    if "i < Suc n" for i
  proof (cases i)
    case 0
    then show ?thesis using w2 by (simp add: heap_page_def)
  next
    case (Suc k)
    then show ?thesis using g2 that unfolding heap_grown_def pg e1(2) by simp
  qed
  moreover have "walk (kmem s2) (cur_root s) v = walk (kmem s) (cur_root s) v"
    if "tidx 39 v \<noteq> 511" "\<forall>i<Suc n. page_of v \<noteq> page_of (heap_page (heap_end s) i)" for v
  proof -
    have "\<forall>i<n. page_of v \<noteq> page_of (heap_page (heap_end s) (Suc i))" "page_of v \<noteq> page_of (heap_page (heap_end s) 0)"
      using that(2) by auto
    then show ?thesis using keep that(1) g1 unfolding heap_grown_def by simp
  qed
  ultimately show ?thesis
    using g2 f pg [of n] e1 unfolding heap_grown_def pg by (auto simp: heap_page_def algebra_simps)
qed

lemma malloc_pages_grows:
  assumes "pa_inv s" "pt_tree (cur_root s) s" "length (t_vm (cur s)) \<ge> 2"
    and "\<And>i. i < n \<Longrightarrow> tidx 39 (heap_page (heap_end s) i) \<noteq> 511"
    and "\<And>i j. i < n \<Longrightarrow> j < n \<Longrightarrow> page_of (heap_page (heap_end s) i) = page_of (heap_page (heap_end s) j) \<Longrightarrow> i = j"
  shows "case malloc_pages n s of
      Inl e \<Rightarrow> e = OutOfMemory \<and> card (free_pages s) < 4 * n
    | Inr s' \<Rightarrow> \<exists>fs. heap_grown n fs s s'"
  using assms
proof (induction n arbitrary: s)
  case 0
  then show ?case by (simp add: heap_grown_def heap_page_def)
next
  case (Suc n)
  have v: "tidx 39 (heap_end s) \<noteq> 511" using Suc.prems(4) [of 0] by (simp add: heap_page_def)
  note one = malloc_page [OF Suc.prems(1-3) v]
  show ?case
  proof (cases "malloc_pages 1 s")
    case (Inl e)
    with one show ?thesis unfolding malloc_pages_Suc by simp
  next
    case (Inr s1)
    with one obtain f where g: "heap_grown 1 [f] s s1" and len: "length (t_vm (cur s1)) = length (t_vm (cur s))"
      and card: "card (free_pages s) \<le> card (free_pages s1) + 4" by auto
    have i1: "pa_inv s1" "pt_tree (cur_root s1) s1" and e1: "heap_end s1 = heap_end s + 4096"
      using g by (auto simp: heap_grown_def heap_page_def)
    have pg: "heap_page (heap_end s1) i = heap_page (heap_end s) (Suc i)" for i
      by (simp only: e1 heap_page_Suc)
    have IH: "case malloc_pages n s1 of Inl e \<Rightarrow> e = OutOfMemory \<and> card (free_pages s1) < 4 * n
        | Inr s' \<Rightarrow> \<exists>fs. heap_grown n fs s1 s'"
    proof (rule Suc.IH [OF i1])
      show "2 \<le> length (t_vm (cur s1))" using Suc.prems(3) len by simp
      show "tidx 39 (heap_page (heap_end s1) i) \<noteq> 511" if "i < n" for i
        unfolding pg using Suc.prems(4) that by simp
      show "i = j" if "i < n" "j < n" "page_of (heap_page (heap_end s1) i) = page_of (heap_page (heap_end s1) j)" for i j
        using that Suc.prems(5) [of "Suc i" "Suc j"] unfolding pg by simp
    qed
    have apart: "page_of (heap_page (heap_end s) (Suc i)) \<noteq> page_of (heap_end s)" if "i < n" for i
      using Suc.prems(5) [of "Suc i" 0] that by (auto simp: heap_page_def)
    show ?thesis
      using IH card heap_grown_step [OF g _ apart v]
      unfolding malloc_pages_Suc Inr rbind_Inr by (auto split: sum.splits)
  qed
qed

section \<open>User addresses\<close>

lemma tidx39_user:
  assumes "unat v < 2 ^ 47"
  shows "tidx 39 v \<noteq> 511"
proof
  assume a: "tidx 39 v = 511"
  have "tidx 39 v \<le> drop_bit 39 v" by (simp add: tidx_def word_and_le2)
  then have "unat (tidx 39 v) \<le> unat (drop_bit 39 v)" by (simp only: word_le_nat_alt)
  also have "unat (drop_bit 39 v) = unat v div 2 ^ 39" by (simp add: drop_bit_eq_div unat_div)
  finally have "511 \<le> unat v div 2 ^ 39" by (simp add: a)
  moreover have "unat v div 2 ^ 39 < 2 ^ 8" using assms by (simp add: less_mult_imp_div_less)
  ultimately show False by simp
qed

lemma page_of_id:
  assumes "page_aligned v" "unat v < 2 ^ 47"
  shows "page_of v = v"
proof -
  have c: "(0xFFFFFFFFF000 :: u64) = mask 48 AND NOT (mask 12)" by (simp add: mask_eq_exp_minus_1)
  have "unat (take_bit 48 v) = unat v" using assms(2) by (simp add: unsigned_take_bit_eq take_bit_nat_eq_self)
  then have "take_bit 48 v = v" by (metis word_of_nat_unat)
  then have "v AND mask 48 = v" by (simp add: take_bit_eq_mask)
  moreover have "v AND NOT (mask 12) = v"
    using assms(1) unfolding page_aligned_bit
    by (intro bit_word_eqI) (auto simp only: bit_and_iff bit_not_iff bit_mask_iff possible_bit_word)
  ultimately show ?thesis by (simp only: page_of_def c flip: and.assoc)
qed

lemma heap_page_unat:
  assumes "unat b + 4096 * n \<le> 2 ^ 47" "i < n"
  shows "unat (heap_page b i) = unat b + 4096 * i"
proof -
  have "i \<le> 2 ^ 47" "unat b + 4096 * i < 2 ^ 47" using assms by auto
  then show ?thesis by (simp add: heap_page_def unat_word_ariths unat_of_nat_lt)
qed

lemma heap_page_aligned: "page_aligned b \<Longrightarrow> unat b + 4096 * n \<le> 2 ^ 47 \<Longrightarrow> i < n \<Longrightarrow> page_aligned (heap_page b i)"
  by (simp add: page_aligned_unat heap_page_unat)

section \<open>Growing the heap\<close>

lemma malloc_pages_of_bytes: "0 \<le> n \<Longrightarrow> nat (cdiv n 4096 + 1) = nat n div 4096 + 1"
  by (simp add: cdiv_nonneg nat_add_distrib nat_div_distrib)

lemma malloc_effect:
  assumes inv: "pa_inv s" "pt_tree (cur_root s) s" and vm: "length (t_vm (cur s)) \<ge> 2" and n: "0 \<le> n"
    and al: "page_aligned (heap_end s)" and top: "unat (heap_end s) + 4096 * (nat n div 4096 + 1) \<le> 2 ^ 47"
  shows "case malloc n s of
      Inl e \<Rightarrow> e = OutOfMemory \<and> card (free_pages s) < 4 * (nat n div 4096 + 1)
    | Inr (a, s') \<Rightarrow> a = heap_end s \<and> heap_end s' = a + 4096 * of_nat (nat n div 4096 + 1) \<and>
        (\<exists>fs. distinct fs \<and> set fs \<subseteq> free_pages s \<and> set fs \<inter> free_pages s' = {} \<and>
          (\<forall>i<nat n div 4096 + 1. walk (kmem s') (cur_root s) (a + 4096 * of_nat i) = Some ((fs ! i AND PTE_MASK) OR 7))) \<and>
        (\<forall>v. tidx 39 v \<noteq> 511 \<and> (\<forall>i<nat n div 4096 + 1. page_of v \<noteq> a + 4096 * of_nat i) \<longrightarrow>
          walk (kmem s') (cur_root s) v = walk (kmem s) (cur_root s) v)"
proof -
  let ?k = "nat n div 4096 + 1"
  note hp = heap_page_unat [OF top] and al' = heap_page_aligned [OF al top]
  have small: "unat (heap_page (heap_end s) i) < 2 ^ 47" if "i < ?k" for i using hp that top by simp
  have pid: "page_of (heap_page (heap_end s) i) = heap_page (heap_end s) i" if "i < ?k" for i
    using page_of_id al' small that by blast
  have run: "case malloc_pages ?k s of Inl e \<Rightarrow> e = OutOfMemory \<and> card (free_pages s) < 4 * ?k
      | Inr s' \<Rightarrow> \<exists>fs. heap_grown ?k fs s s'"
  proof (rule malloc_pages_grows [OF inv vm])
    show "tidx 39 (heap_page (heap_end s) i) \<noteq> 511" if "i < ?k" for i using tidx39_user small that by blast
    fix i j assume i: "i < ?k" and j: "j < ?k"
      and "page_of (heap_page (heap_end s) i) = page_of (heap_page (heap_end s) j)"
    then have "heap_page (heap_end s) i = heap_page (heap_end s) j" by (simp only: pid)
    then have "unat (heap_end s) + 4096 * i = unat (heap_end s) + 4096 * j"
      by (simp only: hp [OF i, symmetric] hp [OF j, symmetric])
    then show "i = j" by simp
  qed
  have mal: "malloc n s = rbind (malloc_pages ?k s) (\<lambda>s'. Inr (heap_end s, s'))"
    using vm n by (simp add: malloc_def Let_def malloc_pages_of_bytes)
  show ?thesis
  proof (cases "malloc_pages ?k s")
    case (Inl e)
    with run mal show ?thesis by simp
  next
    case (Inr s')
    with run obtain fs where g: "heap_grown ?k fs s s'" by auto
    have "walk (kmem s') (cur_root s) v = walk (kmem s) (cur_root s) v"
      if "tidx 39 v \<noteq> 511" "\<forall>i<?k. page_of v \<noteq> heap_page (heap_end s) i" for v
      using g that pid unfolding heap_grown_def by metis
    moreover have "set fs \<inter> free_pages s' = {}" using g by (auto simp: heap_grown_def)
    ultimately show ?thesis
      using g unfolding mal Inr heap_grown_def rbind_Inr sum.case prod.case heap_page_def [symmetric]
      by blast
  qed
qed

text \<open>
  \<open>malloc(n)\<close> of the kernel: with a heap area below \<open>2 ^ 47\<close> it returns the old end of the
  area, moves the end by whole pages that hold more than \<open>n\<close> bytes, maps each of them writable to a
  frame of its own that was free, and leaves every other user translation alone. The only failure
  is out of memory, and four free frames per page rule it out.
\<close>

theorem malloc_maps_heap:
  assumes inv: "pa_inv s" "pt_tree (cur_root s) s" and vm: "length (t_vm (cur s)) \<ge> 2" and n: "0 \<le> n"
    and al: "page_aligned (heap_end s)" and top: "unat (heap_end s) + 4096 * (nat n div 4096 + 1) \<le> 2 ^ 47"
  shows "case malloc n s of
      Inl e \<Rightarrow> e = OutOfMemory \<and> card (free_pages s) < 4 * (nat n div 4096 + 1)
    | Inr (a, s') \<Rightarrow> a = heap_end s \<and> heap_end s' = a + 4096 * of_nat (nat n div 4096 + 1) \<and>
        (\<exists>fs. distinct fs \<and> set fs \<subseteq> free_pages s \<and> set fs \<inter> free_pages s' = {} \<and>
          (\<forall>i<nat n div 4096 + 1. walk (kmem s') (cur_root s) (a + 4096 * of_nat i) = Some ((fs ! i AND PTE_MASK) OR 7))) \<and>
        (\<forall>v. tidx 39 v \<noteq> 511 \<and> (\<forall>i<nat n div 4096 + 1. page_of v \<noteq> a + 4096 * of_nat i) \<longrightarrow>
          walk (kmem s') (cur_root s) v = walk (kmem s) (cur_root s) v)"
  using malloc_effect [OF assms] .

text \<open>Four free frames, an empty address space in frame 7, a stack area and an empty heap area.\<close>

definition example_heap :: kernel where
  "example_heap = example_kernel\<lparr>
     pagelist := (pagelist example_palloc)
       (9 := \<lparr>fl_address = page_addr 9, fl_free = 1, fl_ref_count = 0, fl_next = Some 11\<rparr>,
        11 := \<lparr>fl_address = page_addr 11, fl_free = 1, fl_ref_count = 0, fl_next = None\<rparr>),
     q := (\<lambda>_. blank_task\<lparr>t_pml4e := page_addr 7,
       t_vm := [\<lparr>vm_node = 0, vm_start = 0x100FFFFF0000, vm_end = 0x100FFEFF0000\<rparr>,
                \<lparr>vm_node = 0, vm_start = 0x4B0FFFFF0000, vm_end = 0x4B0FFFFF0000\<rparr>]\<rparr>)\<rparr>"

lemma example_heap_idx: "free_idx example_heap = {3, 5, 9, 11}"
  by (auto simp: free_idx_def example_heap_def example_palloc_def)

lemma example_heap_inv: "pa_inv example_heap"
  unfolding pa_inv_def example_heap_idx
  by (auto simp: example_heap_def example_kernel_def example_vmem_def example_palloc_def
      intro!: exI [of _ "[3, 5, 9, 11]"])

lemma example_heap_tree: "pt_tree (cur_root example_heap) example_heap"
proof -
  have "kmem example_heap = (\<lambda>_. 0)" by (simp add: example_heap_def example_kernel_def)
  moreover have "cur_root example_heap = KERNBASE + page_addr 7"
    by (simp add: example_heap_def add.commute)
  moreover have "page_addr 7 \<notin> free_pages example_heap"
    by (simp add: free_pages_def example_heap_idx page_addr_inj)
  moreover have "page_aligned (page_addr 7 + KERNBASE)"
    using page_aligned_KERNBASE [OF page_addr_aligned [of 7]] by (simp add: add.commute)
  ultimately show ?thesis by (auto simp: pt_tree_def table_at_zero split: if_splits)
qed

theorem malloc_maps_heap_witness:
  "\<exists>s'. malloc 100 example_heap = Inr (0x4B0FFFFF0000, s') \<and> heap_end s' = 0x4B0FFFFF1000"
proof -
  have he: "heap_end example_heap = 0x4B0FFFFF0000" by (simp add: example_heap_def)
  have card: "card (free_pages example_heap) = 4"
    by (simp add: free_pages_def example_heap_idx page_addr_def)
  have "case malloc 100 example_heap of
      Inl e \<Rightarrow> e = OutOfMemory \<and> card (free_pages example_heap) < 4 * (nat 100 div 4096 + 1)
    | Inr (a, s') \<Rightarrow> a = heap_end example_heap \<and> heap_end s' = a + 4096 * of_nat (nat 100 div 4096 + 1)"
    using malloc_maps_heap [OF example_heap_inv example_heap_tree, of 100]
    by (auto simp: he page_aligned_def example_heap_def split: sum.splits)
  then show ?thesis unfolding he card by (auto split: sum.splits)
qed

end
