(* ===== verification/Timer.thy ===== *)
theory Timer
  imports Process
begin

text \<open>
  The clock interrupt of \<^verbatim>\<open>sys/timer.c\<close>. The handler calls \<^verbatim>\<open>yield\<close> in the
  middle, so it is two definitions: the interrupt itself, and the rest that the preempted task
  runs when it is scheduled again. The clock on the screen is the list of bytes written, in order,
  each with its distance below \<^verbatim>\<open>0xffffffff800B8F9E\<close>.
\<close>

section \<open>Operations\<close>

record clocked = kernel +
  count :: int
  sec :: int
  clock_out :: "(nat \<times> int) list"

text \<open>The digits of the seconds, last digit first, each two bytes to the left of the one before.\<close>

fun clock_digits :: "nat \<Rightarrow> nat \<Rightarrow> (nat \<times> int) list" where
  "clock_digits reg temp =
     (if temp > 0 then (reg, 48 + int (temp mod 10)) # clock_digits (reg + 2) (temp div 10) else [])"

declare clock_digits.simps [simp del]

text \<open>
  The interrupt: \<open>None\<close> when the handler returns to the interrupted code, otherwise the task is
  preempted inside the handler. The counter is reset only by the rest of the handler.
\<close>

datatype tick = Returned | Preempted

definition timer_tick :: "'a clocked_scheme \<Rightarrow> (tick \<times> 'a clocked_scheme) res" where
  "timer_tick s =
     (if count s = 2147483647 then Inl SignedOverflow
      else
        let s = s\<lparr>count := count s + 1\<rparr> in
        if count s = 18 then rbind (yield s) (\<lambda>s. Inr (Preempted, s)) else Inr (Returned, s))"

definition wake_sleeper :: "task_struct \<Rightarrow> task_struct" where
  "wake_sleeper t =
     (let t = (if t_state t = SUSPENDED \<and> t_time t > 0 then t\<lparr>t_time := t_time t - 1\<rparr> else t) in
      if t_time t = 0 \<and> t_state t = SUSPENDED then t\<lparr>t_state := RUNNING\<rparr> else t)"

definition timer_resume :: "'a clocked_scheme \<Rightarrow> 'a clocked_scheme res" where
  "timer_resume s =
     (if sec s = 2147483647 then Inl SignedOverflow
      else
        let s = s\<lparr>sec := sec s + 1\<rparr>;
            s = s\<lparr>clock_out := clock_out s @ clock_digits 0 (nat (sec s)), count := 0\<rparr>
        in Inr (s\<lparr>q := (\<lambda>i. if i < MAX_q then wake_sleeper (q s i) else q s i)\<rparr>))"

section \<open>Sleeping\<close>

text \<open>\<open>n\<close> completed seconds: the rest of the handler \<open>n\<close> times.\<close>

primrec seconds :: "nat \<Rightarrow> 'a clocked_scheme \<Rightarrow> 'a clocked_scheme res" where
  "seconds 0 s = Inr s"
| "seconds (Suc n) s = rbind (timer_resume s) (seconds n)"

lemma seconds_sleepers:
  "seconds n s = Inr s' \<Longrightarrow> r s' = r s \<and> (\<forall>i<MAX_q. q s' i = (wake_sleeper ^^ n) (q s i))"
  by (induction n arbitrary: s) (auto simp: res_simps timer_resume_def Let_def funpow_Suc_right
      simp del: funpow.simps(2) split: if_splits)

lemma seconds_total: "sec s + int n \<le> 2147483647 \<Longrightarrow> \<exists>s'. seconds n s = Inr s'"
  by (induction n arbitrary: s) (auto simp: timer_resume_def Let_def)

lemma wake_sleeper_SUSPENDED:
  "t_state t = SUSPENDED \<Longrightarrow> t_time t = int (Suc n) \<Longrightarrow>
     wake_sleeper t = t\<lparr>t_time := int n, t_state := (if n = 0 then RUNNING else SUSPENDED)\<rparr>"
  by (cases t) (simp add: wake_sleeper_def Let_def)

lemma wake_sleeper_awake: "t_state t \<noteq> SUSPENDED \<Longrightarrow> (wake_sleeper ^^ k) t = t"
  by (induction k) (simp_all add: wake_sleeper_def Let_def)

lemma wake_sleeper_negative: "t_time t < 0 \<Longrightarrow> (wake_sleeper ^^ k) t = t"
  by (induction k) (simp_all add: wake_sleeper_def Let_def)

lemma sleeper_after:
  "t_state t = SUSPENDED \<Longrightarrow> t_time t = int n \<Longrightarrow> 0 < n \<Longrightarrow>
     t_state ((wake_sleeper ^^ k) t) = (if k < n then SUSPENDED else RUNNING)"
proof (induction k arbitrary: t n)
  case (Suc k)
  then obtain m where m: "n = Suc m" by (cases n) auto
  note ws = wake_sleeper_SUSPENDED [OF Suc.prems(1), of m]
  show ?case
  proof (cases "m = 0")
    case True
    then show ?thesis using Suc.prems m ws by (simp add: funpow_Suc_right wake_sleeper_awake del: funpow.simps(2))
  next
    case False
    then have "t_state ((wake_sleeper ^^ k) (wake_sleeper t)) = (if k < m then SUSPENDED else RUNNING)"
      using Suc.prems m ws by (intro Suc.IH) auto
    then show ?thesis by (simp add: m funpow_Suc_right del: funpow.simps(2))
  qed
qed simp

lemma sleep_marks:
  assumes inv: "proc_inv s" and n: "n \<noteq> 0" and run: "sleep n s = Inr s'"
  shows "t_state (q s' (r s)) = SUSPENDED \<and> t_time (q s' (r s)) = sint n"
proof -
  let ?s = "set_task (r s) ((cur s)\<lparr>t_time := sint n, t_state := SUSPENDED\<rparr>) s"
  have ok: "cur_ok ?s" using proc_inv_cur [OF inv] by (simp add: cur_ok_def)
  have y: "yield ?s = Inr s'" using run n by (simp add: sleep_def)
  show ?thesis using yield_task_frame(1,4) [OF ok y, of "r s"] by simp
qed

text \<open>
  C17. A task that sleeps for \<open>n\<close> seconds, \<open>0 < n < 2 ^ 31\<close>, is suspended by the call, stays
  suspended for exactly \<open>n\<close> completed clock seconds and is runnable from then on.
\<close>

theorem sleep_wakes_on_time:
  assumes inv: "proc_inv s" and n: "0 < unat n" "unat n < 2 ^ 31"
    and run: "sleep n s = Inr s'" and sec: "seconds k s' = Inr s''"
  shows "t_state (q s' (r s)) = SUSPENDED \<and>
    t_state (q s'' (r s)) = (if k < unat n then SUSPENDED else RUNNING)"
proof -
  have t: "t_state (q s' (r s)) = SUSPENDED" "t_time (q s' (r s)) = int (unat n)"
    using sleep_marks [OF inv _ run] n sint_small [of n] by (auto simp: unat_gt_0)
  have "q s'' (r s) = (wake_sleeper ^^ k) (q s' (r s))"
    using seconds_sleepers [OF sec] proc_inv_cur [OF inv] by blast
  then show ?thesis using sleeper_after [OF t n(1), of k] t by simp
qed

text \<open>
  The seconds are kept in a signed \<open>int\<close>: a request of \<open>2 ^ 31\<close> seconds or more is stored as a
  negative number and the clock never makes the task runnable again.
\<close>

theorem sleep_too_long_never_wakes:
  assumes inv: "proc_inv s" and n: "2 ^ 31 \<le> unat n"
    and run: "sleep n s = Inr s'" and sec: "seconds k s' = Inr s''"
  shows "t_state (q s'' (r s)) = SUSPENDED"
proof -
  have "n \<noteq> 0" using n by auto
  then have t: "t_state (q s' (r s)) = SUSPENDED" "t_time (q s' (r s)) = sint n"
    using sleep_marks [OF inv _ run] by auto
  have "sint n < 0" using n by (intro sint_big) simp
  then have "(wake_sleeper ^^ k) (q s' (r s)) = q s' (r s)" using t by (simp add: wake_sleeper_negative)
  then show ?thesis using seconds_sleepers [OF sec] proc_inv_cur [OF inv] t by metis
qed

section \<open>Preemption\<close>

text \<open>Interrupts one after the other, until one preempts.\<close>

primrec ticks :: "nat \<Rightarrow> 'a clocked_scheme \<Rightarrow> (tick \<times> 'a clocked_scheme) res" where
  "ticks 0 s = Inr (Returned, s)"
| "ticks (Suc n) s = rbind (timer_tick s) (\<lambda>(t, s).
     case t of Returned \<Rightarrow> ticks n s | Preempted \<Rightarrow> Inr (Preempted, s))"

lemma ticks_append:
  "ticks (m + k) s = rbind (ticks m s) (\<lambda>(t, s). case t of Returned \<Rightarrow> ticks k s | Preempted \<Rightarrow> Inr (Preempted, s))"
proof (induction m arbitrary: s)
  case (Suc m)
  show ?case
  proof (cases "timer_tick s")
    case (Inr x)
    then show ?thesis using Suc by (cases x; cases "fst x") auto
  qed simp
qed simp

lemma ticks_below:
  "count s + int n < 18 \<Longrightarrow> ticks n s = Inr (Returned, s\<lparr>count := count s + int n\<rparr>)"
  by (induction n arbitrary: s) (simp_all add: timer_tick_def Let_def)

lemma ticks_above:
  "18 \<le> count s \<Longrightarrow> count s + int n \<le> 2147483647 \<Longrightarrow> ticks n s = Inr (Returned, s\<lparr>count := count s + int n\<rparr>)"
  by (induction n arbitrary: s) (simp_all add: timer_tick_def Let_def)

text \<open>
  Preemption works once: from a fresh counter the first 17 interrupts return to the running task
  and the 18th switches to another one, but the counter stays at 18 until the preempted task is back in
  the handler, and from there no interrupt preempts the task that runs, for all the \<open>2 ^ 31 - 19\<close>
  interrupts before the counter overflows.
\<close>

theorem timer_preempts_once:
  assumes ok: "cur_ok s" and c: "count s = 0"
  shows "ticks 17 s = Inr (Returned, s\<lparr>count := 17\<rparr>) \<and>
    (\<exists>s'. ticks 18 s = Inr (Preempted, s') \<and> r s' = rr_next MAX_q (runnable s) (r s) \<and> count s' = 18 \<and>
      (\<forall>n. int n \<le> 2147483647 - 18 \<longrightarrow> (\<exists>s''. ticks n s' = Inr (Returned, s'') \<and> r s'' = r s')))"
proof -
  have t17: "ticks 17 s = Inr (Returned, s\<lparr>count := 17\<rparr>)" using ticks_below [of s 17] c by simp

  let ?s = "s\<lparr>count := 18\<rparr>"
  have ok': "cur_ok ?s" using ok by (simp add: cur_ok_def)
  have same: "runnable ?s = runnable s" by (auto simp: runnable_def)
  obtain s' where s': "yield ?s = Inr s'" using yield_total ok' by blast
  have cs: "count s' = 18" using s' yield_eq [OF ok'] by auto
  have rs: "r s' = rr_next MAX_q (runnable s) (r s)" using yield_r [OF ok' s'] same by simp
  have "ticks 18 s = Inr (Preempted, s')" using ticks_append [of 17 1 s] t17 s' by (simp add: timer_tick_def Let_def)
  moreover have "\<exists>s''. ticks n s' = Inr (Returned, s'') \<and> r s'' = r s'" if "int n \<le> 2147483647 - 18" for n
    using ticks_above [of s' n] that cs by simp
  ultimately show ?thesis using t17 cs rs by blast
qed

section \<open>An example with a clock\<close>

definition example_clocked :: clocked where
  "example_clocked = kernel.extend example_procs (clocked.fields 0 0 [])"

lemma example_clocked_sel [simp]:
  "q example_clocked = q example_procs" "r example_clocked = 2" "count example_clocked = 0" "sec example_clocked = 0"
  by (simp_all add: example_clocked_def kernel.defs clocked.defs example_procs_tasks)

lemma example_clocked_inv: "proc_inv example_clocked"
  using example_procs_inv by (simp add: proc_inv_def cur_ok_def example_procs_tasks)

lemma example_sleep: "n \<noteq> 0 \<Longrightarrow> \<exists>s'. sleep n example_clocked = Inr s' \<and> sec s' = 0"
proof -
  assume "n \<noteq> 0"
  let ?s = "set_task 2 ((q example_procs 2)\<lparr>t_time := sint n, t_state := SUSPENDED\<rparr>) example_clocked"
  have "cur_ok ?s" by (simp add: cur_ok_def example_procs_tasks)
  then obtain s' where "yield ?s = Inr s'" "sec s' = 0" by (auto simp: yield_eq set_task_def)
  with \<open>n \<noteq> 0\<close> show ?thesis by (simp add: sleep_def)
qed

theorem sleep_wakes_on_time_witness:
  "\<exists>s' s''. sleep 5 example_clocked = Inr s' \<and> seconds 5 s' = Inr s'' \<and>
     t_state (q s' 2) = SUSPENDED \<and> t_state (q s'' 2) = RUNNING"
proof -
  obtain s' where s': "sleep 5 example_clocked = Inr s'" "sec s' = 0" using example_sleep [of 5] by auto
  obtain s'' where s'': "seconds 5 s' = Inr s''" using seconds_total [of s' 5] s'(2) by auto
  from sleep_wakes_on_time [OF example_clocked_inv _ _ s'(1) s''] s' s'' show ?thesis by simp
qed

theorem sleep_too_long_never_wakes_witness:
  "\<exists>s' s''. sleep 0x80000000 example_clocked = Inr s' \<and> seconds 1000 s' = Inr s'' \<and>
     t_state (q s'' 2) = SUSPENDED"
proof -
  obtain s' where s': "sleep 0x80000000 example_clocked = Inr s'" "sec s' = 0"
    using example_sleep [of "0x80000000"] by auto
  obtain s'' where s'': "seconds 1000 s' = Inr s''" using seconds_total [of s' 1000] s'(2) by auto
  from sleep_too_long_never_wakes [OF example_clocked_inv _ s'(1) s''] s' s'' show ?thesis by auto
qed

theorem timer_preempts_once_witness:
  "\<exists>s'. ticks 18 example_clocked = Inr (Preempted, s') \<and> count s' = 18 \<and>
     (\<exists>s''. ticks 100000 s' = Inr (Returned, s'') \<and> r s'' = r s')"
proof -
  have "cur_ok example_clocked" using proc_inv_cur example_clocked_inv by blast
  from timer_preempts_once [OF this] obtain s' where s': "ticks 18 example_clocked = Inr (Preempted, s')" "count s' = 18"
    and rest: "\<And>n. int n \<le> 2147483647 - 18 \<Longrightarrow> \<exists>s''. ticks n s' = Inr (Returned, s'') \<and> r s'' = r s'"
    by auto
  from rest [of 100000] s' show ?thesis by auto
qed

section \<open>The clock on the screen\<close>

text \<open>The number a list of digits stands for, each digit at its place.\<close>

definition clock_value :: "(nat \<times> int) list \<Rightarrow> int" where
  "clock_value ds = sum_list (map (\<lambda>(p, c). (c - 48) * 10 ^ (p div 2)) ds)"

lemma clock_value_digits: "clock_value (clock_digits (2 * k) n) = int n * 10 ^ k"
proof (induction n arbitrary: k rule: less_induct)
  case (less n)
  show ?case
  proof (cases "n = 0")
    case False
    then have IH: "clock_value (clock_digits (2 * Suc k) (n div 10)) = int (n div 10) * 10 ^ Suc k"
      using less [of "n div 10" "Suc k"] by simp
    have "clock_value (clock_digits (2 * k) n) = int (n mod 10) * 10 ^ k + clock_value (clock_digits (2 * Suc k) (n div 10))"
      using False by (subst clock_digits.simps) (simp add: clock_value_def)
    also have "\<dots> = (int (n mod 10) + int (n div 10) * 10) * 10 ^ k" unfolding IH by (simp add: algebra_simps)
    also have "int (n mod 10) + int (n div 10) * 10 = int n" by presburger
    finally show ?thesis .
  qed (simp add: clock_value_def clock_digits.simps)
qed

lemma clock_digits_chars: "(p, c) \<in> set (clock_digits reg n) \<Longrightarrow> 48 \<le> c \<and> c \<le> 57"
proof (induction n arbitrary: reg rule: less_induct)
  case (less n)
  then show ?case
    by (subst (asm) (2) clock_digits.simps) (auto split: if_splits dest: less.IH [rotated])
qed

text \<open>
  A completed second resets the interrupt counter, counts the second, and writes exactly the
  decimal digits of the new count to the clock: every byte is a digit, and at their places they read
  as the number.
\<close>

theorem timer_resume_shows_seconds:
  assumes run: "timer_resume s = Inr s'" and "0 \<le> sec s"
  shows "\<exists>ds. clock_out s' = clock_out s @ ds \<and> clock_value ds = sec s + 1 \<and>
    (\<forall>(p, c) \<in> set ds. 48 \<le> c \<and> c \<le> 57) \<and> sec s' = sec s + 1 \<and> count s' = 0"
proof -
  have "clock_value (clock_digits 0 (nat (sec s + 1))) = sec s + 1"
    using clock_value_digits [of 0 "nat (sec s + 1)"] assms(2) by simp
  then show ?thesis using run
    by (intro exI [of _ "clock_digits 0 (nat (sec s + 1))"])
      (auto simp: timer_resume_def Let_def split: if_splits dest: clock_digits_chars)
qed

theorem timer_resume_shows_seconds_witness:
  "\<exists>ds s'. timer_resume (example_clocked\<lparr>sec := 41\<rparr>) = Inr s' \<and> clock_out s' = clock_out example_clocked @ ds \<and>
     clock_value ds = 42"
proof -
  obtain s' where s': "timer_resume (example_clocked\<lparr>sec := 41\<rparr>) = Inr s'"
    by (simp add: timer_resume_def Let_def)
  from timer_resume_shows_seconds [OF this] s' show ?thesis by auto
qed

end
