(* ===== verification/Screen.thy ===== *)
theory Screen
  imports Prelude
begin

text \<open>
  The text console of \<^verbatim>\<open>sys/kprintf.c\<close>: cursor and video memory, scrolling, the number
  printers and the format interpreter. Addresses are offsets from
  \<^verbatim>\<open>0xffffffff800b8000\<close>, the base of the video memory.
\<close>

section \<open>Operations\<close>

record screen =
  vram :: "int \<Rightarrow> char"
  p_reg :: int
  h_offset :: int
  v_offset :: int

definition store :: "int \<Rightarrow> char \<Rightarrow> screen \<Rightarrow> screen" where
  "store a c s = s\<lparr>vram := (vram s)(a := c)\<rparr>"

definition clrscr :: "screen \<Rightarrow> screen" where
  "clrscr s =
     (let s = fold (\<lambda>i. fold (\<lambda>j s.
                let s = store (p_reg s) (CHR '' '') s;
                    s = store (p_reg s - 1) (CHR 0x07) s
                in s\<lparr>p_reg := p_reg s + 2\<rparr>) [0..<80]) [0..<25] (s\<lparr>p_reg := 0\<rparr>)
      in s\<lparr>p_reg := 0, h_offset := 0, v_offset := 0\<rparr>)"

definition scroll :: "screen \<Rightarrow> screen" where
  "scroll s =
     (let s = fold (\<lambda>i. fold (\<lambda>j s.
                let prev = i * 160 + 2 * j; nxt = (i + 1) * 160 + 2 * j
                in store prev (vram s nxt) s) (map int [0..<80])) (map int [0..<24]) s;
          s = s\<lparr>p_reg := 160 * 23\<rparr>;
          s = fold (\<lambda>j s. store (p_reg s + 2 * j) (CHR 0x00) s) (map int [0..<80]) s
      in s\<lparr>p_reg := 160 * 23\<rparr>)"

definition put_to_screen :: "char \<Rightarrow> screen \<Rightarrow> screen" where
  "put_to_screen a s =
     (if a = CHR 0x0A then
        let s = s\<lparr>p_reg := 2 * (80 * (v_offset s + 1))\<rparr>;
            s = (if v_offset s = 23 then scroll s else s\<lparr>v_offset := v_offset s + 1\<rparr>)
        in s\<lparr>h_offset := 0\<rparr>
      else
        let s = (if a = CHR 0x0D then s\<lparr>p_reg := 2 * (80 * v_offset s), h_offset := 0\<rparr>
                 else (store (p_reg s) a s)\<lparr>p_reg := p_reg s + 2\<rparr>)
        in if h_offset s = 79 then
             if v_offset s = 23 then (scroll s)\<lparr>p_reg := 160 * 22, h_offset := 0\<rparr>
             else s\<lparr>v_offset := v_offset s + 1, h_offset := 0\<rparr>
           else s\<lparr>h_offset := h_offset s + 1\<rparr>)"

definition backspace :: "screen \<Rightarrow> screen" where
  "backspace s =
     (if h_offset s = 0 then s
      else
        let s = s\<lparr>h_offset := h_offset s - 1, p_reg := p_reg s - 2\<rparr>;
            s = put_to_screen (CHR '' '') s
        in s\<lparr>h_offset := h_offset s - 1, p_reg := p_reg s - 2\<rparr>)"

definition digit :: "nat \<Rightarrow> char" where
  "digit d = char_of (48 + d)"

lemma digit_0: "digit 0 = CHR ''0''"
  by code_simp

text \<open>The loop of \<^verbatim>\<open>print_int\<close> on a number that is not negative.\<close>

function print_int_loop :: "nat \<Rightarrow> nat \<Rightarrow> bool \<Rightarrow> screen \<Rightarrow> screen" where
  "print_int_loop i j lead_zero s =
     (if j = 0 then s
      else if lead_zero \<and> i div j = 0 then print_int_loop i (j div 10) lead_zero s
      else print_int_loop (i mod j) (j div 10) False (put_to_screen (digit (i div j)) s))"
  by pat_completeness auto
termination
  by (relation "measure (\<lambda>(i, j, l, s). j)") auto

declare print_int_loop.simps [simp del]

definition print_int :: "int \<Rightarrow> screen \<Rightarrow> screen res" where
  "print_int i s =
     (let s = (if i = 0 then put_to_screen (CHR ''0'') s else s) in
      if i < 0 then
        let s = put_to_screen (CHR ''-'') s in
        if i = - 2147483648 then Inl SignedOverflow
        else Inr (print_int_loop (nat (- i)) 1000000000 True s)
      else Inr (print_int_loop (nat i) 1000000000 True s))"

definition hex_digit :: "int \<Rightarrow> char" where
  "hex_digit k = (if k < 10 then char_of (48 + k) else char_of (65 + (k - 10)))"

text \<open>The buffer \<^verbatim>\<open>a\<close> of \<^verbatim>\<open>print_pointer\<close>, which is printed from its end.\<close>

function pointer_digits :: "u64 \<Rightarrow> char list" where
  "pointer_digits i = (if i \<noteq> 0 then hex_digit (uint (i mod 16)) # pointer_digits (i div 16) else [])"
  by pat_completeness auto
termination
proof (relation "measure unat")
  fix i :: u64 assume "i \<noteq> 0"
  then have "unat i \<noteq> 0" by (simp add: unsigned_eq_0_iff)
  then show "(i div 16, i) \<in> measure unat" by (simp add: unat_div)
qed simp

declare pointer_digits.simps [simp del]

definition print_pointer :: "u64 \<Rightarrow> screen \<Rightarrow> screen" where
  "print_pointer i s = fold put_to_screen (rev (pointer_digits i)) s"

function hex_digits :: "int \<Rightarrow> char list" where
  "hex_digits i = (if i \<noteq> 0 then hex_digit (cmod i 16) # hex_digits (cdiv i 16) else [])"
  by pat_completeness auto
termination
proof (relation "measure (nat \<circ> abs)")
  fix i :: int assume "i \<noteq> 0"
  then have "\<bar>cdiv i 16\<bar> < \<bar>i\<bar>" by (simp add: cdiv_def abs_mult)
  then show "(cdiv i 16, i) \<in> measure (nat \<circ> abs)" by simp
qed simp

declare hex_digits.simps [simp del]

definition print_hex :: "int \<Rightarrow> screen \<Rightarrow> screen" where
  "print_hex i s = fold put_to_screen (rev (hex_digits i)) s"

text \<open>The arguments of a call.\<close>

datatype varg = VInt int | VStr string | VPtr u64

text \<open>
  The interpreter. A conversion or escape it does not know leaves the pointer where it is, so
  the loop never ends.
\<close>

fun parse_str :: "string \<Rightarrow> varg list \<Rightarrow> screen \<Rightarrow> screen res" where
  "parse_str [] as s = Inr s"
| "parse_str (c # cs) as s =
     (if c = CHR ''%'' then
        (case cs of
           [] \<Rightarrow> Inl Hang
         | d # ds \<Rightarrow>
             if d = CHR ''d'' then
               (case as of VInt i # as \<Rightarrow> rbind (print_int i s) (parse_str ds as) | _ \<Rightarrow> Inl BadArgument)
             else if d = CHR ''c'' then
               (case as of VInt i # as \<Rightarrow> parse_str ds as (put_to_screen (char_of i) s) | _ \<Rightarrow> Inl BadArgument)
             else if d = CHR ''s'' then
               (case as of VStr a # as \<Rightarrow> parse_str ds as (fold put_to_screen a s) | _ \<Rightarrow> Inl BadArgument)
             else if d = CHR ''x'' then
               (case as of VInt i # as \<Rightarrow> parse_str ds as (print_hex i s) | _ \<Rightarrow> Inl BadArgument)
             else if d = CHR ''p'' then
               (case as of
                  VPtr p # as \<Rightarrow>
                    parse_str ds as (print_pointer p (put_to_screen (CHR ''x'') (put_to_screen (CHR ''0'') s)))
                | _ \<Rightarrow> Inl BadArgument)
             else Inl Hang)
      else if c = CHR 0x5C then
        (case cs of
           [] \<Rightarrow> Inl Hang
         | d # ds \<Rightarrow>
             if d = CHR ''n'' then parse_str ds as (put_to_screen (CHR 0x0A) s)
             else if d = CHR ''r'' then parse_str ds as (put_to_screen (CHR 0x0D) s)
             else Inl Hang)
      else parse_str cs as (put_to_screen c s))"

definition kprintf :: "string \<Rightarrow> varg list \<Rightarrow> screen \<Rightarrow> screen res" where
  "kprintf fmt as s = parse_str fmt as s"

section \<open>Scrolling\<close>

lemma store_sel [simp]:
  "vram (store a c s) = (vram s)(a := c)" "p_reg (store a c s) = p_reg s"
  "h_offset (store a c s) = h_offset s" "v_offset (store a c s) = v_offset s"
  by (simp_all add: store_def)

text \<open>The character cells of the rows below \<open>n\<close>.\<close>

definition cells :: "int \<Rightarrow> int set" where
  "cells n = {160 * i + 2 * j | i j. 0 \<le> i \<and> i < n \<and> 0 \<le> j \<and> j < 80}"

definition row_cells :: "int \<Rightarrow> int \<Rightarrow> int set" where
  "row_cells i n = {160 * i + 2 * j | j. 0 \<le> j \<and> j < n}"

lemma cells_Suc:
  assumes "0 \<le> n"
  shows "cells (n + 1) = cells n \<union> row_cells n 80"
proof (intro set_eqI iffI)
  fix a assume "a \<in> cells n \<union> row_cells n 80"
  then show "a \<in> cells (n + 1)" using \<open>0 \<le> n\<close> by (force simp: cells_def row_cells_def)
next
  fix a assume "a \<in> cells (n + 1)"
  then obtain i j where a: "a = 160 * i + 2 * j" "0 \<le> i" "i < n + 1" "0 \<le> j" "j < 80" by (auto simp: cells_def)
  show "a \<in> cells n \<union> row_cells n 80"
  proof (cases "i = n")
    case True
    with a show ?thesis by (auto simp: row_cells_def)
  next
    case False
    with a have "i < n" by simp
    with a show ?thesis unfolding cells_def by blast
  qed
qed

lemma cells_0: "cells 0 = {}"
  by (auto simp: cells_def)

lemma row_cells_Suc: "0 \<le> n \<Longrightarrow> row_cells i (1 + n) = insert (160 * i + 2 * n) (row_cells i n)"
  by (auto simp: row_cells_def)

lemma row_below: "a \<in> row_cells i 80 \<Longrightarrow> 0 \<le> i \<Longrightarrow> a + 160 \<notin> cells (i + 1)"
  by (auto simp: row_cells_def cells_def)

lemma row_disjoint: "a \<in> row_cells i 80 \<Longrightarrow> 0 \<le> i \<Longrightarrow> a \<notin> cells i"
  by (auto simp: row_cells_def cells_def)

definition copy_row :: "int \<Rightarrow> screen \<Rightarrow> screen" where
  "copy_row i s = fold (\<lambda>j s. store (i * 160 + 2 * j) (vram s ((i + 1) * 160 + 2 * j)) s) (map int [0..<80]) s"

lemma copy_row_prefix:
  "n \<le> 80 \<Longrightarrow>
   (let t = fold (\<lambda>j s. store (i * 160 + 2 * j) (vram s ((i + 1) * 160 + 2 * j)) s) (map int [0..<n]) s in
    vram t = (\<lambda>a. if a \<in> row_cells i (int n) then vram s (a + 160) else vram s a) \<and>
    p_reg t = p_reg s \<and> h_offset t = h_offset s \<and> v_offset t = v_offset s)"
proof (induction n)
  case 0
  then show ?case by (auto simp: row_cells_def fun_eq_iff)
next
  case (Suc n)
  have "160 * i + 2 * int n \<notin> row_cells i (int n)" "(i + 1) * 160 + 2 * int n \<notin> row_cells i (int n)"
    using Suc.prems by (auto simp: row_cells_def)
  with Suc show ?case
    by (auto simp: Let_def row_cells_Suc algebra_simps fun_eq_iff)
qed

lemma copy_row_effect:
  "vram (copy_row i s) = (\<lambda>a. if a \<in> row_cells i 80 then vram s (a + 160) else vram s a)"
  "p_reg (copy_row i s) = p_reg s" "h_offset (copy_row i s) = h_offset s" "v_offset (copy_row i s) = v_offset s"
  using copy_row_prefix [of 80 i s] by (simp_all add: copy_row_def Let_def)

lemma copy_rows_effect:
  "let t = fold copy_row (map int [0..<n]) s in
   vram t = (\<lambda>a. if a \<in> cells (int n) then vram s (a + 160) else vram s a) \<and>
   p_reg t = p_reg s \<and> h_offset t = h_offset s \<and> v_offset t = v_offset s"
proof (induction n)
  case 0
  then show ?case by (simp add: cells_0)
next
  case (Suc n)
  have "a + 160 \<notin> cells (int n)" "a \<notin> cells (int n)" if "a \<in> row_cells (int n) 80" for a
    using that row_below [of a "int n"] row_disjoint [of a "int n"] cells_Suc [of "int n"] by auto
  with Suc show ?case
    using cells_Suc [of "int n"] by (auto simp: Let_def copy_row_effect fun_eq_iff add.commute)
qed

lemma clear_row_effect:
  "p_reg s = 160 * i \<Longrightarrow>
   (let t = fold (\<lambda>j s. store (p_reg s + 2 * j) (CHR 0x00) s) (map int [0..<n]) s in
    vram t = (\<lambda>a. if a \<in> row_cells i (int n) then CHR 0x00 else vram s a) \<and>
    p_reg t = p_reg s \<and> h_offset t = h_offset s \<and> v_offset t = v_offset s)"
proof (induction n)
  case 0
  then show ?case by (auto simp: row_cells_def fun_eq_iff)
next
  case (Suc n)
  then show ?case by (auto simp: Let_def row_cells_Suc fun_eq_iff)
qed

lemma scroll_eq:
  "scroll s = (let s = fold copy_row (map int [0..<24]) s; s = s\<lparr>p_reg := 160 * 23\<rparr>;
     s = fold (\<lambda>j s. store (p_reg s + 2 * j) (CHR 0x00) s) (map int [0..<80]) s in s\<lparr>p_reg := 160 * 23\<rparr>)"
  by (simp add: scroll_def copy_row_def [abs_def] Let_def)

lemma scroll_effect:
  "vram (scroll s) = (\<lambda>a. if a \<in> row_cells 23 80 then CHR 0x00 else if a \<in> cells 24 then vram s (a + 160) else vram s a)"
  "p_reg (scroll s) = 160 * 23" "h_offset (scroll s) = h_offset s" "v_offset (scroll s) = v_offset s"
proof -
  let ?t = "(fold copy_row (map int [0..<24]) s)\<lparr>p_reg := 160 * 23\<rparr>"
  note cr = copy_rows_effect [of 24 s, unfolded Let_def] and cl = clear_row_effect [of ?t 23 80, unfolded Let_def, simplified]
  have mid: "vram ?t = (\<lambda>a. if a \<in> cells 24 then vram s (a + 160) else vram s a)" using cr by simp
  have "vram (scroll s) = vram (fold (\<lambda>j s. store (p_reg s + 2 * j) (CHR 0x00) s) (map int [0..<80]) ?t)"
    by (simp add: scroll_eq Let_def)
  then show "vram (scroll s) = (\<lambda>a. if a \<in> row_cells 23 80 then CHR 0x00 else if a \<in> cells 24 then vram s (a + 160) else vram s a)"
    using cl mid by (simp cong: if_cong)
  show "p_reg (scroll s) = 160 * 23" by (simp add: scroll_eq Let_def)
  show "h_offset (scroll s) = h_offset s" "v_offset (scroll s) = v_offset s"
    using cr cl by (simp_all add: scroll_eq Let_def)
qed

section \<open>The cursor\<close>

text \<open>
  How far the write position may lag behind the row and column counters: not at all, one cell after a
  carriage return, one row after a wrap at the bottom of the screen.
\<close>

definition cursor_inv :: "screen \<Rightarrow> bool" where
  "cursor_inv s \<longleftrightarrow> 0 \<le> h_offset s \<and> h_offset s \<le> 79 \<and> 0 \<le> v_offset s \<and> v_offset s \<le> 23 \<and>
     (let lag = 160 * v_offset s + 2 * h_offset s - p_reg s in
      lag = 0 \<or> lag = 2 \<or> lag = 160 \<and> v_offset s = 23)"

definition in_step :: "screen \<Rightarrow> bool" where
  "in_step s \<longleftrightarrow> cursor_inv s \<and> p_reg s = 160 * v_offset s + 2 * h_offset s"

lemma put_to_screen_cursor: "cursor_inv s \<Longrightarrow> cursor_inv (put_to_screen a s)"
  by (auto simp: cursor_inv_def put_to_screen_def scroll_effect Let_def)

lemma backspace_cursor: "cursor_inv s \<Longrightarrow> cursor_inv (backspace s)"
  by (auto simp: cursor_inv_def backspace_def put_to_screen_def Let_def)

lemma clrscr_cursor: "cursor_inv (clrscr s)"
  by (simp add: cursor_inv_def clrscr_def Let_def)

inductive screen_step :: "screen \<Rightarrow> screen \<Rightarrow> bool" where
  put: "screen_step s (put_to_screen a s)"
| bs: "screen_step s (backspace s)"
| clear: "screen_step s (clrscr s)"

inductive_cases screen_stepE: "screen_step s t"

definition screen_boot :: "screen \<Rightarrow> bool" where
  "screen_boot s \<longleftrightarrow> p_reg s = 0 \<and> h_offset s = 0 \<and> v_offset s = 0"

interpretation console: invariant_machine screen_boot screen_step cursor_inv
proof unfold_locales
  show "cursor_inv s" if "screen_boot s" for s using that by (simp add: cursor_inv_def screen_boot_def)
  show "cursor_inv t" if "cursor_inv s" "screen_step s t" for s t
    using that(2,1) by cases (auto intro: put_to_screen_cursor backspace_cursor clrscr_cursor)
qed

text \<open>Where printing one character can change the video memory outside a scroll.\<close>

lemma put_writes:
  assumes "cursor_inv s" "vram (put_to_screen a s) x \<noteq> vram s x"
  shows "- 2 \<le> x \<and> x < 160 * 24"
proof -
  have "x = p_reg s \<or> x \<in> cells 24"
    using assms(2) row_cells_def cells_Suc [of 23]
    by (auto simp: put_to_screen_def scroll_effect Let_def split: if_splits)
  then show ?thesis using assms(1) by (auto simp: cursor_inv_def cells_def Let_def)
qed


definition example_screen :: screen where
  "example_screen = \<lparr>vram = (\<lambda>_. CHR '' ''), p_reg = 0, h_offset = 0, v_offset = 0\<rparr>"


text \<open>
  A newline in the last text row scrolls: every text row takes the characters of the row below it,
  the last one is blank and holds the cursor at its start; attribute bytes and the clock row stay.
\<close>

theorem newline_scrolls:
  assumes "v_offset s = 23"
  shows "let t = put_to_screen (CHR 0x0A) s in
    (\<forall>row col. 0 \<le> row \<and> row < 23 \<and> 0 \<le> col \<and> col < 80 \<longrightarrow>
       vram t (160 * row + 2 * col) = vram s (160 * (row + 1) + 2 * col)) \<and>
    (\<forall>col. 0 \<le> col \<and> col < 80 \<longrightarrow> vram t (160 * 23 + 2 * col) = CHR 0x00) \<and>
    (\<forall>a. odd a \<or> 160 * 24 \<le> a \<longrightarrow> vram t a = vram s a) \<and>
    p_reg t = 160 * 23 \<and> h_offset t = 0 \<and> v_offset t = 23"
proof -
  have t: "vram (put_to_screen (CHR 0x0A) s) = (\<lambda>a. if a \<in> row_cells 23 80 then CHR 0x00
      else if a \<in> cells 24 then vram s (a + 160) else vram s a)"
    using assms by (simp add: put_to_screen_def scroll_effect Let_def cong: if_cong)
  have "160 * row + 2 * col \<notin> row_cells 23 80" "160 * row + 2 * col \<in> cells 24"
    if "0 \<le> row" "row < 23" "0 \<le> col" "col < 80" for row col
  proof -
    show "160 * row + 2 * col \<notin> row_cells 23 80" using that by (auto simp: row_cells_def)
    have "row < 24" using that by simp
    then show "160 * row + 2 * col \<in> cells 24" unfolding cells_def using that by blast
  qed
  moreover have "160 * 23 + 2 * col \<in> row_cells 23 80" if "0 \<le> col" "col < 80" for col
    using that by (auto simp: row_cells_def)
  moreover have "a \<notin> row_cells 23 80 \<and> a \<notin> cells 24" if "odd a \<or> 160 * 24 \<le> a" for a
    using that by (auto simp: row_cells_def cells_def)
  ultimately show ?thesis using assms
    by (simp add: t Let_def algebra_simps) (simp add: put_to_screen_def scroll_effect Let_def)
qed

theorem newline_scrolls_witness:
  "let t = put_to_screen (CHR 0x0A) (example_screen\<lparr>v_offset := 23\<rparr>) in
     vram t (160 * 23 + 2 * 5) = CHR 0x00 \<and> p_reg t = 160 * 23 \<and> v_offset t = 23"
proof -
  have "v_offset (example_screen\<lparr>v_offset := 23\<rparr>) = 23" by simp
  note n = newline_scrolls [OF this, unfolded Let_def]
  show ?thesis
    unfolding Let_def using n [THEN conjunct2, THEN conjunct1, rule_format, of 5] n by simp
qed

text \<open>
  A character in the last column of the last text row does not advance to a fresh row: the line it
  completes is scrolled up to row 22 and the cursor is put at the start of that same row, so the next
  character overwrites the first one of the line just printed.
\<close>

theorem wrap_overwrites_line:
  assumes "v_offset s = 23" "h_offset s = 79" "p_reg s = 160 * 23 + 2 * 79"
    and "a \<noteq> CHR 0x0A" "a \<noteq> CHR 0x0D" "b \<noteq> CHR 0x0A" "b \<noteq> CHR 0x0D"
  shows "vram (put_to_screen a s) (160 * 22) = vram s (160 * 23) \<and>
    p_reg (put_to_screen a s) = 160 * 22 \<and> v_offset (put_to_screen a s) = 23 \<and>
    vram (put_to_screen b (put_to_screen a s)) (160 * 22) = b"
proof -
  have "160 * 22 \<notin> row_cells 23 80" by (auto simp: row_cells_def)
  moreover have "160 * 22 \<in> cells 24"
    unfolding cells_def by (intro CollectI exI [of _ 22] exI [of _ 0]) simp
  ultimately show ?thesis using assms by (simp add: put_to_screen_def scroll_effect Let_def)
qed

theorem wrap_overwrites_line_witness:
  "let s = example_screen\<lparr>p_reg := 160 * 23 + 2 * 79, v_offset := 23, h_offset := 79\<rparr> in
     vram (put_to_screen (CHR ''b'') (put_to_screen (CHR ''a'') s)) (160 * 22) = CHR ''b''"
  using wrap_overwrites_line [of "example_screen\<lparr>p_reg := 160 * 23 + 2 * 79, v_offset := 23, h_offset := 79\<rparr>"
      "CHR ''a''" "CHR ''b''"] by (simp add: Let_def)

section \<open>Numbers\<close>

text \<open>Decimal notation.\<close>

fun decimal :: "nat \<Rightarrow> string" where
  "decimal n = (if n < 10 then [digit n] else decimal (n div 10) @ [digit (n mod 10)])"

declare decimal.simps [simp del]

text \<open>What the loop prints once it has seen a digit: all places, zeros included.\<close>

fun places :: "nat \<Rightarrow> nat \<Rightarrow> string" where
  "places 0 i = [digit i]"
| "places (Suc k) i = digit (i div 10 ^ Suc k) # places k (i mod 10 ^ Suc k)"

lemma places_snoc: "places (Suc k) i = places k (i div 10) @ [digit (i mod 10)]"
proof (induction k arbitrary: i)
  case (Suc k)
  have "i mod 10 ^ Suc (Suc k) div 10 = i div 10 mod 10 ^ Suc k"
    using mod_mult2_eq [of i 10 "10 ^ Suc k"] by (simp only: power_Suc)
  moreover have "i mod 10 ^ Suc (Suc k) mod 10 = i mod 10" by (simp add: mod_mod_cancel)
  moreover have "i div 10 ^ Suc (Suc k) = i div 10 div 10 ^ Suc k"
    using div_mult2_eq [of i 10 "10 ^ Suc k"] by (simp only: power_Suc)
  ultimately show ?case using Suc [of "i mod 10 ^ Suc (Suc k)"] by simp
qed simp

lemma decimal_places: "10 ^ k \<le> i \<Longrightarrow> i < 10 ^ Suc k \<Longrightarrow> decimal i = places k i"
proof (induction k arbitrary: i)
  case 0
  then show ?case by (simp add: decimal.simps)
next
  case (Suc k)
  then have "10 ^ k \<le> i div 10" "i div 10 < 10 ^ Suc k" by (simp_all add: less_eq_div_iff_mult_less_eq less_mult_imp_div_less mult.commute)
  then have "decimal (i div 10) = places k (i div 10)" by (rule Suc.IH)
  moreover have "\<not> i < 10"
  proof -
    have "10 * 1 \<le> 10 * (10 ^ k :: nat)" by (rule mult_le_mono2) simp
    also have "\<dots> \<le> i" using Suc.prems(1) by simp
    finally show ?thesis by simp
  qed
  ultimately show ?case by (subst decimal.simps) (simp only: places_snoc if_False)
qed

lemma loop_places:
  "print_int_loop i (10 ^ k) False s = fold put_to_screen (places k i) s"
proof (induction k arbitrary: i s)
  case 0
  then show ?case by (subst print_int_loop.simps) (simp add: print_int_loop.simps)
next
  case (Suc k)
  then show ?case by (subst print_int_loop.simps) simp
qed

lemma loop_decimal:
  "0 < i \<Longrightarrow> i < 10 ^ Suc k \<Longrightarrow> print_int_loop i (10 ^ k) True s = fold put_to_screen (decimal i) s"
proof (induction k)
  case 0
  then show ?case
    by (subst print_int_loop.simps) (simp add: print_int_loop.simps decimal.simps)
next
  case (Suc k)
  show ?case
  proof (cases "i < 10 ^ Suc k")
    case True
    then show ?thesis using Suc by (subst print_int_loop.simps) simp
  next
    case False
    then have "i div 10 ^ Suc k \<noteq> 0" by (simp add: div_eq_0_iff)
    then have "print_int_loop i (10 ^ Suc k) True s = fold put_to_screen (places (Suc k) i) s"
      by (subst print_int_loop.simps) (simp add: loop_places)
    then show ?thesis using False Suc.prems by (simp only: decimal_places not_less)
  qed
qed

text \<open>
  \<open>print_int\<close> prints the decimal notation of its argument, with a sign when it is negative and a
  single zero for zero, for every \<open>int\<close> but the least, whose negation overflows.
\<close>

theorem print_int_decimal:
  assumes "- 2147483648 \<le> i" "i < 2147483648"
  shows "print_int i s =
    (if i = - 2147483648 then Inl SignedOverflow
     else Inr (fold put_to_screen ((if i < 0 then [CHR ''-''] else []) @ decimal (nat \<bar>i\<bar>)) s))"
proof -
  have loop: "print_int_loop n 1000000000 True t = fold put_to_screen (decimal n) t" if "0 < n" "n \<le> 2147483647" for n t
    using loop_decimal [of n 9 t] that by simp
  have zero: "print_int_loop 0 j True t = t" for j t
    by (induction j rule: less_induct) (subst print_int_loop.simps, simp)
  show ?thesis using assms loop
    by (auto simp: print_int_def Let_def zero decimal.simps [of 0] digit_0)
qed

theorem print_int_decimal_witness:
  "print_int (- 42) example_screen = Inr (fold put_to_screen [CHR ''-'', CHR ''4'', CHR ''2''] example_screen)"
proof -
  have "decimal 42 = [CHR ''4'', CHR ''2'']" by code_simp
  then show ?thesis using print_int_decimal [of "- 42" example_screen] by simp
qed

text \<open>Hexadecimal notation of a word, most significant digit first, empty for zero.\<close>

fun hex_value :: "char list \<Rightarrow> nat" where
  "hex_value [] = 0"
| "hex_value (c # cs) = (let d = of_char c in if d < 65 then d - 48 else d - 55) + 16 * hex_value cs"

lemma hex_digit_value:
  assumes "0 \<le> k" "k < 16"
  shows "(let d = of_char (hex_digit k) in if d < 65 then d - 48 else d - 55 :: nat) = nat k"
proof -
  have "k \<in> set (map int [0..<16])" using assms by (auto intro!: image_eqI [of _ _ "nat k"])
  moreover have "\<forall>k \<in> set (map int [0..<16]). (let d = of_char (hex_digit k) in if d < 65 then d - 48 else d - 55 :: nat) = nat k"
    by code_simp
  ultimately show ?thesis by blast
qed

lemma pointer_digits_value: "hex_value (pointer_digits i) = unat i"
proof (induction i rule: pointer_digits.induct)
  case (1 i)
  show ?case
  proof (cases "i = 0")
    case False
    have m: "0 \<le> uint (i mod 16)" "uint (i mod 16) < 16" by (simp_all add: uint_mod)
    have "hex_value (pointer_digits i) = nat (uint (i mod 16)) + 16 * unat (i div 16)"
      using 1 False hex_digit_value [OF m] by (subst pointer_digits.simps) simp
    also have "\<dots> = unat i mod 16 + 16 * (unat i div 16)" by (simp add: uint_mod unat_div nat_mod_distrib)
    finally show ?thesis by simp
  qed (simp add: pointer_digits.simps)
qed

lemma pointer_digits_length: "i \<noteq> 0 \<Longrightarrow> 16 ^ (length (pointer_digits i) - 1) \<le> unat i"
proof (induction i rule: pointer_digits.induct)
  case (1 i)
  then have dig: "pointer_digits i = hex_digit (uint (i mod 16)) # pointer_digits (i div 16)"
    by (subst pointer_digits.simps) simp
  show ?case
  proof (cases "i div 16 = 0")
    case True
    have "0 < unat i" using 1(2) by (simp add: unat_gt_0)
    with True show ?thesis by (simp add: dig pointer_digits.simps [of 0])
  next
    case False
    then have "pointer_digits (i div 16) \<noteq> []" by (subst pointer_digits.simps) simp
    then have "length (pointer_digits (i div 16)) = Suc (length (pointer_digits (i div 16)) - 1)" by simp
    moreover have "16 ^ (length (pointer_digits (i div 16)) - 1) \<le> unat i div 16"
      using 1 False by (simp add: unat_div)
    ultimately show ?thesis by (simp add: dig) (metis power_Suc mult.commute less_eq_div_iff_mult_less_eq zero_less_numeral)
  qed
qed

text \<open>
  \<open>print_pointer\<close> prints the hexadecimal digits of its argument: read back they give the address,
  there are at most 16 of them, within the 32 bytes of the buffer, and none at all for a null pointer.
\<close>

theorem print_pointer_hex:
  "\<exists>ds. print_pointer i s = fold put_to_screen (rev ds) s \<and> hex_value ds = unat i \<and> length ds \<le> 16 \<and>
     (ds = [] \<longleftrightarrow> i = 0)"
proof -
  have "length (pointer_digits i) \<le> 16"
  proof (rule ccontr)
    assume "\<not> length (pointer_digits i) \<le> 16"
    then have "16 \<le> length (pointer_digits i) - 1" "i \<noteq> 0" by (auto simp: pointer_digits.simps [of 0])
    then have "(16 :: nat) ^ 16 \<le> 16 ^ (length (pointer_digits i) - 1)" by (intro power_increasing) simp_all
    also have "\<dots> \<le> unat i" using \<open>i \<noteq> 0\<close> by (rule pointer_digits_length)
    finally have "2 ^ 64 \<le> unat i" by simp
    moreover have "unat i < 2 ^ 64" using unsigned_less [of i] by simp
    ultimately show False by simp
  qed
  moreover have "pointer_digits i = [] \<longleftrightarrow> i = 0" by (subst pointer_digits.simps) simp
  ultimately show ?thesis unfolding print_pointer_def using pointer_digits_value by blast
qed

section \<open>Formats\<close>

lemma parse_str_plain:
  "CHR ''%'' \<notin> set t \<Longrightarrow> CHR 0x5C \<notin> set t \<Longrightarrow> parse_str (t @ u) as s = parse_str u as (fold put_to_screen t s)"
  by (induction t arbitrary: s) auto

text \<open>
  Text without \<open>%\<close> and backslash is printed as it stands, a string argument verbatim whatever
  characters it has, and a conversion character \<open>kprintf\<close> does not know keeps it in its loop for ever.
\<close>

theorem kprintf_formats:
  assumes "CHR ''%'' \<notin> set t" "CHR 0x5C \<notin> set t"
  shows "kprintf t as s = Inr (fold put_to_screen t s) \<and>
    kprintf (t @ ''%s'') [VStr a] s = Inr (fold put_to_screen (t @ a) s) \<and>
    (d \<notin> set ''dcsxp'' \<longrightarrow> kprintf (t @ CHR ''%'' # d # u) as s = Inl Hang)"
  using parse_str_plain [OF assms, of "[]" as s] parse_str_plain [OF assms, of "''%s''" "[VStr a]" s]
    parse_str_plain [OF assms, of "CHR ''%'' # d # u" as s]
  by (simp add: kprintf_def)

theorem kprintf_formats_witness:
  "kprintf ''Id'' [] example_screen = Inr (fold put_to_screen ''Id'' example_screen) \<and>
   kprintf (''Id'' @ CHR ''%'' # CHR ''u'' # []) [] example_screen = Inl Hang"
  using kprintf_formats [of "''Id''" "[]" example_screen "''''" "CHR ''u''" "[]"] by simp

end
