(* ===== verification/Terminal.thy ===== *)
theory Terminal
  imports Timer Screen
begin

text \<open>
  The line discipline of \<^verbatim>\<open>sys/terminal.c\<close>: the keyboard interrupt handler
  \<^verbatim>\<open>write_terminal\<close> fills the buffer and echoes, \<^verbatim>\<open>read_input\<close> hands lines to
  reading tasks. The keyboard port is read twice by the handler; both values are arguments.
\<close>

section \<open>Operations\<close>

record terminal = clocked +
  scr :: screen
  buf :: "nat \<Rightarrow> char"
  tb_i :: nat
  offset :: nat
  caps :: bool
  ctrl :: bool
  no_lines :: int

abbreviation n_buf :: nat where "n_buf \<equiv> 4096"

definition code_map :: "(char \<times> char) list" where
  "code_map = [
     (CHR 0x00, CHR 0x00), (CHR 0x00, CHR 0x00), (CHR ''1'', CHR ''!''), (CHR ''2'', CHR ''@''),
     (CHR ''3'', CHR ''#''), (CHR ''4'', CHR ''$''), (CHR ''5'', CHR ''%''), (CHR ''6'', CHR ''^''),
     (CHR ''7'', CHR ''&''), (CHR ''8'', CHR ''*''), (CHR ''9'', CHR ''(''), (CHR ''0'', CHR '')''),
     (CHR ''-'', CHR ''_''), (CHR ''='', CHR ''+''), (CHR 0x08, CHR 0x08), (CHR 0x09, CHR 0x09),
     (CHR ''q'', CHR ''Q''), (CHR ''w'', CHR ''W''), (CHR ''e'', CHR ''E''), (CHR ''r'', CHR ''R''),
     (CHR ''t'', CHR ''T''), (CHR ''y'', CHR ''Y''), (CHR ''u'', CHR ''U''), (CHR ''i'', CHR ''I''),
     (CHR ''o'', CHR ''O''), (CHR ''p'', CHR ''P''), (CHR ''['', CHR ''{''), (CHR '']'', CHR ''}''),
     (CHR ''^'', CHR ''M''), (CHR '' '', CHR ''^''), (CHR ''a'', CHR ''A''), (CHR ''s'', CHR ''S''),
     (CHR ''d'', CHR ''D''), (CHR ''f'', CHR ''F''), (CHR ''g'', CHR ''G''), (CHR ''h'', CHR ''H''),
     (CHR ''j'', CHR ''J''), (CHR ''k'', CHR ''K''), (CHR ''l'', CHR ''L''), (CHR '';'', CHR '':''),
     (CHR 0x27, CHR 0x22), (CHR 0x60, CHR ''~''), (CHR 0x00, CHR 0x00), (CHR 0x5C, CHR ''|''),
     (CHR ''z'', CHR ''Z''), (CHR ''x'', CHR ''X''), (CHR ''c'', CHR ''C''), (CHR ''v'', CHR ''V''),
     (CHR ''b'', CHR ''B''), (CHR ''n'', CHR ''N''), (CHR ''m'', CHR ''M''), (CHR '','', CHR ''<''),
     (CHR ''.'', CHR ''>''), (CHR ''/'', CHR ''?''), (CHR 0x00, CHR 0x00), (CHR 0x00, CHR 0x00),
     (CHR 0x00, CHR 0x00), (CHR '' '', CHR '' '')]"

text \<open>\<^verbatim>\<open>code_map[c][shift]\<close>; the table has 58 rows.\<close>

definition key_char :: "nat \<Rightarrow> bool \<Rightarrow> char res" where
  "key_char c shift =
     (if c < length code_map then Inr (if shift then snd (code_map ! c) else fst (code_map ! c))
      else Inl OutOfBounds)"

text \<open>Echo a character and append it to the buffer.\<close>

definition put_key :: "char \<Rightarrow> 'a terminal_scheme \<Rightarrow> 'a terminal_scheme res" where
  "put_key k s =
     rbind (kprintf ''%c'' [VInt (of_char k)] (scr s)) (\<lambda>v.
     if tb_i s \<ge> n_buf then Inl BufferOverflow
     else Inr (s\<lparr>scr := v, buf := (buf s)(tb_i s := k), tb_i := tb_i s + 1\<rparr>))"

definition wake_process :: "'a kernel_scheme \<Rightarrow> 'a kernel_scheme" where
  "wake_process s =
     (case find (\<lambda>i. t_state (q s i) = SLEEPING) [0..<MAX_q] of
        None \<Rightarrow> s
      | Some i \<Rightarrow> set_task i ((q s i)\<lparr>t_state := RUNNING\<rparr>) s)"

definition write_terminal :: "nat \<Rightarrow> nat \<Rightarrow> 'a terminal_scheme \<Rightarrow> 'a terminal_scheme res" where
  "write_terminal port1 port2 s =
     (let c = (if port1 \<noteq> 0 then port2 else 0) in
      if c > 0 then
        if c > 58 then Inr s
        else if c = 14 then
          if offset s \<noteq> tb_i s then
            if tb_i s = 0 then Inl OutOfBounds
            else Inr (s\<lparr>buf := (buf s)(tb_i s - 1 := CHR 0x00), tb_i := tb_i s - 1, scr := backspace (scr s)\<rparr>)
          else Inr s
        else if c = 28 then
          rbind (kprintf [CHR 0x0A] [] (scr s)) (\<lambda>v.
          if tb_i s \<ge> n_buf then Inl BufferOverflow
          else if no_lines s = 2147483647 then Inl SignedOverflow
          else Inr (wake_process (s\<lparr>scr := v, buf := (buf s)(tb_i s := CHR 0x0A),
                      no_lines := no_lines s + 1, tb_i := tb_i s + 1\<rparr>)))
        else if c = 29 then
          rbind (key_char c True) (\<lambda>k. put_key k (s\<lparr>ctrl := True\<rparr>))
        else if c = 42 \<or> c = 54 then Inr (s\<lparr>caps := True\<rparr>)
        else
          let s = (if ctrl s then s\<lparr>ctrl := False, caps := True\<rparr> else s) in
          rbind (key_char c (caps s)) (\<lambda>k. put_key k (s\<lparr>caps := False\<rparr>))
      else Inr s)"

text \<open>
  The loop of \<^verbatim>\<open>read_input\<close> over the buffer: the characters it stores for the caller, and
  whether it met a newline.
\<close>

function read_line :: "nat \<Rightarrow> 'a terminal_scheme \<Rightarrow> string \<times> bool \<times> 'a terminal_scheme" where
  "read_line i s =
     (if i < n_buf then
        if buf s i = CHR 0x0A then
          ([], True, s\<lparr>offset := i + 1, no_lines := no_lines s - 1,
                      q := (q s)(r s := (cur s)\<lparr>t_state := RUNNING\<rparr>)\<rparr>)
        else
          let (b, done, s') = read_line (i + 1) (s\<lparr>buf := (buf s)(i := CHR 0x00)\<rparr>)
          in (buf s i # b, done, s')
      else ([], False, s))"
  by pat_completeness auto
termination
  by (relation "measure (\<lambda>(i, s). n_buf - i)") auto

declare read_line.simps [simp del]

text \<open>
  One round of \<^verbatim>\<open>read_input\<close>, from its start or when the task is scheduled again: the
  characters stored, and whether the call returned or gave up the processor.
\<close>

definition read_input :: "'a terminal_scheme \<Rightarrow> (string \<times> bool \<times> 'a terminal_scheme) res" where
  "read_input s =
     (if no_lines s > 0 then
        let (b, done, s) = read_line (offset s) s in
        if done then Inr (b, True, s)
        else rbind (yield s) (\<lambda>s. Inr (b, False, s))
      else rbind (yield (set_task (r s) ((cur s)\<lparr>t_state := SLEEPING\<rparr>) s)) (\<lambda>s. Inr ([], False, s)))"

section \<open>The line editor\<close>

text \<open>The characters typed and not yet handed out.\<close>

definition pending :: "'a terminal_scheme \<Rightarrow> string" where
  "pending s = map (buf s) [offset s..<tb_i s]"

text \<open>What a key does to the line: backspace drops the last character, any other key adds its own.\<close>

definition edit_key :: "string \<Rightarrow> nat \<Rightarrow> string" where
  "edit_key line c = (if c = 14 then butlast line else line @ [fst (code_map ! c)])"

definition edit_code :: "nat \<Rightarrow> bool" where
  "edit_code c \<longleftrightarrow> 0 < c \<and> c < 58 \<and> c \<noteq> 28 \<and> c \<noteq> 29 \<and> c \<noteq> 42 \<and> c \<noteq> 54"

text \<open>Nothing is shifted and the buffer indices are in order.\<close>

definition editing :: "'a terminal_scheme \<Rightarrow> bool" where
  "editing s \<longleftrightarrow> \<not> caps s \<and> \<not> ctrl s \<and> offset s \<le> tb_i s"

lemma length_code_map: "length code_map = 58"
  by code_simp

lemma code_map_no_newline: "c < 58 \<Longrightarrow> fst (code_map ! c) \<noteq> CHR 0x0A"
proof -
  assume "c < 58"
  moreover have "list_all (\<lambda>p. fst p \<noteq> CHR 0x0A) code_map" by code_simp
  ultimately show ?thesis by (simp add: list_all_length length_code_map)
qed

lemma kprintf_c [simp]: "kprintf ''%c'' [VInt (of_char k)] v = Inr (put_to_screen k v)"
  by (simp add: kprintf_def)

lemma kprintf_newline [simp]: "kprintf [CHR 0x0A] [] v = Inr (put_to_screen (CHR 0x0A) v)"
  by (simp add: kprintf_def)

lemma map_upt_upd_last: "a \<le> b \<Longrightarrow> map (f(b := x)) [a..<Suc b] = map f [a..<b] @ [x]"
  by (simp add: map_fun_upd)

lemma edit_step:
  assumes "editing s" "edit_code c" "tb_i s < n_buf"
  shows "\<exists>s'. write_terminal c c s = Inr s' \<and> editing s' \<and> pending s' = edit_key (pending s) c \<and>
    offset s' = offset s \<and> no_lines s' = no_lines s \<and> q s' = q s \<and> r s' = r s \<and> tb_i s' \<le> Suc (tb_i s)"
proof (cases "c = 14")
  case True
  show ?thesis
  proof (cases "offset s = tb_i s")
    case False
    then obtain m where m: "tb_i s = Suc m" "offset s \<le> m" using assms(1) by (cases "tb_i s") (auto simp: editing_def)
    then have "map ((buf s)(m := CHR 0x00)) [offset s..<m] = butlast (map (buf s) [offset s..<Suc m])"
      by (simp add: map_fun_upd)
    with m False True assms(1) show ?thesis
      by (simp add: write_terminal_def editing_def pending_def edit_key_def)
  qed (use True assms in \<open>simp add: write_terminal_def pending_def edit_key_def\<close>)
next
  case False
  with assms show ?thesis
    by (auto simp: write_terminal_def editing_def edit_code_def key_char_def length_code_map put_key_def
        pending_def edit_key_def map_upt_upd_last Let_def simp del: upt_Suc)
qed

text \<open>A sequence of keys.\<close>

definition type_keys :: "nat list \<Rightarrow> 'a terminal_scheme \<Rightarrow> 'a terminal_scheme res" where
  "type_keys cs = rfold (\<lambda>c. write_terminal c c) cs"

lemma edit_steps:
  assumes "editing s" "\<forall>c\<in>set cs. edit_code c" "tb_i s + length cs < n_buf"
  shows "\<exists>s'. type_keys cs s = Inr s' \<and> editing s' \<and> pending s' = foldl edit_key (pending s) cs \<and>
    offset s' = offset s \<and> no_lines s' = no_lines s \<and> q s' = q s \<and> r s' = r s \<and> tb_i s' < n_buf"
  using assms
proof (induction cs arbitrary: s)
  case (Cons c cs)
  then obtain s1 where s1: "write_terminal c c s = Inr s1" "editing s1" "pending s1 = edit_key (pending s) c"
      "offset s1 = offset s" "no_lines s1 = no_lines s" "q s1 = q s" "r s1 = r s" "tb_i s1 \<le> Suc (tb_i s)"
    using edit_step [of s c] by auto
  then have "tb_i s1 + length cs < n_buf" using Cons.prems(3) by simp
  then show ?case using Cons.IH [of s1] s1 Cons.prems(2) by (simp add: type_keys_def)
qed (simp add: type_keys_def)

lemma edit_no_newline:
  "CHR 0x0A \<notin> set line \<Longrightarrow> edit_code c \<Longrightarrow> CHR 0x0A \<notin> set (edit_key line c)"
  using code_map_no_newline [of c] by (auto simp: edit_key_def edit_code_def dest: in_set_butlastD)

lemma edits_no_newline:
  "CHR 0x0A \<notin> set line \<Longrightarrow> \<forall>c\<in>set cs. edit_code c \<Longrightarrow> CHR 0x0A \<notin> set (foldl edit_key line cs)"
  by (induction cs arbitrary: line) (simp_all add: edit_no_newline)

lemma read_line_finds:
  assumes "map (buf s) [i..<i + length l] = l" "CHR 0x0A \<notin> set l" "buf s (i + length l) = CHR 0x0A" "i + length l < n_buf"
  shows "\<exists>s'. read_line i s = (l, True, s') \<and> offset s' = i + length l + 1 \<and> no_lines s' = no_lines s - 1 \<and>
    tb_i s' = tb_i s \<and> t_state (q s' (r s)) = RUNNING \<and> caps s' = caps s \<and> ctrl s' = ctrl s"
  using assms
proof (induction l arbitrary: i s)
  case Nil
  then show ?case by (subst read_line.simps) simp
next
  case (Cons c l)
  let ?s = "s\<lparr>buf := (buf s)(i := CHR 0x00)\<rparr>"
  have up: "[i..<i + length (c # l)] = i # [Suc i..<Suc i + length l]" by (subst upt_conv_Cons) simp_all
  from Cons.prems(1) have c: "buf s i = c" and l: "map (buf s) [Suc i..<Suc i + length l] = l"
    unfolding up by (simp_all only: list.map list.inject)
  have "map (buf ?s) [Suc i..<Suc i + length l] = map (buf s) [Suc i..<Suc i + length l]"
    by (rule map_cong) auto
  then have m: "map (buf ?s) [Suc i..<Suc i + length l] = l" by (simp only: l)
  have p: "CHR 0x0A \<notin> set l" "buf ?s (Suc i + length l) = CHR 0x0A" "Suc i + length l < n_buf"
    using Cons.prems by simp_all
  obtain s' where "read_line (Suc i) ?s = (l, True, s')" "offset s' = i + length (c # l) + 1"
      "no_lines s' = no_lines s - 1" "tb_i s' = tb_i s" "t_state (q s' (r s)) = RUNNING" "caps s' = caps s" "ctrl s' = ctrl s"
    using Cons.IH [OF m p] by auto
  then show ?case using c Cons.prems by (subst read_line.simps) (auto simp: Let_def)
qed

lemma wake_process_sel [simp]:
  "buf (wake_process s) = buf s" "tb_i (wake_process s) = tb_i s" "offset (wake_process s) = offset s"
  "no_lines (wake_process s) = no_lines s" "caps (wake_process s) = caps s" "ctrl (wake_process s) = ctrl s"
  "r (wake_process s) = r s" "scr (wake_process s) = scr s"
  by (simp_all add: wake_process_def set_task_def split: option.splits)

text \<open>Enter ends the line.\<close>

lemma enter_step:
  assumes "editing s" "tb_i s < n_buf" "0 \<le> no_lines s" "no_lines s < 2147483647"
  shows "\<exists>s'. write_terminal 28 28 s = Inr s' \<and> editing s' \<and> tb_i s' = Suc (tb_i s) \<and> offset s' = offset s \<and>
    no_lines s' = no_lines s + 1 \<and> buf s' = (buf s)(tb_i s := CHR 0x0A)"
  using assms by (auto simp: write_terminal_def editing_def)

text \<open>
  C16. A typed line is what a reading task gets: from an empty line buffer, any sequence of unshifted
  keys and backspaces followed by Enter, as long as it fits the buffer, makes the next
  \<open>read_input\<close> return exactly the edited line, runnable, with the line used up.
\<close>

theorem typed_line_is_read:
  assumes ed: "editing s" and empty: "offset s = tb_i s" "no_lines s = 0"
    and keys: "\<forall>c\<in>set cs. edit_code c" and room: "tb_i s + length cs < n_buf"
  shows "\<exists>s1 s2. type_keys (cs @ [28]) s = Inr s1 \<and>
    read_input s1 = Inr (foldl edit_key [] cs, True, s2) \<and>
    no_lines s2 = 0 \<and> offset s2 = tb_i s2 \<and> t_state (q s2 (r s1)) = RUNNING"
proof -
  have "pending s = []" using empty by (simp add: pending_def)
  then obtain s0 where s0: "type_keys cs s = Inr s0" "editing s0" "pending s0 = foldl edit_key [] cs"
      "offset s0 = offset s" "no_lines s0 = 0" "tb_i s0 < n_buf"
    using edit_steps [OF ed keys room] empty by auto
  then obtain s1 where s1: "write_terminal 28 28 s0 = Inr s1" "tb_i s1 = Suc (tb_i s0)" "offset s1 = offset s0"
      "no_lines s1 = 1" "buf s1 = (buf s0)(tb_i s0 := CHR 0x0A)"
    using enter_step [of s0] by auto
  let ?l = "foldl edit_key [] cs"
  have len: "offset s1 + length ?l = tb_i s0"
    using s0(2) s1(3) unfolding s0(3) [symmetric] by (simp add: pending_def editing_def)
  have "map (buf s1) [offset s1..<offset s1 + length ?l] = ?l"
    using s0(3) s1 len by (simp add: pending_def map_fun_upd)
  moreover have "CHR 0x0A \<notin> set ?l" using edits_no_newline [of "[]" cs] keys by simp
  ultimately obtain s2 where "read_line (offset s1) s1 = (?l, True, s2)" "offset s2 = tb_i s0 + 1" "no_lines s2 = 0"
      "tb_i s2 = Suc (tb_i s0)" "t_state (q s2 (r s1)) = RUNNING"
    using read_line_finds [of s1 "offset s1" ?l] len s0(6) s1 by auto
  moreover have "type_keys (cs @ [28]) s = Inr s1"
    using s0(1) s1(1) by (simp add: type_keys_def rfold_append)
  ultimately show ?thesis using s1(4) by (auto simp: read_input_def)
qed

definition example_terminal :: terminal where
  "example_terminal = clocked.extend example_clocked (terminal.fields example_screen (\<lambda>_. CHR 0x00) 0 0 False False 0)"

lemma example_terminal_sel [simp]:
  "q example_terminal = q example_procs" "r example_terminal = 2" "buf example_terminal = (\<lambda>_. CHR 0x00)"
  "tb_i example_terminal = 0" "offset example_terminal = 0" "\<not> caps example_terminal" "\<not> ctrl example_terminal"
  "no_lines example_terminal = 0"
  by (simp_all add: example_terminal_def clocked.defs terminal.defs example_clocked_def kernel.defs example_procs_tasks)

text \<open>The keys l, s, x, backspace, then Enter.\<close>

theorem typed_line_is_read_witness:
  "\<exists>s1 s2. type_keys [38, 31, 45, 14, 28] example_terminal = Inr s1 \<and> read_input s1 = Inr (''ls'', True, s2)"
proof -
  have "foldl edit_key [] [38, 31, 45, 14] = ''ls''" by code_simp
  then show ?thesis
    using typed_line_is_read [of example_terminal "[38, 31, 45, 14]"] by (auto simp: editing_def edit_code_def)
qed

text \<open>
  Backspace is only stopped by the start of the oldest unread line, so it can erase the newline of a
  complete line. The count of lines still says that one is there: the next \<open>read_input\<close> finds no
  newline, stores the whole rest of the buffer for its caller, up to 4096 characters, and keeps the
  task runnable without returning.
\<close>

theorem backspace_erases_unread_line:
  assumes one: "pending s = [CHR 0x0A]" "no_lines s = 1" and rest: "\<forall>k \<ge> tb_i s. buf s k \<noteq> CHR 0x0A"
    and idx: "offset s < tb_i s" "tb_i s \<le> n_buf" and ok: "cur_ok s"
  shows "\<exists>s1 b s2. write_terminal 14 14 s = Inr s1 \<and> no_lines s1 = 1 \<and> pending s1 = [] \<and>
    read_input s1 = Inr (b, False, s2) \<and> length b = n_buf - offset s \<and> t_state (q s2 (r s)) = t_state (cur s)"
proof -
  have i: "tb_i s = Suc (offset s)" using arg_cong [OF one(1), of length] by (simp add: pending_def)
  let ?s1 = "s\<lparr>buf := (buf s)(offset s := CHR 0x00), tb_i := offset s, scr := backspace (scr s)\<rparr>"
  have w: "write_terminal 14 14 s = Inr ?s1" using idx i by (simp add: write_terminal_def)
  have scan: "\<exists>b t. read_line k u = (b, False, t) \<and> length b = n_buf - k \<and> q t = q u \<and> r t = r u \<and> cpu_rsp t = cpu_rsp u"
    if "\<forall>k' \<ge> k. buf u k' \<noteq> CHR 0x0A" "k \<le> n_buf" for k and u :: "'a terminal_scheme"
    using that
  proof (induction "n_buf - k" arbitrary: k u)
    case 0
    then show ?case by (subst read_line.simps) simp
  next
    case (Suc d)
    let ?u = "u\<lparr>buf := (buf u)(k := CHR 0x00)\<rparr>"
    have "\<exists>b t. read_line (Suc k) ?u = (b, False, t) \<and> length b = n_buf - Suc k \<and> q t = q ?u \<and> r t = r ?u \<and> cpu_rsp t = cpu_rsp ?u"
      using Suc by (intro Suc.hyps(1)) auto
    then show ?case using Suc by (subst read_line.simps) (auto simp: Let_def)
  qed
  have "\<forall>k \<ge> offset s. buf ?s1 k \<noteq> CHR 0x0A" using rest i by auto
  then obtain b t where t: "read_line (offset s) ?s1 = (b, False, t)" "length b = n_buf - offset s" "q t = q s" "r t = r s"
    using scan [of "offset s" ?s1] idx by auto
  have "cur_ok t" using ok t by (simp add: cur_ok_def)
  then obtain s2 where s2: "yield t = Inr s2" using yield_total by blast
  have "read_input ?s1 = Inr (b, False, s2)" using one t s2 by (simp add: read_input_def)
  moreover have "t_state (q s2 (r s)) = t_state (cur s)" using yield_task_frame(1) [OF \<open>cur_ok t\<close> s2] t by simp
  ultimately show ?thesis using w one(2) t(2) by (auto simp: pending_def)
qed

theorem backspace_erases_unread_line_witness:
  "let s = example_terminal\<lparr>buf := (\<lambda>_. CHR 0x00)(0 := CHR 0x0A), tb_i := 1, no_lines := 1\<rparr> in
   \<exists>s1 b s2. write_terminal 14 14 s = Inr s1 \<and> no_lines s1 = 1 \<and> read_input s1 = Inr (b, False, s2) \<and> length b = 4096"
proof -
  let ?s = "example_terminal\<lparr>buf := (\<lambda>_. CHR 0x00)(0 := CHR 0x0A), tb_i := 1, no_lines := 1\<rparr>"
  have "\<exists>s1 b s2. write_terminal 14 14 ?s = Inr s1 \<and> no_lines s1 = 1 \<and> pending s1 = [] \<and>
    read_input s1 = Inr (b, False, s2) \<and> length b = n_buf - offset ?s \<and> t_state (q s2 (r ?s)) = t_state (cur ?s)"
    by (rule backspace_erases_unread_line) (simp_all add: pending_def cur_ok_def example_procs_tasks)
  then show ?thesis by (auto simp: Let_def)
qed

end
