(* ===== verification/Page_Fault.thy ===== *)
theory Page_Fault
  imports Heap_Area Terminal
begin

unbundle bit_operations_syntax

text \<open>
  The page fault handler \<^verbatim>\<open>isr14\<close> of \<^verbatim>\<open>sys/idt.c\<close>: copy on write, the growing
  stack, and the end of tasks that touch memory they do not have.
\<close>

section \<open>Operations\<close>

text \<open>\<^verbatim>\<open>memcpy\<close> of one page, a quadword at a time.\<close>

definition copy_page :: "u64 \<Rightarrow> u64 \<Rightarrow> 'a vmem_scheme \<Rightarrow> 'a vmem_scheme" where
  "copy_page dst src s = fold (\<lambda>i s. wr dst i (rd s src i) s) (table_idx 512) s"

text \<open>
  The frame behind a user page in the current address space, as the kernel reaches it. A page that
  is not present faults again at the same address, for ever.
\<close>

definition user_frame :: "u64 \<Rightarrow> 'a vmem_scheme \<Rightarrow> u64 res" where
  "user_frame v s =
     (case walk (kmem s) (cr3 s + KERNBASE) v of
        None \<Rightarrow> Inl Hang
      | Some e \<Rightarrow> Inr (KERNBASE + (e AND PTE_MASK)))"

text \<open>Whether the task has the address: a stack that may grow down to it, or an area around it.\<close>

definition has_address :: "vma list \<Rightarrow> u64 \<Rightarrow> bool" where
  "has_address vms bb \<longleftrightarrow>
     (vm_start (hd vms) + 4096 > bb \<and> vm_end (hd vms) < bb) \<or>
     (\<exists>vm\<in>set vms. vm_start vm < bb \<and> vm_end vm > bb)"

definition segfault :: "u64 \<Rightarrow> 'a terminal_scheme \<Rightarrow> 'a terminal_scheme res" where
  "segfault bb s =
     rbind (kprintf (''Segmentation Fault: Address:%p '' @ [CHR 0x0A]) [VPtr bb] (scr s)) (\<lambda>v.
     exit (s\<lparr>scr := v\<rparr>))"

text \<open>The copy-on-write case, for the table \<open>k\<close> with the entry of the page.\<close>

definition cow_fault :: "u64 \<Rightarrow> u64 \<Rightarrow> 'a kernel_scheme \<Rightarrow> 'a kernel_scheme res" where
  "cow_fault bb k s =
     (let k1 = cr3 s; e = rd s k (tidx 12 bb); add = e AND PTE_MASK in
      rbind (getrefcount add s) (\<lambda>i.
      rbind (if i = 2 then
               rbind (allocate_page s) (\<lambda>(p_n, s).
               rbind (user_frame (bb AND PTE_MASK) s) (\<lambda>src.
               let s = copy_page (KERNBASE + p_n) src s;
                   s = switchtokern s in
               rbind (init_pages_for_process (bb AND PTE_MASK) p_n (t_pml4e (cur s) + KERNBASE) s) (\<lambda>s.
               free add s)))
             else if i = 1 then Inr (wr k (tidx 12 bb) ((e OR 2) AND 0xFFFFFFFFFFFFFDFF) s)
             else Inl Hang) (\<lambda>s.
      Inr (s\<lparr>cr3 := k1\<rparr>))))"

definition stack_fault :: "u64 \<Rightarrow> 'a kernel_scheme \<Rightarrow> 'a kernel_scheme res" where
  "stack_fault bb s =
     (let k = cr3 s in
      rbind (allocate_page s) (\<lambda>(p_n, s).
      let s = switchtokern s in
      rbind (init_pages_for_process (bb AND PTE_MASK) p_n (t_pml4e (cur s) + KERNBASE) s) (\<lambda>s.
      Inr (s\<lparr>cr3 := k\<rparr>))))"

definition isr14 :: "u64 \<Rightarrow> 'a terminal_scheme \<Rightarrow> 'a terminal_scheme res" where
  "isr14 bb s =
     (case t_vm (cur s) of
        [] \<Rightarrow> Inl NullDeref
      | vm # vms \<Rightarrow>
          if \<not> has_address (vm # vms) bb then segfault bb s
          else
            let k = getPTE (t_pml4e (cur s)) bb s in
            if rd s k (tidx 12 bb) AND 0x200 \<noteq> 0 then cow_fault bb k s
            else if vm_start vm > bb \<and> vm_end vm < bb then stack_fault bb s
            else segfault bb s)"

section \<open>Copying a page\<close>

lemma copy_page_prefix:
  assumes al: "page_aligned dst" "page_aligned src" and ne: "dst \<noteq> src"
  shows "set is \<subseteq> {i. i < 512} \<Longrightarrow>
    kmem (fold (\<lambda>i s. wr dst i (rd s src i) s) is s) a =
      (if \<exists>j\<in>set is. a = dst + 8 * j then kmem s (src + (a - dst)) else kmem s a)"
proof (induction "is" arbitrary: s)
  case (Cons i "is")
  let ?s = "wr dst i (rd s src i) s"
  have apart: "src + 8 * j \<noteq> dst + 8 * i" if "j < 512" for j
    using slot_eq_iff [OF al(2,1) that, of i] ne Cons.prems by auto
  have IH: "kmem (fold (\<lambda>i s. wr dst i (rd s src i) s) is ?s) a =
      (if \<exists>j\<in>set is. a = dst + 8 * j then kmem ?s (src + (a - dst)) else kmem ?s a)"
    using Cons by simp
  show ?case
  proof (cases "\<exists>j\<in>set is. a = dst + 8 * j")
    case True
    then obtain j where j: "j \<in> set is" "a = dst + 8 * j" by blast
    then have "src + (a - dst) \<noteq> dst + 8 * i" using apart [of j] Cons.prems by auto
    with IH True show ?thesis by simp
  next
    case False
    with IH show ?thesis by (simp add: rd_def)
  qed
qed simp

lemma table_idx_512: "j \<in> set (table_idx 512) \<longleftrightarrow> j < 512"
proof
  assume "j < 512"
  then have "unat j < 512" by (simp add: word_less_nat_alt)
  then show "j \<in> set (table_idx 512)" by (auto intro!: image_eqI [of _ _ "unat j"])
qed (auto simp: word_less_nat_alt unat_of_nat_lt)

lemma kmem_copy_page:
  assumes "page_aligned dst" "page_aligned src" "dst \<noteq> src"
  shows "kmem (copy_page dst src s) a = (if \<exists>j<512. a = dst + 8 * j then kmem s (src + (a - dst)) else kmem s a)"
proof -
  have "set (table_idx 512) \<subseteq> {i. i < 512}" using table_idx_512 by blast
  moreover have "(\<exists>j\<in>set (table_idx 512). a = dst + 8 * j) \<longleftrightarrow> (\<exists>j<512. a = dst + 8 * j)"
    using table_idx_512 by blast
  ultimately show ?thesis
    using copy_page_prefix [OF assms, of "table_idx 512" s a] unfolding copy_page_def by (simp only:)
qed

lemma copy_page_frame:
  "pagelist (copy_page d src s) = pagelist s \<and> head (copy_page d src s) = head s \<and>
   pml4e (copy_page d src s) = pml4e s \<and> cr3 (copy_page d src s) = cr3 s \<and> vmem.more (copy_page d src s) = vmem.more s"
proof -
  have "pagelist (fold (\<lambda>i s. wr d i (rd s src i) s) is s) = pagelist s \<and>
    head (fold (\<lambda>i s. wr d i (rd s src i) s) is s) = head s \<and>
    pml4e (fold (\<lambda>i s. wr d i (rd s src i) s) is s) = pml4e s \<and>
    cr3 (fold (\<lambda>i s. wr d i (rd s src i) s) is s) = cr3 s \<and>
    vmem.more (fold (\<lambda>i s. wr d i (rd s src i) s) is s) = vmem.more s" for "is"
    by (induction "is" arbitrary: s) (simp_all add: wr_def)
  then show ?thesis by (simp add: copy_page_def)
qed

section \<open>Pages of the handler\<close>

lemma tidx_page: "12 \<le> n \<Longrightarrow> tidx n (v AND PTE_MASK) = tidx n v"
  unfolding tidx_def PTE_MASK_eq
  by (intro bit_word_eqI) (auto simp: bit_and_iff bit_drop_bit_eq bit_not_iff bit_mask_iff dest: bit_imp_le_length)

lemma walk_page: "walk m root (v AND PTE_MASK) = walk m root v"
proof -
  have "tidx 39 (v AND PTE_MASK) = tidx 39 v" "tidx 30 (v AND PTE_MASK) = tidx 30 v"
    "tidx 21 (v AND PTE_MASK) = tidx 21 v" "tidx 12 (v AND PTE_MASK) = tidx 12 v" by (simp_all add: tidx_page)
  then show ?thesis unfolding walk_def vpath_def by (simp only:)
qed

text \<open>Stores into a frame that was free are invisible to the tables.\<close>

lemma free_frame_store:
  assumes tree: "pt_tree root s" and n: "n \<in> free_pages s"
    and m': "\<And>a. (\<And>j. j < 512 \<Longrightarrow> a \<noteq> KERNBASE + n + 8 * j) \<Longrightarrow> m' a = kmem s a"
  shows "user_path p \<Longrightarrow> table_at m' root p = table_at (kmem s) root p"
    and "tidx 39 v \<noteq> 511 \<Longrightarrow> walk m' root v = walk (kmem s) root v"
proof -
  have root: "user_path []" "table_at (kmem s) root [] = Some root" by (simp_all add: user_path_def)
  show tab: "table_at m' root p = table_at (kmem s) root p" if "user_path p" for p
    by (rule table_at_other_path [OF tree root, of 511]) (use that n m' in \<open>auto simp: user_path_def\<close>)
  assume v: "tidx 39 v \<noteq> 511"
  have "m' (u + 8 * tidx 12 v) = kmem s (u + 8 * tidx 12 v)" if u: "table_at (kmem s) root (vpath v) = Some u" for u
  proof (rule m')
    fix j :: u64 assume "j < 512"
    moreover note pt_tree_table [OF tree user_path_vpath [OF v] u]
    moreover have "page_aligned (KERNBASE + n)" using n by (intro page_aligned_KERNBASE free_pages_aligned)
    ultimately show "u + 8 * tidx 12 v \<noteq> KERNBASE + n + 8 * j" using n by (auto simp: slot_eq_iff)
  qed
  then show "walk m' root v = walk (kmem s) root v"
    using tab [OF user_path_vpath [OF v]] by (auto simp: walk_def split: option.splits)
qed

text \<open>With all tables present, mapping a page is two stores.\<close>

lemma map_user_present:
  "table_at (kmem s) root (vpath v) = Some p1 \<Longrightarrow>
     map_user v phy root s = Inr (wr p1 (tidx 12 v) ((phy AND PTE_MASK) OR 7) s)"
  by (auto simp: vpath_def map_user_def ensure_table_def rd_def Let_def split: if_splits)

lemma getPTE_table: "table_at (kmem s) (p4 + KERNBASE) (vpath v) = Some p1 \<Longrightarrow> getPTE p4 v s = p1"
  by (auto simp: vpath_def getPTE_def rd_def Let_def add.commute split: if_splits)

lemma walk_SomeE:
  assumes "walk m root v = Some e"
  obtains p1 where "table_at m root (vpath v) = Some p1" "m (p1 + 8 * tidx 12 v) = e" "e AND 1 \<noteq> 0"
  using assms by (auto simp: walk_def Let_def split: option.splits if_splits)

lemma allocate_page_other:
  assumes "pa_inv s" "allocate_page s = Inr (p, s')" "page_addr i \<noteq> p"
  shows "pagelist s' i = pagelist s i"
  using assms pa_inv_head_addr [OF assms(1)] by (auto simp: allocate_page_def Let_def split: option.splits)

text \<open>A frame in use, known to the allocator, with the given number of references.\<close>

definition frame_refs :: "nat \<Rightarrow> int \<Rightarrow> 'a palloc_scheme \<Rightarrow> bool" where
  "frame_refs i n s \<longleftrightarrow> i < n_pagelist \<and> fl_address (pagelist s i) = page_addr i \<and>
     fl_free (pagelist s i) \<noteq> 1 \<and> fl_ref_count (pagelist s i) = n"

lemma frame_refs_free: "frame_refs i n s \<Longrightarrow> page_addr i \<notin> free_pages s"
  by (auto simp: frame_refs_def free_pages_def free_idx_def page_addr_inj)

lemma frame_refs_count: "frame_refs i n s \<Longrightarrow> getrefcount (page_addr i) s = Inr n"
  by (simp add: frame_refs_def getrefcount_def page_index Let_def)

text \<open>Installing the copy: the walk, the rest of the address space, and the copied contents.\<close>

lemma cow_install:
  assumes tree: "pt_tree root s" and v: "tidx 39 bb \<noteq> 511"
    and p1: "table_at (kmem s) root (vpath bb) = Some p1"
    and p: "p \<in> free_pages s" and free': "free_pages s2 \<subseteq> free_pages s"
    and src: "page_aligned src" "KERNBASE + p \<noteq> src"
    and s2: "kmem s2 = kmem (copy_page (KERNBASE + p) src s1)" "kmem s1 = kmem s"
  shows "\<exists>s4. init_pages_for_process (bb AND PTE_MASK) p root s2 = Inr s4 \<and>
    walk (kmem s4) root bb = Some ((p AND PTE_MASK) OR 7) \<and>
    (\<forall>v'. tidx 39 v' \<noteq> 511 \<and> page_of v' \<noteq> page_of bb \<longrightarrow> walk (kmem s4) root v' = walk (kmem s) root v') \<and>
    (\<forall>j<512. kmem s4 (KERNBASE + p + 8 * j) = kmem s (src + 8 * j)) \<and>
    pagelist s4 = pagelist s2 \<and> head s4 = head s2"
proof -
  have alp: "page_aligned (KERNBASE + p)" using p by (intro page_aligned_KERNBASE free_pages_aligned)
  note kc = kmem_copy_page [OF alp src, of s1]
  have out: "kmem s2 a = kmem s a" if "\<And>j. j < 512 \<Longrightarrow> a \<noteq> KERNBASE + p + 8 * j" for a
    using that by (auto simp: s2 kc)
  have fs1: "table_at (kmem s2) root q = table_at (kmem s) root q" if "user_path q" for q
    by (rule free_frame_store(1) [OF tree p _ that]) (rule out)
  have fs2: "walk (kmem s2) root v' = walk (kmem s) root v'" if "tidx 39 v' \<noteq> 511" for v'
    by (rule free_frame_store(2) [OF tree p _ that]) (rule out)
  have tree2: "pt_tree root s2" using tree free' fs1 unfolding pt_tree_def by (auto simp del: One_nat_def)
  define s3 where "s3 = wr root 511 ((rd s2 (pml4e s2) 511 AND PTE_MASK) OR 7) s2"
  note r3 = root_slot_511 [OF tree2 s3_def]
  have root: "user_path []" "table_at (kmem s2) root [] = Some root" by (simp_all add: user_path_def)
  have "table_at (kmem s3) root (vpath bb) = table_at (kmem s2) root (vpath bb)"
    by (rule table_at_other_path [OF tree2 root _ user_path_vpath [OF v], of 511]) (use v in \<open>auto simp: s3_def vpath_def\<close>)
  then have p13: "table_at (kmem s3) root (vpath bb) = Some p1"
    using fs1 [OF user_path_vpath [OF v]] p1 by simp
  have vp: "vpath (bb AND PTE_MASK) = vpath bb" "tidx 12 (bb AND PTE_MASK) = tidx 12 bb"
    by (simp_all add: vpath_def tidx_page)
  define s4 where "s4 = wr p1 (tidx 12 bb) ((p AND PTE_MASK) OR 7) s3"
  have run: "init_pages_for_process (bb AND PTE_MASK) p root s2 = Inr s4"
    using map_user_present [of s3 root "bb AND PTE_MASK" p1 p] p13
    by (simp add: init_pages_for_process_eq s4_def vp flip: s3_def)
  note leaf = leaf_store [OF r3(1) v p13 entry_present s4_def]
  have "kmem s4 (KERNBASE + p + 8 * j) = kmem s (src + 8 * j)" if j: "j < 512" for j
  proof -
    have "t + 8 * i \<noteq> KERNBASE + p + 8 * j" if "table_at (kmem s) root q = Some t" "user_path q" "i < 512" for q t i
      using pt_tree_table [OF tree that(2,1)] slot_eq_iff [of t "KERNBASE + p" i j] alp p j that(3) by auto
    from this [OF p1 user_path_vpath [OF v], of "tidx 12 bb"] this [of "[]" root 511]
    show ?thesis using j by (auto simp: s4_def s3_def s2 kc user_path_def)
  qed
  moreover have "walk (kmem s4) root v' = walk (kmem s) root v'" if "tidx 39 v' \<noteq> 511" "page_of v' \<noteq> page_of bb" for v'
    using leaf(2) [OF that(1)] that r3(2) fs2 page_of_eq_iff [of v' bb] by auto
  ultimately show ?thesis using run leaf(2) [OF v] by (auto simp: s4_def s3_def)
qed

lemma switchtokern_sel [simp]:
  "kmem (switchtokern s) = kmem s" "pagelist (switchtokern s) = pagelist s" "head (switchtokern s) = head s"
  "vmem.more (switchtokern s) = vmem.more s"
  by (simp_all add: switchtokern_def)

lemma cow_copy:
  fixes s :: "'a kernel_scheme"
  assumes inv: "pa_inv s" and tree: "pt_tree (cur_root s) s" and cr: "cr3 s = t_pml4e (cur s)"
    and v: "tidx 39 bb \<noteq> 511" and w: "walk (kmem s) (cur_root s) bb = Some e"
    and frame: "e AND PTE_MASK = page_addr i" "frame_refs i 2 s" and avail: "free_pages s \<noteq> {}"
  shows "\<exists>s' p. cow_fault bb (getPTE (t_pml4e (cur s)) bb s) s = Inr s' \<and> p \<in> free_pages s \<and>
    walk (kmem s') (cur_root s) bb = Some ((p AND PTE_MASK) OR 7) \<and>
    (\<forall>v'. tidx 39 v' \<noteq> 511 \<and> page_of v' \<noteq> page_of bb \<longrightarrow> walk (kmem s') (cur_root s) v' = walk (kmem s) (cur_root s) v') \<and>
    (\<forall>j<512. kmem s' (KERNBASE + p + 8 * j) = kmem s (KERNBASE + page_addr i + 8 * j)) \<and>
    getrefcount (page_addr i) s' = Inr 1 \<and> cr3 s' = cr3 s"
proof -
  obtain p1 where p1: "table_at (kmem s) (cur_root s) (vpath bb) = Some p1" "kmem s (p1 + 8 * tidx 12 bb) = e"
    using w by (rule walk_SomeE)
  have k: "getPTE (t_pml4e (cur s)) bb s = p1" using p1(1) by (rule getPTE_table)
  obtain p s1 where a: "allocate_page s = Inr (p, s1)" using frames.alloc_some [OF inv avail] by blast
  have p: "p \<in> free_pages s" "free_pages s1 = free_pages s - {p}" using frames.alloc_avail [OF inv a] by auto
  have ne: "page_addr i \<noteq> p" using frame_refs_free [OF frame(2)] p(1) by auto
  note fr = allocate_page_frame [OF a] and mr = more_kernel [OF more_allocate_page [OF a]]
  let ?s2 = "switchtokern (copy_page (KERNBASE + p) (KERNBASE + page_addr i) s1)"
  note cf = copy_page_frame [of "KERNBASE + p" "KERNBASE + page_addr i" s1]
  have free2: "free_pages ?s2 \<subseteq> free_pages s"
    using p pa_inv_cong(2) [of ?s2 s1] cf by auto
  obtain s4 where s4: "init_pages_for_process (bb AND PTE_MASK) p (cur_root s) ?s2 = Inr s4"
    "walk (kmem s4) (cur_root s) bb = Some ((p AND PTE_MASK) OR 7)"
    "\<forall>v'. tidx 39 v' \<noteq> 511 \<and> page_of v' \<noteq> page_of bb \<longrightarrow> walk (kmem s4) (cur_root s) v' = walk (kmem s) (cur_root s) v'"
    "\<forall>j<512. kmem s4 (KERNBASE + p + 8 * j) = kmem s (KERNBASE + page_addr i + 8 * j)"
    "pagelist s4 = pagelist ?s2"
    using cow_install [OF tree v p1(1) p(1) free2 page_aligned_KERNBASE [OF page_addr_aligned [of i]], of s1] ne fr
    by auto
  have node: "pagelist s4 i = pagelist s i" using s4(5) cf allocate_page_other [OF inv a ne] by simp
  let ?s5 = "set_page i ((pagelist s4 i)\<lparr>fl_ref_count := 1\<rparr>) s4"
  have "free (page_addr i) s4 = Inr ?s5"
    using free_shared [of i s4] frame(2) node by (simp add: frame_refs_def)
  moreover have "user_frame (bb AND PTE_MASK) s1 = Inr (KERNBASE + page_addr i)"
    using w fr cr by (simp add: user_frame_def walk_page frame(1))
  moreover have "r ?s2 = r s" "q ?s2 = q s" using mr more_kernel [of ?s2 s1] cf by auto
  moreover have "cur_root ?s2 = cur_root s" using calculation(3,4) by simp
  ultimately have run: "cow_fault bb (getPTE (t_pml4e (cur s)) bb s) s = Inr (?s5\<lparr>cr3 := cr3 s\<rparr>)"
    using s4(1) by (simp add: cow_fault_def k rd_def p1(2) frame frame_refs_count [OF frame(2)] a Let_def)
  have "getrefcount (page_addr i) (?s5\<lparr>cr3 := cr3 s\<rparr>) = Inr 1"
    using frame(2) by (simp add: getrefcount_def frame_refs_def page_index Let_def)
  moreover have "kmem (?s5\<lparr>cr3 := cr3 s\<rparr>) = kmem s4" by (simp add: set_page_def)
  ultimately show ?thesis using run p(1) s4(2-4) by (intro exI [of _ "?s5\<lparr>cr3 := cr3 s\<rparr>"] exI [of _ p]) simp
qed

lemma isr14_cow:
  assumes "t_vm (cur s) \<noteq> []" "has_address (t_vm (cur s)) bb"
    and "walk (kmem s) (cur_root s) bb = Some e" "e AND 0x200 \<noteq> 0"
  shows "isr14 bb s = cow_fault bb (getPTE (t_pml4e (cur s)) bb s) s"
proof -
  obtain p1 where p1: "table_at (kmem s) (cur_root s) (vpath bb) = Some p1" "kmem s (p1 + 8 * tidx 12 bb) = e"
    using assms(3) by (rule walk_SomeE)
  then have "rd s (getPTE (t_pml4e (cur s)) bb s) (tidx 12 bb) = e" by (simp add: rd_def getPTE_table)
  with assms show ?thesis by (cases "t_vm (cur s)") (simp_all add: isr14_def Let_def)
qed

section \<open>Properties of the handler\<close>

text \<open>
  C5. Copy on write, first writer: a fault on a page marked copy-on-write whose frame has two users
  gives the running task a frame of its own that was free, mapped writable at the same address and with
  the same contents; the old frame keeps one user, every other page of the task translates as before,
  and the task's page tables are current again.
\<close>

theorem isr14_copies_shared_page:
  fixes s :: "'a terminal_scheme"
  assumes inv: "pa_inv s" "pt_tree (cur_root s) s" "cr3 s = t_pml4e (cur s)"
    and area: "t_vm (cur s) \<noteq> []" "has_address (t_vm (cur s)) bb" "tidx 39 bb \<noteq> 511"
    and page: "walk (kmem s) (cur_root s) bb = Some e" "e AND 0x200 \<noteq> 0"
    and frame: "e AND PTE_MASK = page_addr i" "frame_refs i 2 s" and avail: "free_pages s \<noteq> {}"
  shows "\<exists>s' p. isr14 bb s = Inr s' \<and> p \<in> free_pages s \<and>
    walk (kmem s') (cur_root s) bb = Some ((p AND PTE_MASK) OR 7) \<and>
    (\<forall>j<512. kmem s' (KERNBASE + p + 8 * j) = kmem s (KERNBASE + page_addr i + 8 * j)) \<and>
    getrefcount (page_addr i) s' = Inr 1 \<and> cr3 s' = cr3 s \<and>
    (\<forall>v. tidx 39 v \<noteq> 511 \<and> page_of v \<noteq> page_of bb \<longrightarrow> walk (kmem s') (cur_root s) v = walk (kmem s) (cur_root s) v)"
  using cow_copy [OF inv area(3) page(1) frame avail] isr14_cow [OF area(1,2) page] by auto

text \<open>
  Copy on write, last user: with a single user left the handler gives the page back as it is,
  writable and no longer marked, and changes no other translation and no frame.
\<close>

theorem isr14_last_user_gets_page:
  fixes s :: "'a terminal_scheme"
  assumes tree: "pt_tree (cur_root s) s"
    and area: "t_vm (cur s) \<noteq> []" "has_address (t_vm (cur s)) bb" "tidx 39 bb \<noteq> 511"
    and page: "walk (kmem s) (cur_root s) bb = Some e" "e AND 0x200 \<noteq> 0"
    and frame: "e AND PTE_MASK = page_addr i" "frame_refs i 1 s"
  shows "\<exists>s'. isr14 bb s = Inr s' \<and>
    walk (kmem s') (cur_root s) bb = Some ((e OR 2) AND 0xFFFFFFFFFFFFFDFF) \<and>
    (\<forall>v. tidx 39 v \<noteq> 511 \<and> page_of v \<noteq> page_of bb \<longrightarrow> walk (kmem s') (cur_root s) v = walk (kmem s) (cur_root s) v) \<and>
    pagelist s' = pagelist s \<and> cr3 s' = cr3 s"
proof -
  obtain p1 where p1: "table_at (kmem s) (cur_root s) (vpath bb) = Some p1" "kmem s (p1 + 8 * tidx 12 bb) = e" "e AND 1 \<noteq> 0"
    using page(1) by (rule walk_SomeE)
  have "bit e 0" using p1(3) by (simp add: bit_iff_and_push_bit_not_eq_0 [of e 0])
  then have "bit ((e OR 2) AND 0xFFFFFFFFFFFFFDFF) 0" by (simp add: bit_simps)
  then have e': "((e OR 2) AND 0xFFFFFFFFFFFFFDFF) AND 1 \<noteq> 0"
    using bit_iff_and_push_bit_not_eq_0 [of "(e OR 2) AND 0xFFFFFFFFFFFFFDFF" 0] by simp
  define s1 where "s1 = wr p1 (tidx 12 bb) ((e OR 2) AND 0xFFFFFFFFFFFFFDFF) s"
  note leaf = leaf_store [OF tree area(3) p1(1) e' s1_def]
  have "isr14 bb s = Inr (s1\<lparr>cr3 := cr3 s\<rparr>)"
    using isr14_cow [OF area(1,2) page] getPTE_table [OF p1(1)] frame_refs_count [OF frame(2)]
    by (simp add: cow_fault_def rd_def p1(2) frame(1) s1_def Let_def)
  then show ?thesis using leaf(2) area(3) page_of_eq_iff [of _ bb] by (auto simp: s1_def)
qed

text \<open>
  With three or more users of the frame, as after two forks of one task, the handler has no case:
  it stops the whole machine in an endless loop.
\<close>

theorem isr14_three_users_hang:
  fixes s :: "'a terminal_scheme"
  assumes area: "t_vm (cur s) \<noteq> []" "has_address (t_vm (cur s)) bb"
    and page: "walk (kmem s) (cur_root s) bb = Some e" "e AND 0x200 \<noteq> 0"
    and frame: "e AND PTE_MASK = page_addr i" "frame_refs i n s" and n: "3 \<le> n"
  shows "isr14 bb s = Inl Hang"
proof -
  obtain p1 where p1: "table_at (kmem s) (cur_root s) (vpath bb) = Some p1" "kmem s (p1 + 8 * tidx 12 bb) = e"
    using page(1) by (rule walk_SomeE)
  show ?thesis
    using isr14_cow [OF area page] getPTE_table [OF p1(1)] frame_refs_count [OF frame(2)] n
    by (simp add: cow_fault_def rd_def p1(2) frame(1) Let_def)
qed

lemma segfault_prints: "\<exists>v. kprintf (''Segmentation Fault: Address:%p '' @ [CHR 0x0A]) [VPtr bb] w = Inr v"
  by (simp add: kprintf_def)

lemma exit_frame:
  assumes inv: "proc_inv s"
  shows "\<exists>s'. exit s = Inr s' \<and> t_state (q s' (r s)) = ZOMBIE \<and> kmem s' = kmem s \<and> pagelist s' = pagelist s \<and> head s' = head s"
proof -
  obtain s1 where s1: "exit_prepare s = Inr s1" "proc_inv s1" using proc_inv_exit_prepare [OF inv] by blast
  have ok: "cur_ok s1" using proc_inv_cur s1(2) by blast
  have r: "t_pid (cur s) = r s" using proc_inv_cur [OF inv] by simp
  have f1: "kmem s1 = kmem s" "pagelist s1 = pagelist s" "head s1 = head s" "t_state (q s1 (r s)) = ZOMBIE"
    using s1(1) r by (auto simp: exit_prepare_def wake_parent_def reparent_def set_task_def Let_def split: if_splits)
  obtain s' where s': "yield s1 = Inr s'" using yield_total ok by blast
  have "kmem s' = kmem s1" "pagelist s' = pagelist s1" "head s' = head s1" using s' yield_eq [OF ok] by auto
  then show ?thesis using s1(1) s' f1 yield_task_frame(1) [OF ok s'] by (simp add: exit_def)
qed

text \<open>
  C34. A task that touches an address outside all its memory areas is ended: the handler completes, the
  task is dead, and neither memory, page tables nor the page allocator have changed.
\<close>

theorem isr14_ends_stray_task:
  fixes s :: "'a terminal_scheme"
  assumes inv: "proc_inv s" and area: "t_vm (cur s) \<noteq> []" "\<not> has_address (t_vm (cur s)) bb"
  shows "\<exists>s'. isr14 bb s = Inr s' \<and> t_state (q s' (r s)) = ZOMBIE \<and> kmem s' = kmem s \<and>
    pagelist s' = pagelist s \<and> head s' = head s"
proof -
  obtain v where v: "kprintf (''Segmentation Fault: Address:%p '' @ [CHR 0x0A]) [VPtr bb] (scr s) = Inr v"
    using segfault_prints by blast
  have "proc_inv (s\<lparr>scr := v\<rparr>)" using inv by (simp add: proc_inv_def cur_ok_def)
  moreover have "isr14 bb s = exit (s\<lparr>scr := v\<rparr>)"
    using area v by (cases "t_vm (cur s)") (simp_all add: isr14_def segfault_def)
  ultimately show ?thesis using exit_frame [of "s\<lparr>scr := v\<rparr>"] by simp
qed

lemma cr3_memset_page [simp]: "cr3 (memset_page p s) = cr3 s"
proof -
  have "cr3 (fold (\<lambda>i. wr p (of_nat i) 0) is s) = cr3 s" for "is" :: "nat list"
    by (induction "is" arbitrary: s) (simp_all add: wr_def)
  then show ?thesis by (simp add: memset_page_def)
qed

lemma ensure_table_nodes:
  assumes "pa_inv s" "ensure_table t j s = Inr (p, s')" "page_addr i \<notin> free_pages s"
  shows "pagelist s' i = pagelist s i \<and> cr3 s' = cr3 s \<and> pa_inv s' \<and> page_addr i \<notin> free_pages s'"
proof (cases "rd s t j AND 1 = 0")
  case True
  then obtain n s1 where a: "allocate_page s = Inr (n, s1)"
    and s': "s' = memset_page (KERNBASE + n) (wr t j ((n AND PTE_MASK) OR 7) s1)"
    using assms(2) by (auto simp: ensure_table_def res_simps)
  have n: "n \<in> free_pages s" "free_pages s1 = free_pages s - {n}" "pa_inv s1"
    using frames.alloc_avail [OF assms(1) a] frames.alloc_good [OF assms(1) a] by auto
  then have "page_addr i \<noteq> n" using assms(3) by auto
  from allocate_page_other [OF assms(1) a this] allocate_page_frame [OF a] n assms(3) show ?thesis
    by (simp add: s' alloc_wr)
qed (use assms in \<open>simp add: ensure_table_def\<close>)

lemma init_pages_nodes:
  assumes "pa_inv s" "init_pages_for_process v phy root s = Inr s'" "page_addr i \<notin> free_pages s"
  shows "pagelist s' i = pagelist s i \<and> cr3 s' = cr3 s"
proof -
  let ?s0 = "wr root 511 ((rd s (pml4e s) 511 AND PTE_MASK) OR 7) s"
  obtain p3 s1 p2 s2 p1 s3 where st: "ensure_table root (tidx 39 v) ?s0 = Inr (p3, s1)"
      "ensure_table p3 (tidx 30 v) s1 = Inr (p2, s2)" "ensure_table p2 (tidx 21 v) s2 = Inr (p1, s3)"
    and s': "s' = wr p1 (tidx 12 v) ((phy AND PTE_MASK) OR 7) s3"
    using assms(2) by (auto simp: init_pages_for_process_eq map_user_def res_simps)
  have 0: "pa_inv ?s0" "page_addr i \<notin> free_pages ?s0" using assms by (simp_all add: alloc_wr)
  note 1 = ensure_table_nodes [OF 0(1) st(1) 0(2)]
  have 2: "pagelist s2 i = pagelist s1 i \<and> cr3 s2 = cr3 s1 \<and> pa_inv s2 \<and> page_addr i \<notin> free_pages s2"
    using ensure_table_nodes [OF _ st(2)] 1 by blast
  have "pagelist s3 i = pagelist s2 i \<and> cr3 s3 = cr3 s2"
    using ensure_table_nodes [OF _ st(3)] 2 by blast
  with 1 2 show ?thesis by (simp add: s')
qed

section \<open>An example: a shared page at 0x400000\<close>

text \<open>Task 2 with an empty address space in frame 7, four free frames, frame 15 with \<open>n\<close> users.\<close>

definition example_cow0 :: "int \<Rightarrow> terminal" where
  "example_cow0 n = example_terminal\<lparr>kmem := (\<lambda>_. 0),
     pagelist := (pagelist example_heap)(15 := \<lparr>fl_address = page_addr 15, fl_free = 0, fl_ref_count = n, fl_next = None\<rparr>),
     head := Some 3, cr3 := page_addr 7,
     q := (q example_procs)(2 := (q example_procs 2)
       \<lparr>t_vm := [\<lparr>vm_node = 0, vm_start = 0x400000, vm_end = 0x401000\<rparr>]\<rparr>)\<rparr>"

text \<open>Frame 15 mapped at 0x400000, then marked read-only and copy-on-write as \<^verbatim>\<open>copytables\<close> does.\<close>

definition example_cow1 :: "int \<Rightarrow> terminal" where
  "example_cow1 n = projr (init_pages_for_process 0x400000 (page_addr 15) (page_addr 7 + KERNBASE) (example_cow0 n))"

definition example_cow :: "int \<Rightarrow> terminal" where
  "example_cow n = wr (getPTE (page_addr 7) 0x400000 (example_cow1 n)) (tidx 12 0x400000) 0xF205 (example_cow1 n)"

lemma example_cow0_sel [simp]:
  "r (example_cow0 n) = 2" "t_pml4e (q (example_cow0 n) 2) = page_addr 7" "cr3 (example_cow0 n) = page_addr 7"
  "t_vm (q (example_cow0 n) 2) = [\<lparr>vm_node = 0, vm_start = 0x400000, vm_end = 0x401000\<rparr>]"
  by (simp_all add: example_cow0_def example_procs_def)

lemma example_cow0_idx: "free_idx (example_cow0 n) = {3, 5, 9, 11}"
  by (auto simp: free_idx_def example_cow0_def example_heap_def example_palloc_def)

lemma example_cow0_inv: "pa_inv (example_cow0 n)"
  unfolding pa_inv_def example_cow0_idx
  by (auto simp: example_cow0_def example_heap_def example_palloc_def intro!: exI [of _ "[3, 5, 9, 11]"])

lemma example_cow0_tree: "pt_tree (page_addr 7 + KERNBASE) (example_cow0 n)"
proof -
  have "kmem (example_cow0 n) = (\<lambda>_. 0)" by (simp add: example_cow0_def)
  moreover have "page_addr 7 \<notin> free_pages (example_cow0 n)"
    by (simp add: free_pages_def example_cow0_idx page_addr_inj)
  moreover have "page_aligned (page_addr 7 + KERNBASE)"
    using page_aligned_KERNBASE [OF page_addr_aligned [of 7]] by (simp add: add.commute)
  ultimately show ?thesis by (auto simp: pt_tree_def table_at_zero split: if_splits)
qed

lemma example_cow1_facts:
  "pa_inv (example_cow1 n)" "pt_tree (page_addr 7 + KERNBASE) (example_cow1 n)" "free_pages (example_cow1 n) \<noteq> {}"
  "\<exists>e. walk (kmem (example_cow1 n)) (page_addr 7 + KERNBASE) 0x400000 = Some e"
  "vmem.more (example_cow1 n) = vmem.more (example_cow0 n)" "cr3 (example_cow1 n) = page_addr 7"
  "pagelist (example_cow1 n) 15 = pagelist (example_cow0 n) 15"
proof -
  let ?i = "init_pages_for_process 0x400000 (page_addr 15) (page_addr 7 + KERNBASE) (example_cow0 n)"
  have card: "card (free_pages (example_cow0 n)) = 4"
    by (simp add: free_pages_def example_cow0_idx page_addr_def)
  note um = user_page_mapped [OF example_cow0_inv [of n] example_cow0_tree [of n], of "0x400000" "page_addr 15"]
  have v: "tidx 39 0x400000 \<noteq> 511" by (simp add: tidx_def)
  obtain t where t: "?i = Inr t" using um v card by (cases ?i) auto
  then have ex: "example_cow1 n = t" by (simp add: example_cow1_def)
  show "pa_inv (example_cow1 n)" "pt_tree (page_addr 7 + KERNBASE) (example_cow1 n)"
    "\<exists>e. walk (kmem (example_cow1 n)) (page_addr 7 + KERNBASE) 0x400000 = Some e"
    using um v t by (auto simp: ex)
  show "free_pages (example_cow1 n) \<noteq> {}"
    using init_pages_card [OF example_cow0_inv t] card unfolding ex by auto
  show "vmem.more (example_cow1 n) = vmem.more (example_cow0 n)"
    using more_init_pages_for_process [OF t] by (simp add: ex)
  have "page_addr 15 \<notin> free_pages (example_cow0 n)"
    by (simp add: free_pages_def example_cow0_idx page_addr_inj)
  from init_pages_nodes [OF example_cow0_inv t this]
  show "cr3 (example_cow1 n) = page_addr 7" "pagelist (example_cow1 n) 15 = pagelist (example_cow0 n) 15"
    by (simp_all add: ex)
qed

lemma example_cow_facts:
  "pa_inv (example_cow n)" "pt_tree (cur_root (example_cow n)) (example_cow n)" "free_pages (example_cow n) \<noteq> {}"
  "walk (kmem (example_cow n)) (cur_root (example_cow n)) 0x400010 = Some 0xF205" "cr3 (example_cow n) = t_pml4e (cur (example_cow n))"
  "t_vm (cur (example_cow n)) = [\<lparr>vm_node = 0, vm_start = 0x400000, vm_end = 0x401000\<rparr>]"
  "frame_refs 15 n (example_cow n)" "r (example_cow n) = 2"
proof -
  let ?root = "page_addr 7 + KERNBASE"
  obtain e where "walk (kmem (example_cow1 n)) ?root 0x400000 = Some e" using example_cow1_facts(4) by blast
  then obtain p1 where p1: "table_at (kmem (example_cow1 n)) ?root (vpath 0x400000) = Some p1" by (rule walk_SomeE)
  have ex: "example_cow n = wr p1 (tidx 12 0x400000) 0xF205 (example_cow1 n)"
    by (simp add: example_cow_def getPTE_table [OF p1])
  have v: "tidx 39 0x400000 \<noteq> 511" by (simp add: tidx_def)
  have e: "(0xF205 :: u64) AND 1 \<noteq> 0" by simp
  note leaf = leaf_store [OF example_cow1_facts(2) v p1 e ex]
  note mk = more_kernel [OF example_cow1_facts(5) [of n]]
  have tasks: "r (example_cow n) = 2" "q (example_cow n) = q (example_cow0 n)" using mk by (simp_all add: ex)
  then have root: "cur_root (example_cow n) = ?root" by simp
  show "pa_inv (example_cow n)" "free_pages (example_cow n) \<noteq> {}"
    using example_cow1_facts(1,3) [of n] by (simp_all add: ex alloc_wr)
  show "pt_tree (cur_root (example_cow n)) (example_cow n)" using leaf(1) unfolding root .
  have "walk (kmem (example_cow n)) ?root 0x400000 = Some 0xF205" using leaf(2) [OF v] by simp
  moreover have "(0x400010 :: u64) AND PTE_MASK = 0x400000" by simp
  ultimately show "walk (kmem (example_cow n)) (cur_root (example_cow n)) 0x400010 = Some 0xF205"
    using walk_page [of "kmem (example_cow n)" ?root "0x400010"] unfolding root by simp
  show "cr3 (example_cow n) = t_pml4e (cur (example_cow n))" using example_cow1_facts(6) [of n] tasks by (simp add: ex)
  show "t_vm (cur (example_cow n)) = [\<lparr>vm_node = 0, vm_start = 0x400000, vm_end = 0x401000\<rparr>]" using tasks by simp
  show "frame_refs 15 n (example_cow n)"
    using example_cow1_facts(7) [of n] by (simp add: frame_refs_def ex example_cow0_def)
  show "r (example_cow n) = 2" by (rule tasks)
qed

lemma example_cow_address: "has_address (t_vm (cur (example_cow n))) 0x400010" "t_vm (cur (example_cow n)) \<noteq> []"
  "tidx 39 0x400010 \<noteq> 511" "(0xF205 :: u64) AND 0x200 \<noteq> 0" "0xF205 AND PTE_MASK = page_addr 15"
  by (simp_all add: example_cow_facts(6) has_address_def tidx_def page_addr_def)

theorem isr14_copies_shared_page_witness:
  "\<exists>s' p. isr14 0x400010 (example_cow 2) = Inr s' \<and>
     walk (kmem s') (cur_root (example_cow 2)) 0x400010 = Some ((p AND PTE_MASK) OR 7) \<and>
     getrefcount (page_addr 15) s' = Inr 1"
  using isr14_copies_shared_page [OF example_cow_facts(1,2,5) [of 2] example_cow_address(2,1,3) example_cow_facts(4)
      example_cow_address(4,5) example_cow_facts(7,3)] by blast

theorem isr14_last_user_gets_page_witness:
  "\<exists>s'. isr14 0x400010 (example_cow 1) = Inr s' \<and>
     walk (kmem s') (cur_root (example_cow 1)) 0x400010 = Some ((0xF205 OR 2) AND 0xFFFFFFFFFFFFFDFF)"
  using isr14_last_user_gets_page [OF example_cow_facts(2) [of 1] example_cow_address(2,1,3) example_cow_facts(4)
      example_cow_address(4,5) example_cow_facts(7)] by blast

theorem isr14_three_users_hang_witness:
  "isr14 0x400010 (example_cow 3) = Inl Hang"
  by (rule isr14_three_users_hang [OF example_cow_address(2,1) example_cow_facts(4) example_cow_address(4,5)
      example_cow_facts(7)]) simp

theorem isr14_ends_stray_task_witness:
  "\<exists>s'. isr14 0x90000000 (example_cow0 1) = Inr s' \<and> t_state (q s' 2) = ZOMBIE \<and> kmem s' = kmem (example_cow0 1)"
proof -
  have "proc_inv (example_cow0 1)"
    using example_procs_inv by (auto simp: proc_inv_def cur_ok_def live_def example_cow0_def example_procs_tasks)
  from isr14_ends_stray_task [OF this, of "0x90000000"] show ?thesis
    by (auto simp: has_address_def)
qed

end
