(* ===== verification/Tarfs.thy ===== *)
theory Tarfs
  imports Terminal
begin

text \<open>
  The read-only file system of \<^verbatim>\<open>sys/tarfs.c\<close>, a tar archive linked into the kernel, and
  the directory calls of \<^verbatim>\<open>sys/process.c\<close> that use it. The archive itself is built
  outside the sources and is a parameter: its bytes, its length and the address it is loaded at. A
  header pointer is an offset into the archive. Characters of a buffer that the code reaches with a
  negative index are part of the buffer's index range here, so that such stores can be seen.
\<close>

section \<open>State\<close>

record fskernel = terminal +
  tar_base :: u64
  tar_img :: "nat \<Rightarrow> char"
  tar_len :: nat
  headers :: "nat list"

abbreviation n_headers :: nat where "n_headers \<equiv> 200"

text \<open>The C string at an offset, and the fields of \<^verbatim>\<open>posix_header_ustar\<close> at a header.\<close>

definition str_at :: "'a fskernel_scheme \<Rightarrow> nat \<Rightarrow> string" where
  "str_at s o' = takeWhile (\<lambda>c. c \<noteq> CHR 0x00) (map (tar_img s) [o'..<tar_len s])"

definition h_name :: "'a fskernel_scheme \<Rightarrow> nat \<Rightarrow> string" where
  "h_name s h = str_at s h"

definition h_size :: "'a fskernel_scheme \<Rightarrow> nat \<Rightarrow> string" where
  "h_size s h = str_at s (h + 124)"

text \<open>\<^verbatim>\<open>char\<close> is signed.\<close>

definition schar :: "char \<Rightarrow> int" where
  "schar c = (if of_char c < (128 :: int) then of_char c else of_char c - 256)"

section \<open>Reading the archive\<close>

definition getsize :: "(nat \<Rightarrow> char) \<Rightarrow> u32" where
  "getsize inp = fst (fold (\<lambda>j (sz, cnt). (sz + word_of_int (schar (inp (j - 1)) - 48) * cnt, cnt * 8))
     (rev [1..<12]) (0, 1))"

text \<open>The loop of \<^verbatim>\<open>init_tarfs\<close>; the 200 header slots bound it.\<close>

function init_tarfs_loop :: "(nat \<Rightarrow> char) \<Rightarrow> nat \<Rightarrow> nat \<Rightarrow> nat list \<Rightarrow> nat list res" where
  "init_tarfs_loop img len address hs =
     (if address < len then
        if length hs \<ge> n_headers then Inl OutOfBounds
        else
          let sz = getsize (\<lambda>k. img (address + 124 + k));
              nxt = address + unat ((sz div 512 + 1) * 512);
              nxt = (if sz mod 512 \<noteq> 0 then nxt + 512 else nxt)
          in init_tarfs_loop img len nxt (hs @ [address])
      else Inr hs)"
  by pat_completeness auto
termination
  by (relation "measure (\<lambda>(img, len, a, hs). n_headers - length hs)") auto

declare init_tarfs_loop.simps [simp del]

definition init_tarfs :: "'a fskernel_scheme \<Rightarrow> 'a fskernel_scheme res" where
  "init_tarfs s =
     rbind (init_tarfs_loop (tar_img s) (tar_len s) 0 (headers s)) (\<lambda>hs. Inr (s\<lparr>headers := hs\<rparr>))"

definition get_file_address :: "string \<Rightarrow> 'a fskernel_scheme \<Rightarrow> u64" where
  "get_file_address filename s =
     (case find (\<lambda>h. filename = h_name s h) (headers s) of
        Some h \<Rightarrow> tar_base s + of_nat h
      | None \<Rightarrow> - 1)"

section \<open>Paths\<close>

text \<open>
  \<^verbatim>\<open>while((abs_path[a] != '/') && a >= 0)\<close>: clear back to the last slash, or to one place
  before the buffer.
\<close>

function pop_component :: "(int \<Rightarrow> char) \<Rightarrow> int \<Rightarrow> (int \<Rightarrow> char) \<times> int" where
  "pop_component m a =
     (if m a \<noteq> CHR ''/'' \<and> a \<ge> 0 then pop_component (m(a := CHR 0x00)) (a - 1) else (m, a))"
  by pat_completeness auto
termination
  by (relation "measure (\<lambda>(m, a). nat (a + 1))") auto

declare pop_component.simps [simp del]

text \<open>The main loop over \<^verbatim>\<open>file_path\<close>: two dots go up, any other character is copied.\<close>

fun true_path_loop :: "string \<Rightarrow> (int \<Rightarrow> char) \<Rightarrow> int \<Rightarrow> (int \<Rightarrow> char) \<times> int" where
  "true_path_loop [] m a = (m, a)"
| "true_path_loop (c # cs) m a =
     (if c = CHR ''.'' \<and> cs \<noteq> [] \<and> hd cs = CHR ''.'' then
        let a = a - 1; (m, a) = pop_component (m(a := CHR 0x00)) a in true_path_loop (tl cs) m a
      else true_path_loop cs (m(a := c)) (a + 1))"

text \<open>The string a buffer holds.\<close>

function buf_str :: "(int \<Rightarrow> char) \<Rightarrow> nat \<Rightarrow> nat \<Rightarrow> string" where
  "buf_str m n i = (if i < n \<and> m (int i) \<noteq> CHR 0x00 then m (int i) # buf_str m n (i + 1) else [])"
  by pat_completeness auto
termination
  by (relation "measure (\<lambda>(m, n, i). n - i)") auto

declare buf_str.simps [simp del]

definition str_buf :: "string \<Rightarrow> (int \<Rightarrow> char)" where
  "str_buf t = (\<lambda>i. if 0 \<le> i \<and> i < int (length t) then t ! nat i else CHR 0x00)"

text \<open>
  \<^verbatim>\<open>setTruePath\<close> on a buffer of \<open>n\<close> bytes that holds \<open>path\<close>: the path is expanded into the 50
  bytes of \<^verbatim>\<open>file_path\<close> first.
\<close>

definition setTruePath :: "string \<Rightarrow> string \<Rightarrow> (int \<Rightarrow> char) res" where
  "setTruePath curr_dir path =
     (let file_path = (if path \<noteq> [] \<and> hd path = CHR ''/'' then tl path else tl curr_dir @ path) in
      if length file_path \<ge> 50 then Inl BufferOverflow
      else
        let (m, a) = true_path_loop file_path ((str_buf path)(0 := CHR 0x00)) 0 in
        Inr (m(a := CHR 0x00, a + 1 := CHR 0x00)))"

definition isfileexists :: "string \<Rightarrow> 'a fskernel_scheme \<Rightarrow> nat option res" where
  "isfileexists path s =
     (if length path \<ge> 100 then Inl BufferOverflow
      else rbind (setTruePath (t_curr_dir (cur s)) path) (\<lambda>fi.
        Inr (find (\<lambda>i. h_name s (headers s ! i) = buf_str fi 100 0) [0..<min 32 (length (headers s))])))"

definition isValidDirectory :: "string \<Rightarrow> 'a fskernel_scheme \<Rightarrow> nat option res" where
  "isValidDirectory path s =
     rbind (isfileexists path s) (\<lambda>n.
       case n of
         None \<Rightarrow> Inr None
       | Some n \<Rightarrow>
           let nm = h_name s (headers s ! n) in
           if nm = [] then Inl OutOfBounds
           else if last nm = CHR ''/'' then Inr (Some n) else Inr None)"

section \<open>Sizes\<close>

definition int32 :: "int \<Rightarrow> bool" where
  "int32 k \<longleftrightarrow> - 2147483648 \<le> k \<and> k \<le> 2147483647"

definition octal_dict :: "int list" where
  "octal_dict = [0, 1, 10, 11, 100, 101, 111, 0]"

fun oct_number :: "string \<Rightarrow> int \<Rightarrow> int res" where
  "oct_number [] k = Inr k"
| "oct_number (c # cs) k =
     (let k = (schar c - 48) + k * 10 in if int32 k then oct_number cs k else Inl SignedOverflow)"

function oct_loop :: "int \<Rightarrow> u64 \<Rightarrow> int \<Rightarrow> u64 res" where
  "oct_loop k bin i =
     (if k \<noteq> 0 then
        let temp = cmod k 10 in
        if temp < 0 \<or> temp \<ge> 8 then Inl OutOfBounds
        else if \<not> int32 (octal_dict ! nat temp * i) \<or> \<not> int32 (i * 1000) then Inl SignedOverflow
        else oct_loop (cdiv k 10) (bin + word_of_int (octal_dict ! nat temp * i)) (i * 1000)
      else Inr bin)"
  by pat_completeness auto
termination
proof (relation "measure (\<lambda>(k, b, i). nat \<bar>k\<bar>)")
  fix k bin i x assume "(k :: int) \<noteq> 0"
  then have "\<bar>cdiv k 10\<bar> < \<bar>k\<bar>" by (simp add: cdiv_def abs_mult)
  then show "((cdiv k 10, bin + word_of_int (octal_dict ! nat x * i), i * 1000), k, bin, i) \<in> measure (\<lambda>(k, b, i). nat \<bar>k\<bar>)"
    by simp
qed simp

declare oct_loop.simps [simp del]

definition octal_to_binary :: "string \<Rightarrow> u64 res" where
  "octal_to_binary octal = rbind (oct_number octal 0) (\<lambda>k. oct_loop k 0 1)"

section \<open>Files\<close>

abbreviation n_fd :: int where "n_fd \<equiv> 25"

definition set_fd :: "nat \<Rightarrow> file_t \<Rightarrow> 'a kernel_scheme \<Rightarrow> 'a kernel_scheme" where
  "set_fd i f s = set_task (r s) ((cur s)\<lparr>t_fd := (t_fd (cur s))(i := f)\<rparr>) s"

text \<open>
  The slot of a new descriptor: \<^verbatim>\<open>fd_c + 3\<close>, counted up and never down, in an array of 25.
\<close>

definition new_fd :: "'a kernel_scheme \<Rightarrow> (nat \<times> 'a kernel_scheme) res" where
  "new_fd s =
     (let fdc = t_fd_c (cur s) + 3 in
      if fdc < 0 \<or> n_fd \<le> fdc then Inl OutOfBounds
      else Inr (nat fdc, set_task (r s) ((cur s)\<lparr>t_fd_c := t_fd_c (cur s) + 1\<rparr>) s))"

definition open_dir :: "string \<Rightarrow> 'a fskernel_scheme \<Rightarrow> (int \<times> 'a fskernel_scheme) res" where
  "open_dir path s =
     (if path = ''/'' then
        rbind (new_fd s) (\<lambda>(fdc, s).
        Inr (int fdc, set_fd fdc ((t_fd (cur s) fdc)\<lparr>f_entry := 0, f_name := ''/''\<rparr>) s))
      else
        rbind (isValidDirectory path s) (\<lambda>n.
          case n of
            None \<Rightarrow> Inr (- 1, s)
          | Some file_no \<Rightarrow>
              let h = headers s ! file_no in
              rbind (new_fd s) (\<lambda>(fdc, s).
              if length (h_name s h) \<ge> 50 then Inl BufferOverflow
              else rbind (octal_to_binary (h_size s h)) (\<lambda>sz.
                Inr (int fdc, set_fd fdc ((t_fd (cur s) fdc)\<lparr>f_name := h_name s h, f_entry := 0, f_aval := 1,
                  f_size := sz, f_address := tar_base s + of_nat h, f_fd := int fdc\<rparr>) s)))))"

definition open_tarfs :: "string \<Rightarrow> int \<Rightarrow> 'a fskernel_scheme \<Rightarrow> (int \<times> 'a fskernel_scheme) res" where
  "open_tarfs path flags s =
     rbind (isfileexists path s) (\<lambda>n.
       case n of
         None \<Rightarrow> Inr (- 1, s)
       | Some file_no \<Rightarrow>
           let h = headers s ! file_no in
           rbind (new_fd s) (\<lambda>(fdc, s).
           if length (h_name s h) \<ge> 50 then Inl BufferOverflow
           else rbind (octal_to_binary (h_size s h)) (\<lambda>sz.
             Inr (int fdc, set_fd fdc ((t_fd (cur s) fdc)\<lparr>f_name := h_name s h, f_flags := word_of_int flags,
               f_entry := 0, f_aval := 1, f_size := sz, f_address := tar_base s + of_nat h, f_fd := int fdc\<rparr>) s))))"

definition fd_ok :: "int \<Rightarrow> bool" where
  "fd_ok fd \<longleftrightarrow> 0 \<le> fd \<and> fd < n_fd"

text \<open>
  \<^verbatim>\<open>read_tarfs\<close>: the result and the bytes stored at the caller's buffer, from the start of the
  file every time. The count is compared as an unsigned number and cut back to an \<^verbatim>\<open>int\<close>.
\<close>

definition read_tarfs :: "int \<Rightarrow> int \<Rightarrow> 'a fskernel_scheme \<Rightarrow> (int \<times> string) res" where
  "read_tarfs fd cnt s =
     (if \<not> fd_ok fd then Inl OutOfBounds
      else
        let f = t_fd (cur s) (nat fd) in
        if f_aval f = 0 then Inr (- 1, [])
        else if cnt = 0 then Inr (0, [])
        else
          let cnt = (if f_size f < word_of_int cnt then sint (ucast (f_size f) :: u32) else cnt);
              start = unat (f_address f - tar_base s) + 512
          in if cnt < 0 then Inl OutOfBounds
             else Inr (cnt, map (\<lambda>i. tar_img s (start + i)) [0..<nat cnt] @ [CHR 0x00]))"

fun starts_with :: "string \<Rightarrow> string \<Rightarrow> int" where
  "starts_with (a # as) (b # bs) = (if a = b then starts_with as bs + 1 else - 1)"
| "starts_with _ _ = - 1"

definition substring :: "string \<Rightarrow> int \<Rightarrow> string" where
  "substring t index = drop (nat (index + 1)) t"

text \<open>
  The loop of \<^verbatim>\<open>readdir_tarfs\<close> over the headers still to look at: the counter, the entry number of
  the descriptor, and the name found, if any.
\<close>

fun readdir_loop :: "string \<Rightarrow> string list \<Rightarrow> int \<Rightarrow> int \<Rightarrow> string option \<times> int" where
  "readdir_loop dir [] cnt entry = (None, entry)"
| "readdir_loop dir (nm # nms) cnt entry =
     (let index = starts_with nm dir in
      if index > 0 \<or> dir = ''/'' then
        if cnt = 0 then readdir_loop dir nms (cnt + 1) (if entry = 0 then entry + 1 else entry)
        else if cnt = entry then (Some (substring nm index), entry + 1)
        else readdir_loop dir nms (cnt + 1) entry
      else readdir_loop dir nms cnt entry)"

definition readdir_tarfs :: "int \<Rightarrow> 'a fskernel_scheme \<Rightarrow> (string option \<times> 'a fskernel_scheme) res" where
  "readdir_tarfs fd s =
     (if \<not> fd_ok fd then Inl OutOfBounds
      else
        let f = t_fd (cur s) (nat fd);
            (res, entry) = readdir_loop (f_name f) (map (h_name s) (take 32 (headers s))) 0 (f_entry f)
        in Inr (res, set_fd (nat fd) (f\<lparr>f_entry := entry\<rparr>) s))"

text \<open>\<^verbatim>\<open>close_tarfs\<close> clears a local copy of the descriptor.\<close>

definition close_tarfs :: "int \<Rightarrow> 'a fskernel_scheme \<Rightarrow> int res" where
  "close_tarfs fp s =
     (if \<not> fd_ok fp then Inl OutOfBounds
      else
        let ft = t_fd (cur s) (nat fp);
            ft = ft\<lparr>f_name := [], f_offset := 0, f_size := 0, f_aval := 0\<rparr>
        in Inr (f_fd ft))"

section \<open>Directories of a task\<close>

definition chdir :: "string \<Rightarrow> 'a fskernel_scheme \<Rightarrow> (int \<times> 'a fskernel_scheme) res" where
  "chdir path s =
     (let valid = rbind (isValidDirectory path s) (\<lambda>n.
            case n of
              None \<Rightarrow> Inr (- 1, s)
            | Some _ \<Rightarrow>
                rbind (setTruePath (t_curr_dir (cur s)) path) (\<lambda>k.
                let l = ''/'' @ buf_str k 100 0 in
                if length l \<ge> 50 then Inl BufferOverflow
                else Inr (0, set_task (r s) ((cur s)\<lparr>t_curr_dir := l\<rparr>) s))) in
      if path = ''../'' then
        rbind (setTruePath (t_curr_dir (cur s)) path) (\<lambda>k.
        if buf_str k 100 0 = '''' then Inr (0, set_task (r s) ((cur s)\<lparr>t_curr_dir := ''/''\<rparr>) s)
        else valid)
      else valid)"

definition getcwd :: "'a kernel_scheme \<Rightarrow> string res" where
  "getcwd s =
     (let b = t_curr_dir (cur s); l = length b in
      if l = 1 then Inr b else if l = 0 then Inl OutOfBounds else Inr (butlast b))"

section \<open>Octal fields\<close>

text \<open>The last \<open>m\<close> octal digits of \<open>n\<close>, as the archive writes sizes.\<close>

primrec octs :: "nat \<Rightarrow> nat \<Rightarrow> string" where
  "octs 0 n = []"
| "octs (Suc m) n = octs m (n div 8) @ [digit (n mod 8)]"

lemma length_octs [simp]: "length (octs m n) = m"
  by (induction m arbitrary: n) simp_all

lemma nth_octs: "i < m \<Longrightarrow> octs m n ! (m - Suc i) = digit (n div 8 ^ i mod 8)"
proof (induction m arbitrary: i n)
  case (Suc m)
  show ?case
  proof (cases i)
    case 0
    then show ?thesis by (simp add: nth_append)
  next
    case (Suc k)
    with Suc.prems have "k < m" "m - Suc k < m" by auto
    with Suc Suc.IH [of k "n div 8"] show ?thesis by (simp add: nth_append div_mult2_eq)
  qed
qed simp

lemma schar_digit: "d < 8 \<Longrightarrow> schar (digit d) - 48 = int d"
proof -
  assume "d < 8"
  then have "d \<in> set [0..<8]" by simp
  moreover have "\<forall>d \<in> set [0..<8]. schar (digit d) - 48 = int d" by code_simp
  ultimately show ?thesis by blast
qed

lemma getsize_fold:
  assumes "\<And>i. i < m \<Longrightarrow> schar (inp i) - 48 = int (n div 8 ^ i mod 8)"
  shows "fold (\<lambda>i (sz, cnt). (sz + word_of_int (schar (inp i) - 48) * cnt, cnt * 8)) [0..<m] (0, 1) =
    (of_nat (n mod 8 ^ m) :: u32, 8 ^ m)"
  using assms
proof (induction m)
  case (Suc m)
  have "n mod 8 ^ Suc m = 8 ^ m * (n div 8 ^ m mod 8) + n mod 8 ^ m"
    by (metis mod_mult2_eq power_Suc2)
  with Suc show ?case by (simp add: algebra_simps)
qed simp

lemma getsize_octs:
  assumes "\<And>k. k < 11 \<Longrightarrow> inp k = octs 11 n ! k" "n < 2 ^ 32"
  shows "unat (getsize inp) = n"
proof -
  have "rev [1..<12] = map (\<lambda>i. 11 - i) [0..<11 :: nat]" by code_simp
  then have "getsize inp = fst (fold (\<lambda>i (sz, cnt). (sz + word_of_int (schar (inp (10 - i)) - 48) * cnt, cnt * 8)) [0..<11] (0, 1))"
    by (simp add: getsize_def fold_map comp_def)
  also have "\<dots> = of_nat (n mod 8 ^ 11)"
    using getsize_fold [of 11 "\<lambda>i. inp (10 - i)" n] assms(1) nth_octs [of _ 11 n]
    by (simp add: schar_digit)
  finally show ?thesis using assms(2) by (simp add: unat_of_nat_lt)
qed

section \<open>Indexing the archive\<close>

definition entry_len :: "nat \<Rightarrow> nat" where
  "entry_len n = 512 + 512 * ((n + 511) div 512)"

text \<open>An archive of entries with the given sizes, from \<open>a\<close> to its end: every header has its size field.\<close>

fun archive_at :: "(nat \<Rightarrow> char) \<Rightarrow> nat \<Rightarrow> nat \<Rightarrow> nat list \<Rightarrow> bool" where
  "archive_at img len a [] \<longleftrightarrow> a = len"
| "archive_at img len a (n # ns) \<longleftrightarrow> a < len \<and> n < 2 ^ 31 \<and>
     map (\<lambda>k. img (a + 124 + k)) [0..<11] = octs 11 n \<and> archive_at img len (a + entry_len n) ns"

fun entry_offsets :: "nat \<Rightarrow> nat list \<Rightarrow> nat list" where
  "entry_offsets a [] = []"
| "entry_offsets a (n # ns) = a # entry_offsets (a + entry_len n) ns"

lemma length_entry_offsets [simp]: "length (entry_offsets a ns) = length ns"
  by (induction ns arbitrary: a) simp_all

lemma div_512_up: "(n + 511) div 512 = n div 512 + (if n mod 512 \<noteq> 0 then 1 else 0)" for n :: nat
proof -
  have "(n + 511) div 512 = (n mod 512 + 511 + 512 * (n div 512)) div 512" by simp
  also have "\<dots> = (n mod 512 + 511) div 512 + n div 512" by (subst div_mult_self2) simp_all
  also have "(n mod 512 + 511) div 512 = (if n mod 512 \<noteq> 0 then 1 else 0)"
    by (simp add: div_nat_eqI)
  finally show ?thesis by simp
qed

lemma entry_step:
  assumes "map (\<lambda>k. img (a + 124 + k)) [0..<11] = octs 11 n" "n < 2 ^ 31"
  defines "sz \<equiv> getsize (\<lambda>k. img (a + 124 + k))"
  shows "(if sz mod 512 \<noteq> 0 then a + unat ((sz div 512 + 1) * 512) + 512 else a + unat ((sz div 512 + 1) * 512)) = a + entry_len n"
proof -
  have "img (a + 124 + k) = octs 11 n ! k" if "k < 11" for k
    using arg_cong [OF assms(1), of "\<lambda>l. l ! k"] that by simp
  then have sz: "unat sz = n" unfolding sz_def using assms(2) by (intro getsize_octs) simp_all
  have d: "unat (sz div 512) = n div 512" by (simp add: unat_div sz)
  have q: "n div 512 < 2 ^ 22" using assms(2) by (simp add: less_mult_imp_div_less)
  then have "n div 512 * 512 + 512 < 4294967296" by simp
  with q have "unat ((sz div 512 + 1) * 512) = (n div 512 + 1) * 512"
    by (simp add: unat_word_ariths d sz)
  moreover have "unat (sz mod 512) = n mod 512" by (simp add: unat_mod sz)
  then have "sz mod 512 \<noteq> 0 \<longleftrightarrow> n mod 512 \<noteq> 0"
    using unat_0_iff [of "sz mod 512"] by simp
  moreover have "(n div 512 + 1) * 512 + (if n mod 512 \<noteq> 0 then 512 else 0) = entry_len n"
    unfolding entry_len_def div_512_up by simp
  ultimately show ?thesis by (auto split: if_splits)
qed

lemma init_tarfs_loop_archive:
  "archive_at img len a ns \<Longrightarrow> length hs + length ns \<le> n_headers \<Longrightarrow>
     init_tarfs_loop img len a hs = Inr (hs @ entry_offsets a ns)"
proof (induction ns arbitrary: a hs)
  case Nil
  then show ?case by (subst init_tarfs_loop.simps) simp
next
  case (Cons n ns)
  then have "init_tarfs_loop img len (a + entry_len n) (hs @ [a]) = Inr (hs @ entry_offsets a (n # ns))" by simp
  moreover have "init_tarfs_loop img len a hs = init_tarfs_loop img len (a + entry_len n) (hs @ [a])"
  proof -
    from Cons.prems have c: "a < len" "\<not> n_headers \<le> length hs" "n < 2 ^ 31"
      "map (\<lambda>k. img (a + 124 + k)) [0..<11] = octs 11 n" by simp_all
    show ?thesis
      unfolding init_tarfs_loop.simps [of img len a hs] Let_def entry_step [OF c(4,3)]
      using c(1,2) by simp
  qed
  ultimately show ?case by simp
qed

lemma h_name_headers [simp]: "h_name (s\<lparr>headers := hs\<rparr>) = h_name s"
  by (rule ext) (simp add: h_name_def str_at_def)

lemma find_map_first:
  assumes "k < length hs" "\<forall>j<k. f (hs ! j) \<noteq> f (hs ! k)"
  shows "find (\<lambda>h. f (hs ! k) = f h) hs = Some (hs ! k)"
  using assms by (auto simp: find_Some_iff intro!: exI [of _ k])


section \<open>Resolving paths\<close>

text \<open>The reference: a stack of components.\<close>

definition up_dir :: "string list \<Rightarrow> string list" where
  "up_dir st = (if st = [] then [] else butlast st)"

fun resolve :: "string list \<Rightarrow> string list \<Rightarrow> string list" where
  "resolve st [] = st"
| "resolve st (c # cs) = resolve (if c = ''..'' then up_dir st else st @ [c]) cs"

definition render :: "string list \<Rightarrow> string" where
  "render cs = concat (map (\<lambda>c. c @ ''/'') cs)"

text \<open>A component: a name without slash, end-of-string and two dots in a row, or \<open>..\<close> itself.\<close>

fun no_dots :: "string \<Rightarrow> bool" where
  "no_dots (a # b # cs) \<longleftrightarrow> \<not> (a = CHR ''.'' \<and> b = CHR ''.'') \<and> no_dots (b # cs)"
| "no_dots _ \<longleftrightarrow> True"

definition plain :: "string \<Rightarrow> bool" where
  "plain c \<longleftrightarrow> c \<noteq> [] \<and> CHR ''/'' \<notin> set c \<and> no_dots c \<and> CHR 0x00 \<notin> set c"

definition component :: "string \<Rightarrow> bool" where
  "component c \<longleftrightarrow> c = ''..'' \<or> plain c"

text \<open>A buffer that starts with a string.\<close>

definition holds :: "(int \<Rightarrow> char) \<Rightarrow> string \<Rightarrow> bool" where
  "holds m t \<longleftrightarrow> (\<forall>i<length t. m (int i) = t ! i)"

lemma holds_upd: "holds m t \<Longrightarrow> a < 0 \<or> int (length t) \<le> a \<Longrightarrow> holds (m(a := c)) t"
  by (auto simp: holds_def)

lemma holds_snoc: "holds m t \<Longrightarrow> holds (m(int (length t) := c)) (t @ [c])"
  by (auto simp: holds_def nth_append)

lemma holds_prefix: "holds m (t @ u) \<Longrightarrow> holds m t"
  by (auto simp: holds_def nth_append dest: spec [where x = "_ :: nat"])

lemma holds_nth: "holds m (t @ c # u) \<Longrightarrow> m (int (length t)) = c"
  by (auto simp: holds_def nth_append dest: spec [of _ "length t"])

lemma holds_agree: "holds m t \<Longrightarrow> (\<And>k. 0 \<le> k \<Longrightarrow> k < int (length t) \<Longrightarrow> m' k = m k) \<Longrightarrow> holds m' t"
  by (auto simp: holds_def)

text \<open>Characters are copied, unless there are two dots in a row.\<close>

lemma no_dots_tl: "no_dots (c # t) \<Longrightarrow> no_dots t"
  by (cases t) simp_all

lemma no_dots_snoc: "no_dots t \<Longrightarrow> c \<noteq> CHR ''.'' \<Longrightarrow> no_dots (t @ [c])"
  by (induction t rule: no_dots.induct) (auto simp: neq_Nil_conv elim: no_dots.elims)

lemma true_path_copy:
  assumes "no_dots (t @ take 1 rest)" "holds m u"
  shows "\<exists>m'. holds m' (u @ t) \<and>
    true_path_loop (t @ rest) m (int (length u)) = true_path_loop rest m' (int (length (u @ t)))"
  using assms
proof (induction t arbitrary: m u)
  case (Cons c t)
  have "holds (m(int (length u) := c)) (u @ [c])" using Cons.prems(2) by (rule holds_snoc)
  moreover have "no_dots (t @ take 1 rest)" using Cons.prems(1) by (simp add: no_dots_tl)
  ultimately obtain m' where "holds m' ((u @ [c]) @ t)"
    "true_path_loop (t @ rest) (m(int (length u) := c)) (int (length (u @ [c]))) =
       true_path_loop rest m' (int (length ((u @ [c]) @ t)))"
    using Cons.IH [of "m(int (length u) := c)" "u @ [c]"] by blast
  moreover have "\<not> (c = CHR ''.'' \<and> t @ rest \<noteq> [] \<and> hd (t @ rest) = CHR ''.'')"
    using Cons.prems(1) by (cases t; cases rest) auto
  ultimately show ?case by (auto simp: ac_simps intro!: exI [of _ m'])
qed auto

text \<open>The inner loop goes back to the place before the last component.\<close>

lemma pop_component_to:
  assumes "0 \<le> lo" "lo \<le> a + 1" "\<And>k. lo \<le> k \<Longrightarrow> k \<le> a \<Longrightarrow> m k \<noteq> CHR ''/''" "lo = 0 \<or> m (lo - 1) = CHR ''/''"
  shows "\<exists>m'. pop_component m a = (m', lo - 1) \<and> (\<forall>k<lo. m' k = m k)"
  using assms
proof (induction m a rule: pop_component.induct)
  case (1 m a)
  show ?case
  proof (cases "lo = a + 1")
    case True
    then show ?thesis using 1(4,5) \<open>0 \<le> lo\<close> by (subst pop_component.simps) auto
  next
    case False
    with 1(2-4) have g: "m a \<noteq> CHR ''/'' \<and> a \<ge> 0" and lo: "lo \<le> a" by auto
    have "\<exists>m'. pop_component (m(a := CHR 0x00)) (a - 1) = (m', lo - 1) \<and> (\<forall>k<lo. m' k = (m(a := CHR 0x00)) k)"
      using 1(2,4,5) lo by (intro 1(1) [OF g]) auto
    then show ?thesis using g lo by (subst pop_component.simps) auto
  qed
qed

lemma render_Nil [simp]: "render [] = ''''" and render_Cons [simp]: "render (c # cs) = c @ ''/'' @ render cs"
  and render_append [simp]: "render (cs @ ds) = render cs @ render ds"
  by (simp_all add: render_def)

lemma render_last: "st \<noteq> [] \<Longrightarrow> \<exists>t. render st = t @ ''/''"
  by (cases st rule: rev_cases) simp_all

lemma holds_slash:
  assumes "holds m (render st)"
  shows "holds (m(int (length (render st)) - 1 := CHR ''/'')) (render st)"
proof (cases "st = []")
  case False
  then obtain t where "render st = t @ ''/''" using render_last by blast
  with assms show ?thesis by (auto simp: holds_def nth_append)
qed (simp add: holds_def)

lemma true_path_up:
  assumes "holds m (render st)" "\<forall>c\<in>set st. plain c"
  shows "\<exists>m'. holds m' (render (up_dir st)) \<and>
    true_path_loop (''../'' @ rest) m (int (length (render st))) =
      true_path_loop rest m' (int (length (render (up_dir st))))"
proof -
  let ?n = "int (length (render st))" and ?lo = "int (length (render (up_dir st)))"
  let ?m = "m(?n - 1 := CHR 0x00)"
  have eq: "st \<noteq> [] \<Longrightarrow> render st = render (up_dir st) @ last st @ ''/''"
    by (cases st rule: rev_cases) (simp_all add: up_dir_def)
  have len: "?lo \<le> ?n - 1 + 1" by (cases "st = []") (simp_all add: up_dir_def eq)
  have no_slash: "?m k \<noteq> CHR ''/''" if k: "?lo \<le> k" "k \<le> ?n - 1" for k
  proof (cases "k = ?n - 1")
    case False
    then have "st \<noteq> []" using k by (auto simp: up_dir_def)
    then have p: "plain (last st)" using assms(2) by simp
    define j where "j = nat (k - ?lo)"
    have j: "k = int (length (render (up_dir st)) + j)" "j < length (last st)"
      using k False eq [OF \<open>st \<noteq> []\<close>] by (simp_all add: j_def)
    then have "m k = last st ! j"
      using assms(1) eq [OF \<open>st \<noteq> []\<close>]
      by (simp only: holds_def) (auto simp: nth_append dest!: spec [of _ "length (render (up_dir st)) + j"])
    then show ?thesis using p j False by (auto simp: plain_def dest: nth_mem)
  qed simp
  have stop: "?lo = 0 \<or> ?m (?lo - 1) = CHR ''/''"
  proof (cases "up_dir st = []")
    case False
    then obtain t where t: "render (up_dir st) = t @ ''/''" using render_last by blast
    from False have "st \<noteq> []" by (auto simp: up_dir_def)
    then have "m (?lo - 1) = CHR ''/''" "?lo - 1 \<noteq> ?n - 1"
      using assms(1) eq t holds_nth [of m t "CHR ''/''" "last st @ ''/''"] by auto
    then show ?thesis by simp
  qed simp
  obtain m' where pop: "pop_component ?m (?n - 1) = (m', ?lo - 1)" and keep: "\<forall>k<?lo. m' k = ?m k"
    using pop_component_to [of ?lo "?n - 1" ?m, OF _ len no_slash stop] by auto
  have "holds m (render (up_dir st))"
    using assms(1) eq holds_prefix by (cases "st = []") (auto simp: up_dir_def)
  moreover have "?lo \<le> ?n - 1 \<or> ?lo = 0" using eq by (cases "st = []") (simp_all add: up_dir_def)
  ultimately have "holds m' (render (up_dir st))"
    using keep by (auto intro: holds_agree)
  then have "holds (m'(?lo - 1 := CHR ''/'')) (render (up_dir st))" by (rule holds_slash)
  moreover have "true_path_loop (''../'' @ rest) m ?n = true_path_loop rest (m'(?lo - 1 := CHR ''/'')) ?lo"
    by (simp add: pop Let_def)
  ultimately show ?thesis by blast
qed

lemma true_path_render:
  assumes "holds m (render st)" "\<forall>c\<in>set st. plain c" "\<forall>c\<in>set cs. component c"
  shows "\<exists>m'. holds m' (render (resolve st cs)) \<and>
    true_path_loop (render cs @ f) m (int (length (render st))) =
      true_path_loop f m' (int (length (render (resolve st cs))))"
  using assms
proof (induction cs arbitrary: m st)
  case (Cons c cs)
  let ?st = "if c = ''..'' then up_dir st else st @ [c]"
  have "\<exists>m'. holds m' (render ?st) \<and>
    true_path_loop (render (c # cs) @ f) m (int (length (render st))) =
      true_path_loop (render cs @ f) m' (int (length (render ?st)))"
  proof (cases "c = ''..''")
    case True
    then show ?thesis using true_path_up [OF Cons.prems(1,2), of "render cs @ f"] by simp
  next
    case False
    then have "no_dots (c @ take 1 (CHR ''/'' # render cs @ f))"
      using Cons.prems(3) by (auto simp: component_def plain_def no_dots_snoc)
    then obtain m1 where m1: "holds m1 (render st @ c)"
      "true_path_loop (c @ CHR ''/'' # render cs @ f) m (int (length (render st))) =
         true_path_loop (CHR ''/'' # render cs @ f) m1 (int (length (render st @ c)))"
      using true_path_copy [OF _ Cons.prems(1)] by blast
    then show ?thesis using False holds_snoc [OF m1(1), of "CHR ''/''"]
      by (auto simp: ac_simps intro!: exI [of _ "m1(int (length (render st @ c)) := CHR ''/'')"])
  qed
  then obtain m' where m': "holds m' (render ?st)"
    "true_path_loop (render (c # cs) @ f) m (int (length (render st))) =
       true_path_loop (render cs @ f) m' (int (length (render ?st)))"
    by blast
  have "\<forall>c\<in>set ?st. plain c" using Cons.prems(2,3) by (auto simp: component_def up_dir_def dest: in_set_butlastD)
  then show ?case using Cons.IH [OF m'(1)] Cons.prems(3) m'(2) by simp
qed auto

lemma buf_str_holds:
  assumes "holds m (u @ t)" "m (int (length (u @ t))) = CHR 0x00" "CHR 0x00 \<notin> set t" "length (u @ t) < n"
  shows "buf_str m n (length u) = t"
  using assms
proof (induction t arbitrary: u)
  case Nil
  then show ?case by (subst buf_str.simps) simp
next
  case (Cons c t)
  have "m (int (length u)) = c" using Cons.prems(1) by (rule holds_nth)
  moreover have "buf_str m n (length (u @ [c])) = t" using Cons.prems by (intro Cons.IH) simp_all
  ultimately show ?case using Cons.prems by (subst buf_str.simps) auto
qed

lemma resolve_plain: "\<forall>c\<in>set st. plain c \<Longrightarrow> \<forall>c\<in>set cs. component c \<Longrightarrow> \<forall>c\<in>set (resolve st cs). plain c"
proof (induction cs arbitrary: st)
  case (Cons c cs)
  then have "component c" "\<forall>c\<in>set cs. component c" by simp_all
  then have "\<forall>d\<in>set (if c = ''..'' then up_dir st else st @ [c]). plain d"
    using Cons.prems(1) by (auto simp: component_def up_dir_def dest: in_set_butlastD)
  from Cons.IH [OF this \<open>\<forall>c\<in>set cs. component c\<close>] show ?case by simp
qed simp

lemma render_no_nul: "\<forall>c\<in>set st. plain c \<Longrightarrow> CHR 0x00 \<notin> set (render st)"
  by (induction st) (auto simp: plain_def)

lemma length_resolve: "length (render (resolve st cs)) \<le> length (render st) + length (render cs)"
proof (induction cs arbitrary: st)
  case (Cons c cs)
  have "length (render (up_dir st)) \<le> length (render st)"
    by (cases st rule: rev_cases) (simp_all add: up_dir_def)
  then show ?case using Cons [of "up_dir st"] Cons [of "st @ [c]"] by auto
qed simp

text \<open>What follows the last slash: the name of a file, or nothing.\<close>

definition tail_name :: "string \<Rightarrow> bool" where
  "tail_name f \<longleftrightarrow> f = [] \<or> plain f"

lemma setTruePath_render:
  assumes "\<forall>c\<in>set cs. component c" "tail_name f" "length (render cs @ f) < 50"
    and path: "(if path \<noteq> [] \<and> hd path = CHR ''/'' then tl path else tl cd @ path) = render cs @ f"
  shows "\<exists>m. setTruePath cd path = Inr m \<and> buf_str m 100 0 = render (resolve [] cs) @ f"
proof -
  let ?u = "render (resolve [] cs)" and ?m0 = "(str_buf path)(0 := CHR 0x00)"
  let ?t = "?u @ f"
  obtain m1 where m1: "holds m1 ?u" "true_path_loop (render cs @ f) ?m0 0 = true_path_loop f m1 (int (length ?u))"
    using true_path_render [of ?m0 "[]" cs f] assms(1) by (auto simp: holds_def)
  have "no_dots (f @ take 1 [])" using assms(2) by (auto simp: tail_name_def plain_def)
  then obtain m where m: "holds m ?t" "true_path_loop f m1 (int (length ?u)) = (m, int (length ?t))"
    using true_path_copy [OF _ m1(1), of f "[]"] by auto
  let ?m = "m(int (length ?t) := CHR 0x00, int (length ?t) + 1 := CHR 0x00)"
  have "holds ?m ?t" using m(1) by (intro holds_upd) auto
  moreover have "CHR 0x00 \<notin> set ?t"
    using resolve_plain [of "[]" cs] assms(1,2) render_no_nul by (auto simp: tail_name_def plain_def)
  moreover have "length ?t < 100" using length_resolve [of "[]" cs] assms(3) by simp
  ultimately have "buf_str ?m 100 0 = ?t" using buf_str_holds [of ?m "[]" ?t 100] by simp
  then show ?thesis using m1(2) m(2) assms(3) by (simp add: setTruePath_def path)
qed

lemma setTruePath_relative:
  assumes "\<forall>c\<in>set (ds @ cs). component c" "tail_name f" "length (render (ds @ cs) @ f) < 50"
  shows "\<exists>m. setTruePath (''/'' @ render ds) (render cs @ f) = Inr m \<and>
    buf_str m 100 0 = render (resolve [] (ds @ cs)) @ f"
proof -
  have h: "plain c \<Longrightarrow> hd c \<noteq> CHR ''/''" for c by (cases c) (auto simp: plain_def)
  have "render cs @ f = [] \<or> hd (render cs @ f) \<noteq> CHR ''/''"
  proof (cases cs)
    case (Cons c cs')
    with assms(1) have "c \<noteq> [] \<and> hd c \<noteq> CHR ''/''" using h [of c] by (auto simp: component_def plain_def)
    then show ?thesis using Cons by simp
  qed (use assms(2) h [of f] in \<open>auto simp: tail_name_def\<close>)
  then show ?thesis using assms by (intro setTruePath_render) auto
qed



text \<open>A \<open>..\<close> at the root puts its slash one place before the buffer.\<close>

lemma parent_of_root_writes_before_buffer:
  "\<exists>m. setTruePath ''/'' ''../'' = Inr m \<and> m (- 1) = CHR ''/''"
  by (simp add: setTruePath_def Let_def pop_component.simps)

section \<open>The size of an opened file\<close>

text \<open>The octal digits of \<open>n\<close>, read as decimal digits.\<close>

fun oct_dec :: "nat \<Rightarrow> nat" where
  "oct_dec n = (if n = 0 then 0 else 10 * oct_dec (n div 8) + n mod 8)"

declare oct_dec.simps [simp del]

lemma oct_dec_0 [simp]: "oct_dec 0 = 0" and oct_dec_step: "oct_dec n = 10 * oct_dec (n div 8) + n mod 8"
  by (subst oct_dec.simps; simp)+

lemma oct_dec_eq_0: "oct_dec n = 0 \<longleftrightarrow> n = 0"
proof (induction n rule: less_induct)
  case (less n)
  show ?case
  proof (cases "n = 0")
    case False
    then have "n div 8 \<noteq> 0 \<or> n mod 8 \<noteq> 0" by presburger
    then show ?thesis using less [of "n div 8"] False by (subst oct_dec_step) auto
  qed simp
qed

lemma oct_number_append: "oct_number (xs @ ys) k = rbind (oct_number xs k) (oct_number ys)"
  by (induction xs arbitrary: k) (simp_all add: Let_def)

lemma oct_number_octs:
  "n < 8 ^ m \<Longrightarrow> oct_number (octs m n) 0 = (if oct_dec n \<le> 2147483647 then Inr (int (oct_dec n)) else Inl SignedOverflow)"
proof (induction m arbitrary: n)
  case (Suc m)
  then have "n div 8 < 8 ^ m" by (simp add: less_mult_imp_div_less mult.commute)
  then have "oct_number (octs m (n div 8)) 0 =
    (if oct_dec (n div 8) \<le> 2147483647 then Inr (int (oct_dec (n div 8))) else Inl SignedOverflow)"
    by (rule Suc.IH)
  moreover have "schar (digit (n mod 8)) - 48 = int (n mod 8)" by (rule schar_digit) simp
  ultimately show ?case
    using oct_dec_step [of n] by (simp add: oct_number_append Let_def int32_def)
qed simp

lemma octal_dict_bounds:
  "j < 8 \<Longrightarrow> 0 \<le> octal_dict ! j \<and> octal_dict ! j \<le> 111 \<and> (octal_dict ! j = 0 \<longrightarrow> j = 0 \<or> j = 7) \<and>
     (octal_dict ! j < 12 \<or> 100 \<le> octal_dict ! j) \<and> (octal_dict ! j = int j \<longleftrightarrow> j < 2)" (is "_ \<Longrightarrow> ?P j")
proof -
  assume "j < 8"
  then have "j \<in> set [0..<8]" by simp
  moreover have "\<forall>j \<in> set [0..<8]. ?P j" by code_simp
  ultimately show ?thesis by blast
qed

lemma octal_dict_0 [simp]: "octal_dict ! 0 = 0"
  by (simp add: octal_dict_def)

lemma oct_loop_0 [simp]: "oct_loop 0 b i = Inr b"
  by (simp add: oct_loop.simps)

lemma oct_loop_step:
  assumes "0 < n"
  shows "oct_loop (int (oct_dec n)) b i =
    (if \<not> int32 (octal_dict ! (n mod 8) * i) \<or> \<not> int32 (i * 1000) then Inl SignedOverflow
     else oct_loop (int (oct_dec (n div 8))) (b + word_of_int (octal_dict ! (n mod 8) * i)) (i * 1000))"
proof -
  have "n mod 8 < 10" by (rule less_le_trans [of _ 8]) simp_all
  then have "cmod (int (oct_dec n)) 10 = int (n mod 8)" "cdiv (int (oct_dec n)) 10 = int (oct_dec (n div 8))"
    by (simp_all add: cmod_nonneg cdiv_nonneg oct_dec_step [of n])
  moreover have "oct_dec n \<noteq> 0" using assms by (simp add: oct_dec_eq_0)
  moreover have "\<not> (int (n mod 8) < 0 \<or> 8 \<le> int (n mod 8))" by simp
  ultimately show ?thesis
    unfolding oct_loop.simps [of "int (oct_dec n)"] Let_def by (simp del: of_nat_mod)
qed

text \<open>The number the code takes for a size of at most three octal digits.\<close>

definition misread :: "nat \<Rightarrow> int" where
  "misread n = octal_dict ! (n mod 8) + 1000 * octal_dict ! (n div 8 mod 8) + 1000000 * octal_dict ! (n div 64 mod 8)"

lemma oct_loop_small:
  assumes "n < 512"
  shows "oct_loop (int (oct_dec n)) 0 1 = Inr (word_of_int (misread n))"
proof -
  have b: "0 \<le> octal_dict ! (k mod 8)" "octal_dict ! (k mod 8) \<le> 111" for k
    using octal_dict_bounds [of "k mod 8"] by simp_all
  have s: "oct_loop (int (oct_dec k)) c (1000 ^ j) =
      oct_loop (int (oct_dec (k div 8))) (c + word_of_int (octal_dict ! (k mod 8) * 1000 ^ j)) (1000 ^ Suc j)"
    if "j < 3" "0 < k" for j k c
  proof -
    have "(1000 :: int) ^ j \<le> 1000 ^ 2" using that by (intro power_increasing) auto
    then have "octal_dict ! (k mod 8) * 1000 ^ j \<le> 111 * 1000 ^ 2" using b by (intro mult_mono) auto
    moreover have "(1000 :: int) ^ j * 1000 \<le> 1000 ^ 2 * 1000" using \<open>1000 ^ j \<le> 1000 ^ 2\<close> by simp
    moreover have "0 \<le> octal_dict ! (k mod 8) * 1000 ^ j" "(0 :: int) \<le> 1000 ^ j * 1000" using b(1) [of k] by simp_all
    ultimately have "int32 (octal_dict ! (k mod 8) * 1000 ^ j)" "int32 (1000 ^ j * 1000)"
      unfolding int32_def by (auto intro: order_trans [of _ "0 :: int"])
    then show ?thesis using oct_loop_step [OF that(2), of c "1000 ^ j"] by (simp add: mult.commute)
  qed
  have s': "oct_loop (int (oct_dec k)) c (1000 ^ j) = 
      oct_loop (int (oct_dec (k div 8))) (c + word_of_int (octal_dict ! (k mod 8) * 1000 ^ j)) (1000 ^ Suc j)"
    if "j < 3" for j k c
    using s [OF that, of k c] by (cases "k = 0") simp_all
  have "oct_loop (int (oct_dec n)) 0 (1000 ^ 0) = oct_loop (int (oct_dec (n div 8 div 8 div 8)))
      (0 + word_of_int (octal_dict ! (n mod 8) * 1000 ^ 0) + word_of_int (octal_dict ! (n div 8 mod 8) * 1000 ^ 1)
         + word_of_int (octal_dict ! (n div 8 div 8 mod 8) * 1000 ^ 2)) (1000 ^ 3)"
    using s' [of 0 n 0] s' [of 1 "n div 8"] s' [of 2 "n div 8 div 8"] by simp
  then show ?thesis
    using assms by (simp add: misread_def algebra_simps flip: div_mult2_eq)
qed

lemma oct_loop_large:
  assumes "512 \<le> n"
  shows "oct_loop (int (oct_dec n)) 0 1 = Inl SignedOverflow"
proof -
  have p: "0 < n" "0 < n div 8" "0 < n div 8 div 8" "0 < n div 8 div 8 div 8"
    using assms by (simp_all flip: div_mult2_eq add: div_greater_zero_iff)
  have "\<not> int32 ((1000000000 :: int) * 1000)" by (simp add: int32_def)
  then show ?thesis
    using oct_loop_step [OF p(1)] oct_loop_step [OF p(2)] oct_loop_step [OF p(3)] oct_loop_step [OF p(4)]
    by simp
qed

lemma misread_wrong: "n < 512 \<Longrightarrow> 0 \<le> misread n \<and> misread n < 2 ^ 64 \<and> (misread n = int n \<longleftrightarrow> n < 2)"
proof -
  assume n: "n < 512"
  define a b c where "a = n div 64" and "b = n div 8 mod 8" and "c = n mod 8"
  have digits: "n = c + 8 * b + 64 * a"
    unfolding a_def b_def c_def using mod_mult2_eq [of n 8 8] mult_div_mod_eq [of 64 n] by simp
  have "a < 8" "b < 8" "c < 8" using n by (simp_all add: a_def b_def c_def less_mult_imp_div_less)
  note d = octal_dict_bounds [OF \<open>a < 8\<close>] octal_dict_bounds [OF \<open>b < 8\<close>] octal_dict_bounds [OF \<open>c < 8\<close>]
  have m: "misread n = octal_dict ! c + 1000 * octal_dict ! b + 1000000 * octal_dict ! a"
    using \<open>a < 8\<close> by (simp add: misread_def a_def b_def c_def)
  have "misread n = int n \<longleftrightarrow> n < 2"
  proof (cases "octal_dict ! a = 0 \<and> octal_dict ! b = 0")
    case True
    then have "(a = 0 \<or> a = 7) \<and> (b = 0 \<or> b = 7)" using d by blast
    then consider "a = 7" | "a = 0" "b = 7" | "a = 0" "b = 0" by blast
    then show ?thesis
    proof cases
      case 3
      then have "n = c" using digits by simp
      then show ?thesis using d(3) True m by simp
    qed (use d(3) True m digits \<open>c < 8\<close> in linarith)+
  next
    case False
    then have "1 \<le> octal_dict ! a \<or> 1 \<le> octal_dict ! b" using d(1,2) by linarith
    moreover have "0 \<le> octal_dict ! a" "0 \<le> octal_dict ! b" "0 \<le> octal_dict ! c" using d by blast+
    ultimately have "1000 \<le> misread n" unfolding m by linarith
    moreover have "2 \<le> n" using False digits by (cases "a = 0 \<and> b = 0") auto
    ultimately show ?thesis using n by simp
  qed
  then show ?thesis using m d by auto
qed

text \<open>
  The size of an opened file is wrong for every file of two bytes or more. The octal field of the
  archive is turned into decimal numbers that look like binary ones, with \<open>111\<close> for 6 and \<open>0\<close> for 7; from
  512 bytes on the conversion overflows an \<open>int\<close>. Only the sizes 0 and 1 come out right.
\<close>

theorem octal_to_binary_misreads:
  assumes "n < 8 ^ 11"
  shows "octal_to_binary (octs 11 n) = (if n < 512 then Inr (word_of_int (misread n)) else Inl SignedOverflow)
    \<and> (octal_to_binary (octs 11 n) = Inr (of_nat n) \<longleftrightarrow> n < 2)"
proof -
  have eq: "octal_to_binary (octs 11 n) = (if n < 512 then Inr (word_of_int (misread n)) else Inl SignedOverflow)"
  proof (cases "n < 512")
    case True
    then have "n div 8 div 8 div 8 = 0" by (simp flip: div_mult2_eq)
    then have "oct_dec n = 10 * (10 * (n div 8 div 8 mod 8) + n div 8 mod 8) + n mod 8"
      using oct_dec_step [of n] oct_dec_step [of "n div 8"] oct_dec_step [of "n div 8 div 8"] by simp
    also have "\<dots> \<le> 10 * (10 * 7 + 7) + 7" by (intro add_mono mult_le_mono) (simp_all add: less_Suc_eq_le [symmetric])
    finally have "oct_dec n \<le> 2147483647" by simp
    with True show ?thesis using oct_number_octs [OF assms] by (simp add: octal_to_binary_def oct_loop_small)
  next
    case False
    then show ?thesis using oct_number_octs [OF assms] by (simp add: octal_to_binary_def oct_loop_large)
  qed
  have "word_of_int (misread n) = (of_nat n :: u64) \<longleftrightarrow> n < 2" if "n < 512"
  proof -
    have "uint (word_of_int (misread n) :: u64) = misread n" "uint (of_nat n :: u64) = int n"
      using misread_wrong [OF that] that by (simp_all add: uint_word_of_int_eq take_bit_int_eq_self unsigned_of_nat take_bit_nat_eq_self)
    then show ?thesis using misread_wrong [OF that] by (metis word_uint_eqI)
  qed
  with eq show ?thesis by auto
qed

theorem octal_to_binary_misreads_witness:
  "octal_to_binary (octs 11 8) = Inr 1000 \<and> octal_to_binary (octs 11 512) = Inl SignedOverflow"
proof -
  have "misread 8 = 1000" by code_simp
  then show ?thesis
    using octal_to_binary_misreads [of 8] octal_to_binary_misreads [of 512] by simp
qed

section \<open>Opening and reading\<close>

lemma isfileexists_first:
  assumes "setTruePath (t_curr_dir (cur s)) path = Inr fi" "length path < 100"
    and "k < 32" "k < length (headers s)" "h_name s (headers s ! k) = buf_str fi 100 0"
    and "\<forall>j<k. h_name s (headers s ! j) \<noteq> buf_str fi 100 0"
  shows "isfileexists path s = Inr (Some k)"
  using assms by (auto simp: isfileexists_def find_upt)

lemma str_atI:
  assumes "holds (\<lambda>i. tar_img s (o' + nat i)) t" "tar_img s (o' + length t) = CHR 0x00"
    "CHR 0x00 \<notin> set t" "o' + length t < tar_len s"
  shows "str_at s o' = t"
proof -
  have "[o'..<tar_len s] = [o'..<o' + length t] @ [o' + length t..<tar_len s]"
    using upt_add_eq_append [of o' "o' + length t" "tar_len s - (o' + length t)"] assms(4) by simp
  moreover have "map (tar_img s) [o'..<o' + length t] = t"
    using assms(1) by (auto simp: holds_def intro: nth_equalityI)
  moreover have "[o' + length t..<tar_len s] = (o' + length t) # [Suc (o' + length t)..<tar_len s]"
    using assms(4) by (rule upt_conv_Cons)
  moreover have "takeWhile (\<lambda>c. c \<noteq> CHR 0x00) (t @ CHR 0x00 # rest) = t" for rest
    using assms(3) by (induction t) auto
  ultimately show ?thesis using assms(2) by (simp add: str_at_def)
qed

text \<open>
  A file that the archive has under the resolved path is opened at the next descriptor and read from
  its first byte: for a count up to the recorded size, \<open>read_tarfs\<close> stores exactly that many bytes of the
  file's contents, which follow its 512-byte header, and an end-of-string after them.
\<close>

theorem open_then_read:
  assumes cd: "t_curr_dir (cur s) = ''/'' @ render ds"
    and path: "\<forall>c\<in>set (ds @ cs). component c" "tail_name f" "length (render (ds @ cs) @ f) < 50"
    and hdr: "k < 32" "k < length (headers s)" "headers s ! k < 2 ^ 64"
      "h_name s (headers s ! k) = render (resolve [] (ds @ cs)) @ f"
      "\<forall>j<k. h_name s (headers s ! j) \<noteq> render (resolve [] (ds @ cs)) @ f"
    and fdc: "0 \<le> t_fd_c (cur s)" "t_fd_c (cur s) < 22"
    and sz: "octal_to_binary (h_size s (headers s ! k)) = Inr sz"
    and cnt: "0 < cnt" "cnt \<le> 2147483647" "cnt \<le> uint sz"
  shows "\<exists>s'. open_tarfs (render cs @ f) fl s = Inr (t_fd_c (cur s) + 3, s') \<and>
    read_tarfs (t_fd_c (cur s) + 3) cnt s' =
      Inr (cnt, map (\<lambda>i. tar_img s (headers s ! k + 512 + i)) [0..<nat cnt] @ [CHR 0x00])"
proof -
  let ?h = "headers s ! k" and ?t = "render (resolve [] (ds @ cs)) @ f"
  obtain m where m: "setTruePath (t_curr_dir (cur s)) (render cs @ f) = Inr m" "buf_str m 100 0 = ?t"
    using setTruePath_relative [OF path] cd by auto
  have len: "length ?t < 50" using length_resolve [of "[]" "ds @ cs"] path(3) by simp
  have ex: "isfileexists (render cs @ f) s = Inr (Some k)"
    using isfileexists_first [OF m(1), of k] hdr path(3) unfolding m(2) by simp
  have "unat (of_nat ?h :: u64) = ?h" using hdr(3) by (simp add: unat_of_nat_lt)
  moreover have "\<not> sz < word_of_int cnt"
    using cnt by (simp add: word_less_def uint_word_of_int_eq take_bit_int_eq_self)
  ultimately show ?thesis
    using ex fdc sz len cnt(1) hdr(4)
    by (simp add: open_tarfs_def new_fd_def read_tarfs_def fd_ok_def set_fd_def set_task_def Let_def h_name_def
        str_at_def h_size_def)
qed

text \<open>
  A small archive, by hand: the directory \<open>etc/\<close>, and the file \<open>etc/rc\<close> of three bytes. A task whose
  working directory is the root.
\<close>

definition place :: "nat \<Rightarrow> string \<Rightarrow> (nat \<Rightarrow> char) \<Rightarrow> nat \<Rightarrow> char" where
  "place o' t img k = (if o' \<le> k \<and> k < o' + length t then t ! (k - o') else img k)"

definition example_img :: "nat \<Rightarrow> char" where
  "example_img = place 0 ''etc/'' (place 124 ''00000000000'' (place 512 ''etc/rc'' (place 636 ''00000000003''
     (place 1024 ''abc'' (\<lambda>_. CHR 0x00)))))"

definition example_fs :: fskernel where
  "example_fs = terminal.extend
     (set_task 2 ((cur example_terminal)\<lparr>t_curr_dir := ''/''\<rparr>) example_terminal)
     (fskernel.fields 0 example_img 1536 [])"

lemma example_fs_sel [simp]:
  "r example_fs = 2" "t_curr_dir (q example_fs 2) = ''/''" "t_fd_c (q example_fs 2) = 0"
  "tar_img example_fs = example_img" "tar_len example_fs = 1536" "headers example_fs = []" "tar_base example_fs = 0"
  by (simp_all add: example_fs_def terminal.defs fskernel.defs set_task_def example_procs_def blank_task_def)

lemma octs_examples: "octs 11 0 = ''00000000000''" "octs 11 3 = ''00000000003''"
  by code_simp+

lemma example_archive: "archive_at example_img 1536 0 [0, 3]"
proof -
  have "map (\<lambda>k. example_img (124 + k)) [0..<11] = ''00000000000''" "map (\<lambda>k. example_img (636 + k)) [0..<11] = ''00000000003''"
    by code_simp+
  moreover have "entry_len 0 = 512" "entry_len 3 = 1024" by (simp_all add: entry_len_def)
  ultimately show ?thesis by (simp add: octs_examples)
qed

lemma example_names: "h_name example_fs 0 = ''etc/''" "h_name example_fs 512 = ''etc/rc''"
  "h_size (example_fs\<lparr>headers := hs\<rparr>) 512 = ''00000000003''"
  by (auto simp: h_name_def h_size_def holds_def example_img_def place_def nth_Cons' less_Suc_eq_0_disj intro!: str_atI)


theorem open_then_read_witness:
  "\<exists>s'. open_tarfs ''etc/rc'' 0 (example_fs\<lparr>headers := [0, 512]\<rparr>) = Inr (3, s') \<and> read_tarfs 3 3 s' = Inr (3, ''abc'' @ [CHR 0x00])"
proof -
  let ?s = "example_fs\<lparr>headers := [0, 512]\<rparr>"
  have "octal_to_binary ''00000000003'' = Inr 11"
    using oct_number_octs [of 3 11] oct_loop_small [of 3]
    by (simp add: octal_to_binary_def octs_examples oct_dec.simps misread_def octal_dict_def)
  then have "\<exists>s'. open_tarfs (render [''etc''] @ ''rc'') 0 ?s = Inr (t_fd_c (cur ?s) + 3, s') \<and>
    read_tarfs (t_fd_c (cur ?s) + 3) 3 s' =
      Inr (3, map (\<lambda>i. tar_img ?s (headers ?s ! 1 + 512 + i)) [0..<nat 3] @ [CHR 0x00])"
    by (intro open_then_read [where ds = "[]" and cs = "[''etc'']" and sz = 11])
       (simp_all add: example_names component_def tail_name_def plain_def)
  moreover have "map (\<lambda>i. example_img (1024 + i)) [0..<3] = ''abc''" by code_simp
  ultimately show ?thesis by simp
qed

end
