(* ===== verification/Descriptors.thy ===== *)
theory Descriptors
  imports Page_Fault
begin

unbundle bit_operations_syntax

text \<open>
  The processor's tables: the interrupt descriptor table and the exception handlers of
  \<^verbatim>\<open>sys/idt.c\<close>, and the task state segment's descriptor of \<^verbatim>\<open>sys/gdt.c\<close>. What the
  processor reads out of a descriptor is a separate definition, over the packed 128 bits, so that the
  theorems say which handler an interrupt reaches. The addresses of the assembler entry points are a
  parameter.
\<close>

section \<open>The interrupt descriptor table\<close>

record idt =
  lower_offset :: u16
  selector :: u16
  zero_1 :: u8
  gate_type :: u8
  mid_offset :: u16
  high_offset :: u32
  zero_2 :: u32

type_synonym idt_table = "nat \<Rightarrow> idt"

datatype stub = Isr nat | Timer_entry | Kb1

definition set_value :: "u16 \<Rightarrow> u64 \<Rightarrow> idt_table \<Rightarrow> idt_table res" where
  "set_value intNum handler tbl =
     (if unat intNum \<ge> 256 then Inl OutOfBounds
      else Inr (tbl(unat intNum :=
        \<lparr>lower_offset = ucast (handler AND 0xFFFF),
         selector = 0x08,
         zero_1 = 0,
         gate_type = (if intNum = 128 then 0xEE else 0x8E),
         mid_offset = ucast (drop_bit 16 handler AND 0xFFFF),
         high_offset = ucast (drop_bit 32 handler AND 0xFFFFFFFF),
         zero_2 = 0\<rparr>)))"

text \<open>The calls of \<^verbatim>\<open>init_idt\<close>, in their order.\<close>

definition idt_entries :: "(nat \<times> stub) list" where
  "idt_entries = map (\<lambda>n. (n, Isr n)) [0..<32] @ [(128, Isr 128), (32, Timer_entry), (33, Kb1)]"

definition init_idt :: "(stub \<Rightarrow> u64) \<Rightarrow> idt_table \<Rightarrow> idt_table res" where
  "init_idt addr = rfold (\<lambda>(n, h). set_value (of_nat n) (addr h)) idt_entries"

text \<open>The packed entry, and what the processor takes from it.\<close>

definition pack_idt :: "idt \<Rightarrow> 128 word" where
  "pack_idt g = set_field 0 16 (ucast (lower_offset g)) (set_field 16 16 (ucast (selector g))
     (set_field 32 8 (ucast (zero_1 g)) (set_field 40 8 (ucast (gate_type g)) (set_field 48 16 (ucast (mid_offset g))
     (set_field 64 32 (ucast (high_offset g)) (set_field 96 32 (ucast (zero_2 g)) 0))))))"

definition gate_target :: "128 word \<Rightarrow> u64" where
  "gate_target x = ucast (get_field 0 16 x) OR push_bit 16 (ucast (get_field 48 16 x)) OR
     push_bit 32 (ucast (get_field 64 32 x))"

definition gate_selector :: "128 word \<Rightarrow> nat" where
  "gate_selector x = unat (get_field 16 16 x)"

definition gate_present :: "128 word \<Rightarrow> bool" where
  "gate_present x \<longleftrightarrow> get_field 47 1 x = 1"

definition gate_interrupt :: "128 word \<Rightarrow> bool" where
  "gate_interrupt x \<longleftrightarrow> get_field 40 5 x = 14"

definition gate_dpl :: "128 word \<Rightarrow> nat" where
  "gate_dpl x = unat (get_field 45 2 x)"

definition idt_gate :: "nat \<Rightarrow> u64 \<Rightarrow> idt" where
  "idt_gate n handler = 
     \<lparr>lower_offset = ucast (handler AND 0xFFFF), selector = 0x08, zero_1 = 0,
      gate_type = (if n = 128 then 0xEE else 0x8E), mid_offset = ucast (drop_bit 16 handler AND 0xFFFF),
      high_offset = ucast (drop_bit 32 handler AND 0xFFFFFFFF), zero_2 = 0\<rparr>"

lemma set_value_eq: "n < 256 \<Longrightarrow> set_value (of_nat n) h tbl = Inr (tbl(n := idt_gate n h))"
proof -
  assume n: "n < 256"
  then have u: "unat (of_nat n :: u16) = n" by (simp add: unat_of_nat_lt)
  moreover have "(of_nat n :: u16) = 128 \<longleftrightarrow> n = 128"
    using of_nat_word_inj [of n 128, where 'a = 16] n by auto
  ultimately show ?thesis using n by (simp add: set_value_def idt_gate_def)
qed

lemma pack_fields:
  "get_field 0 16 (pack_idt g) = ucast (lower_offset g)" "get_field 16 16 (pack_idt g) = ucast (selector g)"
  "get_field 40 8 (pack_idt g) = ucast (gate_type g)" "get_field 48 16 (pack_idt g) = ucast (mid_offset g)"
  "get_field 64 32 (pack_idt g) = ucast (high_offset g)"
  by (simp_all add: pack_idt_def get_set_field get_set_other take_bit_ucast_eq)

lemma gate_kind:
  "get_field 40 5 (pack_idt g) = get_field 0 5 (ucast (gate_type g))"
  "get_field 45 2 (pack_idt g) = get_field 5 2 (ucast (gate_type g))"
  "get_field 47 1 (pack_idt g) = get_field 7 1 (ucast (gate_type g))"
  using get_field_sub [of 0 5 8 40 "pack_idt g"] get_field_sub [of 5 2 8 40 "pack_idt g"]
    get_field_sub [of 7 1 8 40 "pack_idt g"] by (simp_all add: pack_fields)

lemma pack_target: "gate_target (pack_idt (idt_gate n h)) = h"
proof (rule bit_word_eqI)
  have m: "(0xFFFF :: u64) = mask 16" "(0xFFFFFFFF :: u64) = mask 32" by (simp_all add: mask_eq_exp_minus_1)
  fix k assume "k < LENGTH(64)"
  then consider "k < 16" | "16 \<le> k" "k < 32" | "32 \<le> k" "k < 64" by fastforce
  then show "bit (gate_target (pack_idt (idt_gate n h))) k = bit h k"
    by cases (auto simp: gate_target_def pack_fields idt_gate_def m bit_simps)
qed

lemma gate_flags:
  "gate_selector (pack_idt (idt_gate n h)) = 8" "gate_present (pack_idt (idt_gate n h))"
  "gate_interrupt (pack_idt (idt_gate n h))" "gate_dpl (pack_idt (idt_gate n h)) = (if n = 128 then 3 else 0)"
  unfolding gate_selector_def gate_present_def gate_interrupt_def gate_dpl_def gate_kind pack_fields
  by (simp_all add: idt_gate_def get_field_def)

lemma rfold_set_value:
  "\<forall>(n, h)\<in>set es. n < 256 \<Longrightarrow> rfold (\<lambda>(n, h). set_value (of_nat n) (addr h)) es tbl =
     Inr (fold (\<lambda>(n, h) t. t(n := idt_gate n (addr h))) es tbl)"
  by (induction es arbitrary: tbl) (auto simp: set_value_eq)

lemma fold_upd_map_of:
  "distinct (map fst es) \<Longrightarrow> fold (\<lambda>(n, h) t. t(n := f n h)) es tbl k =
     (case map_of es k of Some h \<Rightarrow> f k h | None \<Rightarrow> tbl k)"
proof (induction es arbitrary: tbl)
  case (Cons e es)
  then show ?case by (cases e) (auto split: option.splits dest: map_of_SomeD simp: rev_image_eqI)
qed simp

text \<open>The handler of an interrupt vector.\<close>

fun handler_of :: "nat \<Rightarrow> stub option" where
  "handler_of n = (if n < 32 \<or> n = 128 then Some (Isr n) else if n = 32 then Some Timer_entry
     else if n = 33 then Some Kb1 else None)"

lemma map_of_idt_entries: "map_of idt_entries n = handler_of n"
proof -
  have "map_of (map (\<lambda>n. (n, Isr n)) [0..<32]) n = (if n < 32 then Some (Isr n) else None)"
    by (auto simp: map_of_map_restrict restrict_map_def)
  then show ?thesis by (auto simp: idt_entries_def map_add_def split: option.splits)
qed

text \<open>
  C19. After \<open>init_idt\<close> every exception, the clock, the keyboard and the system call vector reach the entry
  point the code names for them: the address the processor assembles from the packed descriptor is the
  handler's address, in the kernel's code segment, through a present interrupt gate. Only the system call
  gate may be used from user mode, and no other vector of a cleared table has a gate.
\<close>

theorem init_idt_dispatches:
  "\<exists>tbl. init_idt addr (\<lambda>_. z) = Inr tbl \<and> (\<forall>n<256.
     case handler_of n of
       Some h \<Rightarrow> gate_target (pack_idt (tbl n)) = addr h \<and> gate_selector (pack_idt (tbl n)) = 8 \<and>
         gate_present (pack_idt (tbl n)) \<and> gate_interrupt (pack_idt (tbl n)) \<and>
         (gate_dpl (pack_idt (tbl n)) = 3 \<longleftrightarrow> n = 128)
     | None \<Rightarrow> tbl n = z)"
proof -
  let ?tbl = "fold (\<lambda>(n, h) t. t(n := idt_gate n (addr h))) idt_entries (\<lambda>_. z)"
  have "\<forall>(n, h)\<in>set idt_entries. n < 256" "distinct (map fst idt_entries)"
    by (auto simp: idt_entries_def comp_def)
  then have "init_idt addr (\<lambda>_. z) = Inr ?tbl" and
    "?tbl n = (case handler_of n of Some h \<Rightarrow> idt_gate n (addr h) | None \<Rightarrow> z)" for n
    by (simp_all add: init_idt_def rfold_set_value fold_upd_map_of [of idt_entries "\<lambda>n h. idt_gate n (addr h)"]
        map_of_idt_entries del: handler_of.simps)
  then show ?thesis
    by (auto simp: pack_target gate_flags split: option.splits simp del: handler_of.simps)
qed

definition zero_idt :: idt where
  "zero_idt = \<lparr>lower_offset = 0, selector = 0, zero_1 = 0, gate_type = 0, mid_offset = 0, high_offset = 0, zero_2 = 0\<rparr>"

theorem init_idt_dispatches_witness:
  "\<exists>tbl. init_idt (\<lambda>h. if h = Isr 128 then 0xffffffff80201234 else 0) (\<lambda>_. zero_idt) = Inr tbl \<and>
     gate_target (pack_idt (tbl 128)) = 0xffffffff80201234 \<and> gate_dpl (pack_idt (tbl 128)) = 3 \<and> tbl 200 = zero_idt"
proof -
  let ?addr = "\<lambda>h. if h = Isr 128 then 0xffffffff80201234 else (0 :: u64)"
  obtain tbl where tbl: "init_idt ?addr (\<lambda>_. zero_idt) = Inr tbl" and g: "\<forall>n<256.
     case handler_of n of
       Some h \<Rightarrow> gate_target (pack_idt (tbl n)) = ?addr h \<and> gate_selector (pack_idt (tbl n)) = 8 \<and>
         gate_present (pack_idt (tbl n)) \<and> gate_interrupt (pack_idt (tbl n)) \<and>
         (gate_dpl (pack_idt (tbl n)) = 3 \<longleftrightarrow> n = 128)
     | None \<Rightarrow> tbl n = zero_idt"
    using init_idt_dispatches [of ?addr zero_idt] by blast
  from spec [OF g, of 128] spec [OF g, of 200] tbl show ?thesis by simp
qed

section \<open>Exceptions\<close>

text \<open>
  The handlers print one line and acknowledge the interrupt: the new state and the bytes sent to ports.
  The general protection handler never returns, and vector 14 is the page fault.
\<close>

definition exception_text :: string where
  "exception_text = ''This is an exception''"

definition print_exception :: "'a terminal_scheme \<Rightarrow> 'a terminal_scheme res" where
  "print_exception s = rbind (kprintf exception_text [] (scr s)) (\<lambda>v. Inr (s\<lparr>scr := v\<rparr>))"

definition isr0_12 :: "'a terminal_scheme \<Rightarrow> ('a terminal_scheme \<times> (u16 \<times> u8) list) res" where
  "isr0_12 s = rbind (print_exception s) (\<lambda>s. Inr (s, [(0x20, 0x20)]))"

definition isr13 :: "'a terminal_scheme \<Rightarrow> ('a terminal_scheme \<times> (u16 \<times> u8) list) res" where
  "isr13 s = rbind (print_exception s) (\<lambda>s. Inl Hang)"

definition isr15_31 :: "'a terminal_scheme \<Rightarrow> ('a terminal_scheme \<times> (u16 \<times> u8) list) res" where
  "isr15_31 s = rbind (print_exception s) (\<lambda>s. Inr (s, [(0x20, 0x20)]))"

definition exception :: "nat \<Rightarrow> u64 \<Rightarrow> 'a terminal_scheme \<Rightarrow> ('a terminal_scheme \<times> (u16 \<times> u8) list) res" where
  "exception n cr2 s =
     (if n < 13 then isr0_12 s
      else if n = 13 then isr13 s
      else if n = 14 then rbind (isr14 cr2 s) (\<lambda>s. Inr (s, []))
      else isr15_31 s)"

section \<open>The segment of the task state\<close>

text \<open>The eight bytes of a descriptor, and the 128 bits of the system descriptor in the entries 6 and 7.\<close>

abbreviation GDT_CS :: u64 where "GDT_CS \<equiv> 0x00180000000000"
abbreviation GDT_DS :: u64 where "GDT_DS \<equiv> 0x00100000000000"
abbreviation DPL0 :: u64 where "DPL0 \<equiv> 0"
abbreviation DPL3 :: u64 where "DPL3 \<equiv> 0x00600000000000"
abbreviation P_flag :: u64 where "P_flag \<equiv> 0x00800000000000"
abbreviation L_flag :: u64 where "L_flag \<equiv> 0x20000000000000"
abbreviation W_flag :: u64 where "W_flag \<equiv> 0x00020000000000"
abbreviation MAX_GDT :: nat where "MAX_GDT \<equiv> 32"
abbreviation sizeof_tss :: nat where "sizeof_tss \<equiv> 104"

definition gdt :: "u64 list" where
  "gdt = [0, GDT_CS OR P_flag OR DPL0 OR L_flag, GDT_DS OR P_flag OR W_flag OR DPL0, 0,
          GDT_DS OR P_flag OR W_flag OR DPL3, GDT_CS OR P_flag OR DPL3 OR L_flag, 0, 0] @ replicate (MAX_GDT - 8) 0"

definition gdtr :: "u64 \<Rightarrow> u16 \<times> u64" where
  "gdtr gdt_addr = (of_nat (8 * MAX_GDT), gdt_addr)"

definition join :: "u64 \<Rightarrow> u64 \<Rightarrow> 128 word" where
  "join lo hi = ucast lo OR push_bit 64 (ucast hi)"

definition init_gdt :: "u64 \<Rightarrow> u64 list \<Rightarrow> u64 list" where
  "init_gdt tss_addr g =
     (let sd = join (g ! 6) (g ! 7);
          sd = set_field 0 16 (of_nat sizeof_tss - 1) sd;
          sd = set_field 16 24 (ucast tss_addr) sd;
          sd = set_field 40 5 9 sd;
          sd = set_field 45 2 0 sd;
          sd = set_field 47 1 1 sd;
          sd = set_field 48 4 0 sd;
          sd = set_field 55 1 0 sd;
          sd = set_field 56 40 (ucast (drop_bit 24 tss_addr)) sd
      in g[6 := ucast sd, 7 := ucast (drop_bit 64 sd)])"

text \<open>What the processor takes from a system descriptor.\<close>

definition seg_base :: "128 word \<Rightarrow> u64" where
  "seg_base x = ucast (get_field 16 24 x) OR push_bit 24 (ucast (get_field 56 8 x)) OR push_bit 32 (ucast (get_field 64 32 x))"

definition seg_limit :: "128 word \<Rightarrow> nat" where
  "seg_limit x = unat (get_field 0 16 x OR push_bit 16 (get_field 48 4 x))"

definition seg_type :: "128 word \<Rightarrow> nat" where
  "seg_type x = unat (get_field 40 5 x)"

definition seg_ok :: "128 word \<Rightarrow> bool" where
  "seg_ok x \<longleftrightarrow> get_field 47 1 x = 1 \<and> get_field 45 2 x = 0 \<and> get_field 55 1 x = 0"

lemma join_split: "join (ucast x) (ucast (drop_bit 64 x)) = x"
  by (rule bit_word_eqI) (auto simp: join_def bit_simps)

text \<open>
  \<open>init_gdt\<close> describes the task state segment: the base the processor assembles from the two entries is
  the segment's address, its limit is the last byte of the structure, it is an available 64-bit task
  state segment, present, of the kernel's privilege level and with byte granularity. The code and data
  segments are left alone.
\<close>

theorem init_gdt_describes_tss:
  "let g = init_gdt tss_addr gdt; sd = join (g ! 6) (g ! 7) in
     seg_base sd = tss_addr \<and> seg_limit sd = sizeof_tss - 1 \<and> seg_type sd = 9 \<and> seg_ok sd \<and>
     length g = MAX_GDT \<and> take 6 g = take 6 gdt \<and> drop 8 g = drop 8 gdt"
proof -
  define sd :: "128 word" where "sd = set_field 56 40 (ucast (drop_bit 24 tss_addr)) (set_field 55 1 0 (set_field 48 4 0
     (set_field 47 1 1 (set_field 45 2 0 (set_field 40 5 9 (set_field 16 24 (ucast tss_addr)
     (set_field 0 16 (of_nat sizeof_tss - 1) (join (gdt ! 6) (gdt ! 7)))))))))"
  have g: "init_gdt tss_addr gdt = gdt[6 := ucast sd, 7 := ucast (drop_bit 64 sd)]"
    by (simp add: init_gdt_def sd_def Let_def)
  have len: "length gdt = 32" by (simp add: gdt_def)
  then have j: "join (init_gdt tss_addr gdt ! 6) (init_gdt tss_addr gdt ! 7) = sd" by (simp add: g join_split)
  have f: "get_field 0 16 sd = 103" "get_field 16 24 sd = take_bit 24 (ucast tss_addr)" "get_field 40 5 sd = 9"
    "get_field 45 2 sd = 0" "get_field 47 1 sd = 1" "get_field 48 4 sd = 0" "get_field 55 1 sd = 0"
    "get_field 56 40 sd = take_bit 40 (ucast (drop_bit 24 tss_addr))"
    unfolding sd_def by (simp_all add: get_set_field get_set_other)
  have "seg_base sd = tss_addr"
  proof (rule bit_word_eqI)
    fix k assume "k < LENGTH(64)"
    then consider "k < 24" | "24 \<le> k" "k < 32" | "32 \<le> k" "k < 64" by fastforce
    then show "bit (seg_base sd) k = bit tss_addr k"
      using f(2,8) get_field_sub [of 0 8 40 56 sd] get_field_sub [of 8 32 40 56 sd]
      by cases (auto simp: seg_base_def get_field_def bit_simps)
  qed
  then show ?thesis
    using f len by (simp add: j Let_def seg_limit_def seg_type_def seg_ok_def) (simp add: g)
qed

end
