(* ===== verification/Loader.thy ===== *)
theory Loader
  imports Tarfs Page_Fault
begin

unbundle bit_operations_syntax

text \<open>
  The program loaders of \<^verbatim>\<open>sys/process.c\<close>: \<^verbatim>\<open>create_process\<close> for the first program and
  \<^verbatim>\<open>execvpe\<close> for all others. Headers are read out of the archive as
  \<^verbatim>\<open>include/sys/elf64.h\<close> lays them out; program memory is written through the page tables that
  are current at that point, and a store to a page that is not there runs the page fault handler first.
  The strings behind the user pointers of \<^verbatim>\<open>execvpe\<close> are arguments.
\<close>

section \<open>The file\<close>

text \<open>A byte at an address in the archive, and a little-endian field.\<close>

definition file_byte :: "'a fskernel_scheme \<Rightarrow> u64 \<Rightarrow> u8" where
  "file_byte s a = of_char (tar_img s (unat (a - tar_base s)))"

primrec file_le :: "nat \<Rightarrow> 'a fskernel_scheme \<Rightarrow> u64 \<Rightarrow> u64" where
  "file_le 0 s a = 0"
| "file_le (Suc n) s a = ucast (file_byte s a) OR push_bit 8 (file_le n s (a + 1))"

definition e_entry :: "'a fskernel_scheme \<Rightarrow> u64 \<Rightarrow> u64" where "e_entry s eh = file_le 8 s (eh + 24)"
definition e_phoff :: "'a fskernel_scheme \<Rightarrow> u64 \<Rightarrow> u64" where "e_phoff s eh = file_le 8 s (eh + 32)"
definition e_phnum :: "'a fskernel_scheme \<Rightarrow> u64 \<Rightarrow> nat" where "e_phnum s eh = unat (file_le 2 s (eh + 56))"

definition p_type :: "'a fskernel_scheme \<Rightarrow> u64 \<Rightarrow> u64" where "p_type s ep = file_le 4 s ep"
definition p_offset :: "'a fskernel_scheme \<Rightarrow> u64 \<Rightarrow> u64" where "p_offset s ep = file_le 8 s (ep + 8)"
definition p_vaddr :: "'a fskernel_scheme \<Rightarrow> u64 \<Rightarrow> u64" where "p_vaddr s ep = file_le 8 s (ep + 16)"
definition p_filesz :: "'a fskernel_scheme \<Rightarrow> u64 \<Rightarrow> u64" where "p_filesz s ep = file_le 8 s (ep + 32)"
definition p_memsz :: "'a fskernel_scheme \<Rightarrow> u64 \<Rightarrow> u64" where "p_memsz s ep = file_le 8 s (ep + 40)"

abbreviation sizeof_Ehdr :: u64 where "sizeof_Ehdr \<equiv> 64"
abbreviation sizeof_Phdr :: u64 where "sizeof_Phdr \<equiv> 56"

text \<open>The \<open>i\<close>-th program header, counted from 1.\<close>

definition phdr :: "'a fskernel_scheme \<Rightarrow> u64 \<Rightarrow> nat \<Rightarrow> u64" where
  "phdr s f_a i = f_a + e_phoff s f_a + sizeof_Phdr * of_nat (i - 1)"

section \<open>Program memory\<close>

text \<open>
  A store to an address: the page must be there, or the page fault handler must put it there and come
  back to the same task, alive. The quadword that holds a byte keeps its other bytes.
\<close>

definition touch :: "u64 \<Rightarrow> 'a terminal_scheme \<Rightarrow> 'a terminal_scheme res" where
  "touch v s =
     (case walk (kmem s) (cr3 s + KERNBASE) v of
        Some e \<Rightarrow> Inr s
      | None \<Rightarrow> rbind (isr14 v s) (\<lambda>s'.
          if r s' = r s \<and> t_state (cur s') \<noteq> ZOMBIE then Inr s' else Inl PageFault))"

definition frame_addr :: "u64 \<Rightarrow> 'a vmem_scheme \<Rightarrow> u64 res" where
  "frame_addr v s =
     (case walk (kmem s) (cr3 s + KERNBASE) v of
        None \<Rightarrow> Inl PageFault
      | Some e \<Rightarrow> Inr (KERNBASE + (e AND PTE_MASK) + (v AND 0xFFF)))"

definition put_byte :: "u64 \<Rightarrow> u8 \<Rightarrow> (u64 \<Rightarrow> u64) \<Rightarrow> (u64 \<Rightarrow> u64)" where
  "put_byte a b m = (let w = a AND NOT 7 in m(w := set_field (8 * unat (a AND 7)) 8 (ucast b) (m w)))"

definition store_byte :: "u64 \<Rightarrow> u8 \<Rightarrow> 'a terminal_scheme \<Rightarrow> 'a terminal_scheme res" where
  "store_byte v b s =
     rbind (touch v s) (\<lambda>s.
     rbind (frame_addr v s) (\<lambda>a. Inr (s\<lparr>kmem := put_byte a b (kmem s)\<rparr>)))"

text \<open>A quadword at an address that is a multiple of eight.\<close>

definition store_quad :: "u64 \<Rightarrow> u64 \<Rightarrow> 'a terminal_scheme \<Rightarrow> 'a terminal_scheme res" where
  "store_quad v x s =
     rbind (touch v s) (\<lambda>s.
     rbind (frame_addr v s) (\<lambda>a. Inr (s\<lparr>kmem := (kmem s)(a := x)\<rparr>)))"

definition memcpy_file :: "u64 \<Rightarrow> u64 \<Rightarrow> u64 \<Rightarrow> 'a fskernel_scheme \<Rightarrow> 'a fskernel_scheme res" where
  "memcpy_file dst src n s =
     rfold (\<lambda>i s. store_byte (dst + of_nat i) (file_byte s (src + of_nat i)) s) [0..<unat n] s"

definition memset_user :: "u64 \<Rightarrow> u8 \<Rightarrow> u64 \<Rightarrow> 'a terminal_scheme \<Rightarrow> 'a terminal_scheme res" where
  "memset_user dst b n s = rfold (\<lambda>i. store_byte (dst + of_nat i) b) [0..<unat n] s"

definition store_string :: "u64 \<Rightarrow> string \<Rightarrow> 'a terminal_scheme \<Rightarrow> 'a terminal_scheme res" where
  "store_string dst t s =
     rfold (\<lambda>(i, c). store_byte (dst + of_nat i) (of_char c)) (enumerate 0 (t @ [CHR 0x00])) s"

section \<open>Segments\<close>

text \<open>
  \<^verbatim>\<open>for(;k<vm_end;k+=4096)\<close>: the pages of a segment. \<open>None\<close> is a loop that goes on for ever.
\<close>

partial_function (option) map_range :: "u64 \<Rightarrow> u64 \<Rightarrow> u64 \<Rightarrow> 'a vmem_scheme \<Rightarrow> 'a vmem_scheme res option" where
  "map_range k vend pml4 s =
     (if k < vend then
        (case rbind (allocate_page s) (\<lambda>(yy, s). init_pages_for_process k yy pml4 s) of
           Inl e \<Rightarrow> Some (Inl e)
         | Inr s \<Rightarrow> map_range (k + 4096) vend pml4 s)
      else Some (Inr s))"

definition map_segment :: "u64 \<Rightarrow> u64 \<Rightarrow> u64 \<Rightarrow> 'a vmem_scheme \<Rightarrow> 'a vmem_scheme res" where
  "map_segment k vend pml4 s = (case map_range k vend pml4 s of None \<Rightarrow> Inl Hang | Some res \<Rightarrow> res)"

definition add_area :: "nat \<Rightarrow> vma \<Rightarrow> 'a kernel_scheme \<Rightarrow> 'a kernel_scheme" where
  "add_area t vm s = set_task t ((q s t)\<lparr>t_vm := vm # t_vm (q s t)\<rparr>) s"

text \<open>
  One program header of either loader. The file's bytes are taken from \<^verbatim>\<open>eh + p_offset\<close>, an
  addition to a pointer to headers of 64 bytes. The tables loaded for the copy must hold the kernel.
\<close>

definition load_segment :: "nat \<Rightarrow> u64 \<Rightarrow> u64 \<Rightarrow> nat \<Rightarrow> 'a fskernel_scheme \<Rightarrow> 'a fskernel_scheme res" where
  "load_segment t pml4 f_a i s =
     (let ep = phdr s f_a i in
      if p_type s ep = 1 then
        rbind (kmalloc sizeof_vma s) (\<lambda>(node, s).
        let vm = \<lparr>vm_node = node, vm_start = p_vaddr s ep, vm_end = p_vaddr s ep + p_memsz s ep\<rparr>;
            k = (if p_vaddr s ep mod 0x1000 \<noteq> 0 then p_vaddr s ep AND PTE_MASK else vm_start vm);
            s = add_area t vm s in
        rbind (map_segment k (vm_end vm) pml4 s) (\<lambda>s.
        let pcr3 = cr3 s; s = s\<lparr>cr3 := pml4 - KERNBASE\<rparr> in
        if rd s pml4 511 AND 1 = 0 then Inl PageFault
        else
          rbind (memcpy_file (vm_start vm) (f_a + sizeof_Ehdr * p_offset s ep) (p_filesz s ep) s) (\<lambda>s.
          rbind (memset_user (vm_start vm + p_filesz s ep) 0 (p_memsz s ep - p_filesz s ep) s) (\<lambda>s.
          Inr (s\<lparr>cr3 := pcr3\<rparr>)))))
      else Inr s)"

definition load_segments :: "nat \<Rightarrow> u64 \<Rightarrow> u64 \<Rightarrow> 'a fskernel_scheme \<Rightarrow> 'a fskernel_scheme res" where
  "load_segments t pml4 f_a s = rfold (load_segment t pml4 f_a) (rev [1..<Suc (e_phnum s f_a)]) s"

abbreviation heap_base :: u64 where "heap_base \<equiv> 0x4B0FFFFF0000"
abbreviation stack_base :: u64 where "stack_base \<equiv> 0x100FFFFF0000"
abbreviation stack_limit :: u64 where "stack_limit \<equiv> 0x100FFEFF0000"

text \<open>The heap area and the stack with its first page.\<close>

definition add_heap_stack :: "nat \<Rightarrow> u64 \<Rightarrow> 'a kernel_scheme \<Rightarrow> 'a kernel_scheme res" where
  "add_heap_stack t pml4 s =
     rbind (kmalloc sizeof_vma s) (\<lambda>(node, s).
     let s = add_area t \<lparr>vm_node = node, vm_start = heap_base, vm_end = heap_base\<rparr> s in
     rbind (allocate_page s) (\<lambda>(s_add, s).
     rbind (init_pages_for_process stack_base s_add pml4 s) (\<lambda>s.
     let s = set_task t ((q s t)\<lparr>t_ustack := stack_base, t_rsp := stack_base + 510 * 8\<rparr>) s in
     rbind (kmalloc sizeof_vma s) (\<lambda>(node, s).
     Inr (add_area t \<lparr>vm_node = node, vm_start = stack_base, vm_end = stack_limit\<rparr> s)))))"

section \<open>The start of a program\<close>

text \<open>
  The stores to the new stack, in the order of the code: strings of bytes and quadwords.
  \<^verbatim>\<open>ts->rsp\<close> is a pointer to quadwords, so a string of \<open>n\<close> bytes moves it by \<open>8 * n\<close>.
\<close>

datatype ustore = Str u64 string | Quad u64 u64

fun do_store :: "ustore \<Rightarrow> 'a terminal_scheme \<Rightarrow> 'a terminal_scheme res" where
  "do_store (Str a t) s = store_string a t s"
| "do_store (Quad a x) s = store_quad a x s"

definition create_stack :: "u64 \<Rightarrow> string \<Rightarrow> ustore list \<times> u64" where
  "create_stack rsp a =
     (let len = length a + 1; rsp = rsp - 8 * of_nat len; st = [Str rsp a];
          rsp = rsp - 8; st = st @ [Quad rsp 0];
          rsp = rsp - 8; st = st @ [Quad rsp 0];
          rsp = rsp - 8; st = st @ [Quad rsp (rsp + 8)];
          rsp = rsp - 8; st = st @ [Quad rsp 1]
      in (st, rsp))"

text \<open>The loops from the last string to the first, and from the last pointer to the first.\<close>

fun push_strings :: "u64 \<Rightarrow> string list \<Rightarrow> ustore list \<times> u64 list \<times> u64" where
  "push_strings rsp [] = ([], [], rsp)"
| "push_strings rsp (a # as) =
     (let (st, temp, rsp) = push_strings rsp as; rsp = rsp - 8 * of_nat (length a + 1)
      in (st @ [Str rsp a], rsp # temp, rsp))"

fun push_quads :: "u64 \<Rightarrow> u64 list \<Rightarrow> ustore list \<times> u64" where
  "push_quads rsp [] = ([], rsp)"
| "push_quads rsp (x # xs) = (let (st, rsp) = push_quads rsp xs; rsp = rsp - 8 in (st @ [Quad rsp x], rsp))"

definition exec_stack :: "u64 \<Rightarrow> string list \<Rightarrow> string list \<Rightarrow> ustore list \<times> u64" where
  "exec_stack rsp args envs =
     (let (st1, temp1, rsp) = push_strings rsp envs;
          (st2, temp, rsp) = push_strings rsp args;
          (st3, rsp) = push_quads rsp (of_nat (length args) # temp @ [0] @ temp1 @ [0])
      in (st1 @ st2 @ st3, rsp))"

text \<open>A loader returns to its caller, or enters the program at an address with a stack.\<close>

datatype exec_result = Return int | Enter u64 u64

definition create_process :: "string \<Rightarrow> 'a fskernel_scheme \<Rightarrow> (exec_result \<times> 'a fskernel_scheme) res" where
  "create_process filename s =
     (let f_a = get_file_address filename s + 512 in
      if f_a < 512 then
        rbind (kprintf (''No such file'' @ [CHR 0x0A]) [] (scr s)) (\<lambda>v. Inr (Return 0, s\<lparr>scr := v\<rparr>))
      else if length filename \<ge> 50 then Inl BufferOverflow
      else with_slot s (\<lambda>pid.
        let s = set_task pid ((q s pid)\<lparr>t_name := filename, t_curr_dir := ''/'', t_ppid := 0, t_pid := pid,
                  t_vm := [], t_state := RUNNING\<rparr>) s in
        rbind (allocate_page_for_process s) (\<lambda>(pml4, s).
        let s = memset_page pml4 s;
            s = set_task pid ((q s pid)\<lparr>t_pml4e := pml4 - KERNBASE, reg_rip := Addr (e_entry s f_a)\<rparr>) s in
        rbind (load_segments pid pml4 f_a s) (\<lambda>s.
        rbind (add_heap_stack pid pml4 s) (\<lambda>s.
        let s = s\<lparr>tss_rsp0 := pid, cr3 := pml4 - KERNBASE\<rparr>;
            (st, rsp) = create_stack (t_rsp (q s pid)) filename in
        rbind (rfold do_store st s) (\<lambda>s.
        let s = set_task pid ((q s pid)\<lparr>t_rsp := rsp\<rparr>) s in
        Inr (Enter (e_entry s f_a) rsp, s\<lparr>r := pid\<rparr>)))))))"

text \<open>
  The interpreter line of a script, behind its first two characters: everything up to the newline but
  spaces, in 50 bytes.
\<close>

fun ex_scan :: "string \<Rightarrow> string res" where
  "ex_scan [] = Inl OutOfBounds"
| "ex_scan (c # cs) =
     (if c = CHR 0x0A then Inr []
      else if c \<noteq> CHR '' '' then rbind (ex_scan cs) (\<lambda>t. Inr (c # t))
      else ex_scan cs)"

definition file_chars :: "'a fskernel_scheme \<Rightarrow> u64 \<Rightarrow> string" where
  "file_chars s a = map (tar_img s) [unat (a - tar_base s)..<tar_len s]"

definition exec_interpreter :: "'a fskernel_scheme \<Rightarrow> u64 \<Rightarrow> string res" where
  "exec_interpreter s y =
     (let cs = file_chars s y in
      if take 2 cs = ''!#'' then
        rbind (ex_scan (drop 2 cs)) (\<lambda>ex.
        if length ex \<ge> 50 then Inl BufferOverflow
        else
          let ex = takeWhile (\<lambda>c. c \<noteq> CHR 0x00) ex in
          Inr (if ex = [] then ''bin/sbush'' else ex))
      else Inr ''bin/sbush'')"

text \<open>Strings copied into \<^verbatim>\<open>args[10][80]\<close>.\<close>

definition args_fit :: "string list \<Rightarrow> bool" where
  "args_fit as \<longleftrightarrow> length as \<le> 10 \<and> (\<forall>a\<in>set as. length a < 80)"

text \<open>
  The program file and its arguments: \<open>None\<close> is the \<^verbatim>\<open>-1\<close> of a missing file. The task's name is
  changed before the file is looked up.
\<close>

definition exec_select :: "string \<Rightarrow> string list \<Rightarrow> 'a fskernel_scheme \<Rightarrow> ((u64 \<times> string list) option \<times> 'a fskernel_scheme) res" where
  "exec_select path argv s =
     (if take 2 path = ''./'' then
        let file = tl (t_curr_dir (cur s)) @ drop 2 path in
        if length file \<ge> 50 then Inl BufferOverflow
        else
          let y = get_file_address file s + 512 in
          if y < 512 then Inr (None, s)
          else
            rbind (exec_interpreter s y) (\<lambda>ex.
            if argv = [] then Inl NullDeref
            else if \<not> args_fit [hd argv, drop 2 path] then Inl BufferOverflow
            else Inr (Some (get_file_address ex s + 512, [hd argv, drop 2 path]), s))
      else
        let file = ''bin/'' @ path in
        if length file \<ge> 50 then Inl BufferOverflow
        else
          let s = set_task (r s) ((cur s)\<lparr>t_name := file\<rparr>) s;
              f_a = get_file_address file s + 512 in
          if f_a < 512 then Inr (None, s)
          else if \<not> args_fit argv then Inl BufferOverflow
          else Inr (Some (f_a, argv), s))"

text \<open>
  \<^verbatim>\<open>execvpe\<close>. The loop over the environment counts up the wrong variable and does not end when there
  is an entry.
\<close>

definition execvpe :: "string \<Rightarrow> string list \<Rightarrow> string list \<Rightarrow> 'a fskernel_scheme \<Rightarrow> (exec_result \<times> 'a fskernel_scheme) res" where
  "execvpe path argv env s =
     rbind (exec_select path argv s) (\<lambda>(sel, s).
       case sel of
         None \<Rightarrow> Inr (Return (- 1), s)
       | Some (f_a, args) \<Rightarrow>
           if env \<noteq> [] then (if length (hd env) \<ge> 80 then Inl BufferOverflow else Inl Hang)
           else if f_a < 512 then Inr (Return (- 1), s)
           else
             let t = r s;
                 s = set_task t ((q s t)\<lparr>reg_rip := Addr (e_entry s f_a)\<rparr>) s;
                 pml4 = t_pml4e (q s t) + KERNBASE in
             rbind (dealloc_pml4 (t_pml4e (q s t)) s) (\<lambda>s.
             rbind (load_segments t pml4 f_a s) (\<lambda>s.
             rbind (add_heap_stack t pml4 s) (\<lambda>s.
             let (st, rsp) = exec_stack (t_rsp (q s t)) args [] in
             rbind (rfold do_store st s) (\<lambda>s.
             let s = set_task t ((q s t)\<lparr>t_rsp := rsp\<rparr>) s in
             Inr (Enter (e_entry s f_a) rsp, s\<lparr>tss_rsp0 := t\<rparr>))))))"

section \<open>The argument block\<close>

text \<open>
  The stores as a program sees them: a memory of bytes, quadwords little-endian, strings ended by a
  zero byte.
\<close>

primrec put_le :: "nat \<Rightarrow> u64 \<Rightarrow> u64 \<Rightarrow> (u64 \<Rightarrow> u8) \<Rightarrow> (u64 \<Rightarrow> u8)" where
  "put_le 0 a x m = m"
| "put_le (Suc n) a x m = (put_le n (a + 1) (drop_bit 8 x) m)(a := ucast x)"

primrec get_le :: "nat \<Rightarrow> u64 \<Rightarrow> (u64 \<Rightarrow> u8) \<Rightarrow> u64" where
  "get_le 0 a m = 0"
| "get_le (Suc n) a m = ucast (m a) OR push_bit 8 (get_le n (a + 1) m)"

primrec put_chars :: "u64 \<Rightarrow> string \<Rightarrow> (u64 \<Rightarrow> u8) \<Rightarrow> (u64 \<Rightarrow> u8)" where
  "put_chars a [] m = m"
| "put_chars a (c # cs) m = put_chars (a + 1) cs (m(a := of_char c))"

fun apply_store :: "ustore \<Rightarrow> (u64 \<Rightarrow> u8) \<Rightarrow> (u64 \<Rightarrow> u8)" where
  "apply_store (Str a t) m = put_chars a (t @ [CHR 0x00]) m"
| "apply_store (Quad a x) m = put_le 8 a x m"

abbreviation apply_stores :: "ustore list \<Rightarrow> (u64 \<Rightarrow> u8) \<Rightarrow> (u64 \<Rightarrow> u8)" where
  "apply_stores \<equiv> fold apply_store"

definition has_string :: "(u64 \<Rightarrow> u8) \<Rightarrow> u64 \<Rightarrow> string \<Rightarrow> bool" where
  "has_string m a t \<longleftrightarrow> (\<forall>i<length t. m (a + of_nat i) = of_char (t ! i)) \<and> m (a + of_nat (length t)) = 0"

text \<open>The \<open>n\<close> bytes from \<open>a\<close> on.\<close>

definition span :: "u64 \<Rightarrow> nat \<Rightarrow> u64 set" where
  "span a n = (\<lambda>i. a + of_nat i) ` {..<n}"

lemma span_disjoint:
  assumes "k + n2 \<le> j" "j + n1 < 2 ^ 64"
  shows "span (a + of_nat j) n1 \<inter> span (a + of_nat k) n2 = {}"
proof -
  have "a + of_nat j + of_nat i \<noteq> a + of_nat k + of_nat i'" if "i < n1" "i' < n2" for i i'
  proof
    assume "a + of_nat j + of_nat i = a + of_nat k + of_nat i'"
    then have "(of_nat (j + i) :: u64) = of_nat (k + i')" by simp
    then have "j + i = k + i'" using assms that by (intro of_nat_word_inj [where 'a = 64]) simp_all
    then show False using assms(1) that by simp
  qed
  then show ?thesis by (auto simp: span_def)
qed

lemma put_le_other: "x \<notin> span a n \<Longrightarrow> put_le n a v m x = m x"
proof (induction n arbitrary: a v)
  case (Suc n)
  have "span a (Suc n) = insert a (span (a + 1) n)"
    unfolding span_def lessThan_Suc_eq_insert_0 by (auto simp: image_image ac_simps)
  then show ?case using Suc by simp
qed simp

lemma put_chars_other: "x \<notin> span a (length t) \<Longrightarrow> put_chars a t m x = m x"
proof (induction t arbitrary: a m)
  case (Cons c t)
  have "span a (Suc (length t)) = insert a (span (a + 1) (length t))"
    unfolding span_def lessThan_Suc_eq_insert_0 by (auto simp: image_image ac_simps)
  then show ?case using Cons by simp
qed simp

lemma put_chars_at:
  "i < length t \<Longrightarrow> length t < 2 ^ 64 \<Longrightarrow> put_chars a t m (a + of_nat i) = of_char (t ! i)"
proof (induction t arbitrary: a m i)
  case (Cons c t)
  show ?case
  proof (cases i)
    case 0
    have "a \<notin> span (a + 1) (length t)"
    proof
      assume "a \<in> span (a + 1) (length t)"
      then obtain j where "j < length t" "(of_nat (Suc j) :: u64) = of_nat 0" by (auto simp: span_def)
      then show False using Cons.prems(2) of_nat_word_inj [of "Suc j" 0, where 'a = 64] by simp
    qed
    then show ?thesis using 0 by (simp add: put_chars_other)
  next
    case (Suc j)
    then show ?thesis using Cons.IH [of j "a + 1"] Cons.prems by (simp add: ac_simps)
  qed
qed simp

lemma has_string_put: "length t < 2 ^ 63 \<Longrightarrow> has_string (put_chars a (t @ [CHR 0x00]) m) a t"
  using put_chars_at [of _ "t @ [CHR 0x00]" a m] by (auto simp: has_string_def nth_append)

lemma has_string_cong:
  "(\<And>x. x \<in> span a (length t + 1) \<Longrightarrow> m' x = m x) \<Longrightarrow> has_string m a t \<Longrightarrow> has_string m' a t"
  by (auto simp: has_string_def span_def)

lemma get_le_cong: "(\<And>x. x \<in> span a n \<Longrightarrow> m' x = m x) \<Longrightarrow> get_le n a m' = get_le n a m"
proof (induction n arbitrary: a)
  case (Suc n)
  have "span a (Suc n) = insert a (span (a + 1) n)"
    unfolding span_def lessThan_Suc_eq_insert_0 by (auto simp: image_image ac_simps)
  then show ?case using Suc by simp
qed simp

lemma get_put_le: "n \<le> 8 \<Longrightarrow> get_le n a (put_le n a x m) = take_bit (8 * n) x"
proof (induction n arbitrary: a x)
  case (Suc n)
  have "a \<notin> span (a + 1) n"
  proof
    assume "a \<in> span (a + 1) n"
    then obtain j where "j < n" "(of_nat (Suc j) :: u64) = of_nat 0" by (auto simp: span_def)
    then show False using Suc.prems of_nat_word_inj [of "Suc j" 0, where 'a = 64] by simp
  qed
  then have "get_le n (a + 1) (f(a := b)) = get_le n (a + 1) f" for f b by (intro get_le_cong) auto
  then have "get_le (Suc n) a (put_le (Suc n) a x m) = ucast (ucast x :: u8) OR push_bit 8 (take_bit (8 * n) (drop_bit 8 x))"
    using Suc by (simp del: fun_upd_apply) simp
  also have "\<dots> = take_bit (8 * Suc n) x"
    by (rule bit_word_eqI) (auto simp: bit_simps)
  finally show ?case .
qed simp

lemma get_le_byte: "m a = ucast (get_le (Suc n) a m)"
  by (rule bit_word_eqI) (auto simp: bit_simps)

lemma get_put_quad: "get_le 8 a (put_le 8 a x m) = x"
  using get_put_le [of 8 a x m] by (simp add: take_bit_word_eq_self)

text \<open>The bytes an argument list takes on the stack.\<close>

definition room :: "string list \<Rightarrow> nat" where
  "room as = (\<Sum>a\<leftarrow>as. 8 * (length a + 1))"

lemma room_simps [simp]: "room [] = 0" "room (a # as) = 8 * (length a + 1) + room as"
  by (simp_all add: room_def)

text \<open>What lies at or above an address, within \<open>n\<close> bytes, is kept by stores below it.\<close>

definition keeps_above :: "u64 \<Rightarrow> ustore list \<Rightarrow> bool" where
  "keeps_above b st \<longleftrightarrow> (\<forall>m n x. x \<in> span b n \<longrightarrow> n < 2 ^ 62 \<longrightarrow> apply_stores st m x = m x)"

lemma keeps_above_append: "keeps_above b st \<Longrightarrow> keeps_above b st' \<Longrightarrow> keeps_above b (st @ st')"
  by (auto simp: keeps_above_def)

lemma span_below: "d \<le> 2 ^ 62 \<Longrightarrow> k \<le> d \<Longrightarrow> x \<in> span b n \<Longrightarrow> n < 2 ^ 62 \<Longrightarrow> x \<notin> span (b - of_nat d) k"
  using span_disjoint [of 0 k d n "b - of_nat d"] by auto

lemma push_strings_rsp: "push_strings rsp as = (st, temp, rsp') \<Longrightarrow> rsp' = rsp - of_nat (room as) \<and> length temp = length as"
  by (induction "as" arbitrary: st temp rsp') (auto simp: Let_def algebra_simps split: prod.splits)

lemma keeps_Str: "d \<le> 2 ^ 62 \<Longrightarrow> length t + 1 \<le> d \<Longrightarrow> keeps_above b [Str (b - of_nat d) t]"
  using span_below [of d "length t + 1"] by (auto simp: keeps_above_def put_chars_other)

lemma keeps_Quad: "d \<le> 2 ^ 62 \<Longrightarrow> 8 \<le> d \<Longrightarrow> keeps_above b [Quad (b - of_nat d) x]"
  using span_below [of d 8] by (auto simp: keeps_above_def put_le_other)

lemma push_strings_keeps:
  assumes "push_strings rsp as = (st, temp, rsp')" "room as \<le> 2 ^ 62"
  shows "keeps_above rsp st"
  using assms
proof (induction "as" arbitrary: st temp rsp')
  case (Cons a "as")
  obtain st1 temp1 rsp1 where p: "push_strings rsp as = (st1, temp1, rsp1)" by (metis prod_cases3)
  have "keeps_above rsp [Str (rsp - of_nat (room (a # as))) a]" using Cons.prems(2) by (intro keeps_Str) simp_all
  moreover have "keeps_above rsp st1" using Cons.IH [OF p] Cons.prems(2) by simp
  moreover have "st = st1 @ [Str (rsp - of_nat (room (a # as))) a]"
    using Cons.prems(1) push_strings_rsp [OF p] by (auto simp: p Let_def algebra_simps)
  ultimately show ?case by (simp only: keeps_above_append)
qed (auto simp: keeps_above_def)

lemma span_mono: "of_nat j + a = b \<Longrightarrow> j + n' \<le> n \<Longrightarrow> span b n' \<subseteq> span a n"
  by (force simp: span_def ac_simps simp flip: of_nat_add)

lemma keeps_string:
  assumes "keeps_above b st" "span a (length t + 1) \<subseteq> span b n" "n < 2 ^ 62" "has_string m a t"
  shows "has_string (apply_stores st m) a t"
  using assms by (intro has_string_cong [OF _ assms(4)]) (auto simp: keeps_above_def)

lemma push_strings_strings:
  assumes "push_strings rsp as = (st, temp, rsp')" "room as < 2 ^ 62" "i < length as"
  shows "has_string (apply_stores st m) (temp ! i) (as ! i) \<and>
    span (temp ! i) (length (as ! i) + 1) \<subseteq> span (rsp - of_nat (room as)) (room as)"
  using assms
proof (induction "as" arbitrary: st temp rsp' i)
  case (Cons a "as")
  obtain st1 temp1 rsp1 where p: "push_strings rsp as = (st1, temp1, rsp1)" by (metis prod_cases3)
  let ?b = "rsp - of_nat (room as)" and ?d = "8 * (length a + 1)"
  have st: "st = st1 @ [Str (?b - of_nat ?d) a]" "temp = (?b - of_nat ?d) # temp1"
    using Cons.prems(1) push_strings_rsp [OF p] by (auto simp: p Let_def)
  have low: "rsp - of_nat (room (a # as)) = ?b - of_nat ?d" by (simp add: algebra_simps)
  show ?case
  proof (cases i)
    case 0
    have "span (?b - of_nat ?d) (length a + 1) \<subseteq> span (?b - of_nat ?d) (room (a # as))"
      by (rule span_mono [of 0]) simp_all
    moreover have "has_string (apply_stores st m) (?b - of_nat ?d) a"
      using Cons.prems(2) by (simp add: st(1) has_string_put)
    ultimately show ?thesis unfolding low st(2) 0 nth_Cons_0 by blast
  next
    case (Suc j)
    with Cons.prems have ih: "has_string (apply_stores st1 m) (temp1 ! j) (as ! j)"
      "span (temp1 ! j) (length (as ! j) + 1) \<subseteq> span ?b (room as)"
      using Cons.IH [OF p, of j] by auto
    have k: "keeps_above ?b [Str (?b - of_nat ?d) a]" using Cons.prems(2) by (intro keeps_Str) simp_all
    have "has_string (apply_stores [Str (?b - of_nat ?d) a] (apply_stores st1 m)) (temp1 ! j) (as ! j)"
      using Cons.prems(2) by (intro keeps_string [OF k ih(2) _ ih(1)]) simp
    moreover have "span ?b (room as) \<subseteq> span (?b - of_nat ?d) (room (a # as))"
      by (rule span_mono [of ?d]) simp_all
    ultimately show ?thesis using ih(2) unfolding low st Suc nth_Cons_Suc by auto
  qed
qed simp

lemma push_quads_words:
  assumes "push_quads rsp xs = (st, rsp')" "8 * length xs < 2 ^ 62"
  shows "rsp' = rsp - of_nat (8 * length xs) \<and> keeps_above rsp st \<and>
    (\<forall>i<length xs. get_le 8 (rsp' + of_nat (8 * i)) (apply_stores st m) = xs ! i)"
  using assms
proof (induction xs arbitrary: st rsp')
  case (Cons x xs)
  obtain st1 rsp1 where p: "push_quads rsp xs = (st1, rsp1)" by fastforce
  let ?b = "rsp - of_nat (8 * length xs)"
  have ih: "rsp1 = ?b" "keeps_above rsp st1"
    "\<And>i. i < length xs \<Longrightarrow> get_le 8 (rsp1 + of_nat (8 * i)) (apply_stores st1 m) = xs ! i"
    using Cons.IH [OF p] Cons.prems(2) by auto
  have st: "st = st1 @ [Quad (?b - of_nat 8) x]" "rsp' = ?b - of_nat 8" "?b - of_nat 8 = rsp - of_nat (8 * length (x # xs))"
    using Cons.prems(1) ih(1) by (auto simp: p Let_def)
  have k: "keeps_above ?b [Quad (?b - of_nat 8) x]" by (rule keeps_Quad) simp_all
  have "keeps_above rsp [Quad (?b - of_nat 8) x]"
    unfolding st(3) using Cons.prems(2) by (intro keeps_Quad) simp_all
  then have keep: "keeps_above rsp st" unfolding st(1) by (rule keeps_above_append [OF ih(2)])
  have "get_le 8 (rsp' + of_nat (8 * i)) (apply_stores st m) = (x # xs) ! i" if "i < length (x # xs)" for i
  proof (cases i)
    case 0
    then show ?thesis by (simp add: st get_put_quad)
  next
    case (Suc j)
    have "span (?b + of_nat (8 * j)) 8 \<subseteq> span ?b (8 * length xs)"
      using Suc that by (intro span_mono [of "8 * j"]) (simp_all add: ac_simps)
    then have "get_le 8 (?b + of_nat (8 * j)) (apply_stores [Quad (?b - of_nat 8) x] (apply_stores st1 m)) = xs ! j"
      using k Cons.prems(2) ih(1) ih(3) [of j] Suc that
      by (subst get_le_cong [of _ _ _ "apply_stores st1 m"]) (auto simp: keeps_above_def)
    moreover have e: "rsp' + of_nat (8 * i) = ?b + of_nat (8 * j)" using Suc by (simp add: st(2))
    ultimately show ?thesis unfolding e unfolding st(1) Suc nth_Cons_Suc by simp
  qed
  then show ?case using st(2,3) keep by simp
qed (simp add: keeps_above_def)

lemma exec_stack_block:
  assumes "exec_stack rsp args envs = (st, rsp')"
    and room: "room args + room envs + 8 * (length args + length envs + 3) < 2 ^ 62"
  shows "let m' = apply_stores st m in
    get_le 8 rsp' m' = of_nat (length args) \<and>
    (\<forall>i<length args. has_string m' (get_le 8 (rsp' + of_nat (8 * (i + 1))) m') (args ! i)) \<and>
    get_le 8 (rsp' + of_nat (8 * (length args + 1))) m' = 0 \<and>
    (\<forall>i<length envs. has_string m' (get_le 8 (rsp' + of_nat (8 * (length args + 2 + i))) m') (envs ! i)) \<and>
    get_le 8 (rsp' + of_nat (8 * (length args + length envs + 2))) m' = 0 \<and>
    (\<forall>i<length envs. span (get_le 8 (rsp' + of_nat (8 * (length args + 2 + i))) m') 1 \<subseteq> span (rsp - of_nat (room envs)) (room envs))"
proof -
  define m' where "m' = apply_stores st m"
  obtain st1 temp1 rsp1 where p1: "push_strings rsp envs = (st1, temp1, rsp1)" by (metis prod_cases3)
  obtain st2 temp rsp2 where p2: "push_strings rsp1 args = (st2, temp, rsp2)" by (metis prod_cases3)
  let ?ws = "of_nat (length args) # temp @ [0] @ temp1 @ [0]"
  obtain st3 where p3: "push_quads rsp2 ?ws = (st3, rsp')" and st: "st = st1 @ st2 @ st3"
    using assms(1) by (auto simp: exec_stack_def p1 p2 split: prod.splits)
  have r1: "rsp1 = rsp - of_nat (room envs)" "length temp1 = length envs"
    and r2: "rsp2 = rsp1 - of_nat (room args)" "length temp = length args"
    using push_strings_rsp [OF p1] push_strings_rsp [OF p2] by auto
  have lw: "8 * length ?ws < 2 ^ 62" using room r1 r2 by simp
  define m1 m2 where "m1 = apply_stores st1 m" and "m2 = apply_stores st2 m1"
  have m': "m' = apply_stores st3 m2" by (simp add: m'_def st m1_def m2_def)
  have w: "keeps_above rsp2 st3" "\<And>i. i < length ?ws \<Longrightarrow> get_le 8 (rsp' + of_nat (8 * i)) m' = ?ws ! i"
    using push_quads_words [OF p3 lw, of m2] unfolding m' by auto
  have args: "has_string m' (temp ! i) (args ! i)" if "i < length args" for i
  proof -
    have "has_string m2 (temp ! i) (args ! i)" "span (temp ! i) (length (args ! i) + 1) \<subseteq> span rsp2 (room args)"
      using push_strings_strings [OF p2 _ that, of m1] room unfolding m2_def r2 by auto
    then show ?thesis unfolding m' using room by (intro keeps_string [OF w(1)]) auto
  qed
  have envs: "has_string m' (temp1 ! i) (envs ! i)" if "i < length envs" for i
  proof -
    have e: "has_string m1 (temp1 ! i) (envs ! i)"
      "span (temp1 ! i) (length (envs ! i) + 1) \<subseteq> span rsp1 (room envs)"
      using push_strings_strings [OF p1 _ that, of m] room unfolding m1_def r1 by auto
    have "has_string m2 (temp1 ! i) (envs ! i)"
      unfolding m2_def using push_strings_keeps [OF p2] room by (intro keeps_string [OF _ e(2) _ e(1)]) auto
    moreover have "span rsp1 (room envs) \<subseteq> span rsp2 (room args + room envs)"
      by (rule span_mono [of "room args"]) (simp_all add: r2)
    ultimately show ?thesis
      unfolding m' using room e(2) by (intro keeps_string [OF w(1)]) auto
  qed
  have sp: "span (temp1 ! i) 1 \<subseteq> span (rsp - of_nat (room envs)) (room envs)" if "i < length envs" for i
  proof -
    have "span (temp1 ! i) (length (envs ! i) + 1) \<subseteq> span (rsp - of_nat (room envs)) (room envs)"
      using push_strings_strings [OF p1 _ that, of m] room by auto
    moreover have "span (temp1 ! i) 1 \<subseteq> span (temp1 ! i) (length (envs ! i) + 1)" by (rule span_mono [of 0]) simp_all
    ultimately show ?thesis by blast
  qed
  have "get_le 8 (rsp' + of_nat (8 * (i + 1))) m' = temp ! i" if "i < length args" for i
    using w(2) [of "i + 1"] that r2(2) by (simp add: nth_append)
  moreover have "get_le 8 (rsp' + of_nat (8 * (length args + 2 + i))) m' = temp1 ! i" if "i < length envs" for i
    using w(2) [of "length args + 2 + i"] that r1(2) r2(2) by (simp add: nth_append)
  moreover have "get_le 8 (rsp' + of_nat (8 * (length args + 1))) m' = 0"
    using w(2) [of "length args + 1"] r1(2) r2(2) by (simp add: nth_append)
  moreover have "get_le 8 (rsp' + of_nat (8 * (length args + length envs + 2))) m' = 0"
    using w(2) [of "length args + length envs + 2"] r1(2) r2(2) by (simp add: nth_append)
  moreover have "get_le 8 rsp' m' = of_nat (length args)" using w(2) [of 0] by simp
  ultimately show ?thesis using args envs sp by (simp add: Let_def flip: m'_def)
qed

text \<open>
  The argument block of a new program, read back the way its start code reads it: the stack pointer
  points at the number of arguments, then come the pointers to the arguments, each to its string with
  the zero byte behind it, a null pointer, the pointers to the environment strings and a null pointer.
\<close>

theorem exec_stack_roundtrip:
  assumes "exec_stack rsp args envs = (st, rsp')"
    and room: "room args + room envs + 8 * (length args + length envs + 3) < 2 ^ 62"
  shows "let m' = apply_stores st m in
    get_le 8 rsp' m' = of_nat (length args) \<and>
    (\<forall>i<length args. has_string m' (get_le 8 (rsp' + of_nat (8 * (i + 1))) m') (args ! i)) \<and>
    get_le 8 (rsp' + of_nat (8 * (length args + 1))) m' = 0 \<and>
    (\<forall>i<length envs. has_string m' (get_le 8 (rsp' + of_nat (8 * (length args + 2 + i))) m') (envs ! i)) \<and>
    get_le 8 (rsp' + of_nat (8 * (length args + length envs + 2))) m' = 0"
  using exec_stack_block [OF assms, of m] unfolding Let_def by blast

theorem exec_stack_roundtrip_witness:
  "let (st, rsp) = exec_stack (stack_base + 510 * 8) [''ls'', ''-l''] []; m' = apply_stores st (\<lambda>_. 0) in
     get_le 8 rsp m' = 2 \<and> has_string m' (get_le 8 (rsp + 8) m') ''ls'' \<and> has_string m' (get_le 8 (rsp + 16) m') ''-l''"
proof -
  obtain st rsp where e: "exec_stack (stack_base + 510 * 8) [''ls'', ''-l''] [] = (st, rsp)" by fastforce
  have "room [''ls'', ''-l''] + room [] + 8 * (length [''ls'', ''-l''] + length ([] :: string list) + 3) < 2 ^ 62"
    by simp
  note res = exec_stack_roundtrip [OF e this, of "\<lambda>_. 0", unfolded Let_def]
  then have "\<forall>i<2. has_string (apply_stores st (\<lambda>_. 0)) (get_le 8 (rsp + of_nat (8 * (i + 1))) (apply_stores st (\<lambda>_. 0))) ([''ls'', ''-l''] ! i)"
    by simp
  from spec [OF this, of 0] spec [OF this, of 1] res show ?thesis unfolding e by simp
qed

text \<open>
  The first program does not get its name: \<open>create_process\<close> stores the name and an argument count of
  one, but the argument pointer it stores points to a zero quadword, so the program's first argument is
  the empty string.
\<close>

theorem create_stack_loses_name:
  assumes "create_stack rsp a = (st, rsp')"
  shows "let m' = apply_stores st m in
    get_le 8 rsp' m' = 1 \<and> has_string m' (get_le 8 (rsp' + 8) m') '''' \<and> rsp' = rsp - 8 * of_nat (length a + 5)"
proof -
  let ?b = "rsp - 8 * of_nat (length a + 1)"
  have q: "push_quads ?b [1, ?b - 16, 0, 0] = (drop 1 st, rsp')" and st: "st = Str ?b a # drop 1 st"
    using assms by (auto simp: create_stack_def Let_def algebra_simps)
  let ?m = "apply_stores (drop 1 st) (apply_store (Str ?b a) m)"
  have m': "apply_stores st m = ?m" by (subst st) simp
  have w: "rsp' = ?b - of_nat 32" "\<forall>i<4. get_le 8 (rsp' + of_nat (8 * i)) ?m = [1, ?b - 16, 0, 0] ! i"
    using push_quads_words [OF q, of "apply_store (Str ?b a) m"] by auto
  have g: "get_le 8 rsp' ?m = 1" "get_le 8 (rsp' + 8) ?m = ?b - 16" "get_le 8 (rsp' + 16) ?m = 0"
    using spec [OF w(2), of 0] spec [OF w(2), of 1] spec [OF w(2), of 2] by simp_all
  have "?m (rsp' + 16) = 0" using get_le_byte [of ?m "rsp' + 16" 7] g(3) by simp
  then have "?m (?b - 16) = 0" using w(1) by simp
  then have "has_string ?m (get_le 8 (rsp' + 8) ?m) ''''" unfolding g(2) by (simp add: has_string_def)
  moreover have "rsp' = rsp - 8 * of_nat (length a + 5)" using w(1) by (simp add: algebra_simps)
  ultimately show ?thesis unfolding m' Let_def using g(1) by blast
qed

theorem create_stack_loses_name_witness:
  "let (st, rsp) = create_stack (stack_base + 510 * 8) ''bin/sbush''; m' = apply_stores st (\<lambda>_. 0) in
     get_le 8 rsp m' = 1 \<and> has_string m' (get_le 8 (rsp + 8) m') ''''"
proof -
  obtain st rsp where e: "create_stack (stack_base + 510 * 8) ''bin/sbush'' = (st, rsp)" by fastforce
  then show ?thesis using create_stack_loses_name [OF e, of "\<lambda>_. 0"] unfolding e Let_def by blast
qed

section \<open>The page loop\<close>

text \<open>
  The page loop of a segment ends, with its pages mapped or with a fault, whenever the segment does
  not reach into the last page of the address space; there the counter would wrap round.
\<close>

theorem map_range_terminates:
  fixes s :: "'a vmem_scheme"
  assumes "unat vend + 4096 \<le> 2 ^ 64"
  shows "\<exists>res. map_range k vend pml4 s = Some res"
proof (induction "unat vend - unat k" arbitrary: k s rule: less_induct)
  case less
  show ?case
  proof (cases "k < vend")
    case True
    then have "unat k < unat vend" by (simp add: word_less_nat_alt)
    then have u: "unat (k + 4096) = unat k + 4096" using assms by (simp add: unat_word_ariths)
    have "\<exists>res. map_range (k + 4096) vend pml4 s' = Some res" for s' :: "'a vmem_scheme"
      using \<open>unat k < unat vend\<close> u by (intro less) simp
    then show ?thesis by (subst map_range.simps) (auto split: sum.splits)
  next
    case False
    then show ?thesis by (subst map_range.simps) simp
  qed
qed

theorem map_range_terminates_witness: "\<exists>res. map_range 0x400000 0x403000 (KERNBASE + page_addr 7) example_vmem = Some res"
  by (rule map_range_terminates) simp

section \<open>What the loaders leave alone\<close>

lemma more_map_range_any: "map_range k vend pml4 s = Some x \<Longrightarrow> \<forall>s'. x = Inr s' \<longrightarrow> vmem.more s' = vmem.more s"
proof (erule map_range.raw_induct [rotated])
  fix f :: "u64 \<Rightarrow> u64 \<Rightarrow> u64 \<Rightarrow> 'a vmem_scheme \<Rightarrow> 'a vmem_scheme res option" and k vend pml4 s y
  assume ih: "\<And>k vend pml4 s y. f k vend pml4 s = Some y \<Longrightarrow> \<forall>s'. y = Inr s' \<longrightarrow> vmem.more s' = vmem.more s"
    and eq: "(if k < vend then (case rbind (allocate_page s) (\<lambda>(yy, s). init_pages_for_process k yy pml4 s) of
        Inl e \<Rightarrow> Some (Inl e) | Inr s \<Rightarrow> f (k + 4096) vend pml4 s) else Some (Inr s)) = Some y"
  show "\<forall>s'. y = Inr s' \<longrightarrow> vmem.more s' = vmem.more s"
  proof (cases "rbind (allocate_page s) (\<lambda>(yy, s). init_pages_for_process k yy pml4 s)")
    case (Inr s1)
    then have "vmem.more s1 = vmem.more s"
      by (auto simp: res_simps dest!: more_allocate_page more_init_pages_for_process)
    then show ?thesis using eq Inr ih [of "k + 4096" vend pml4 s1 y] by (auto split: if_splits)
  qed (use eq in \<open>auto split: if_splits\<close>)
qed

lemma more_map_range: "map_range k vend pml4 s = Some (Inr s') \<Longrightarrow> vmem.more s' = vmem.more s"
  using more_map_range_any by blast

lemma more_map_segment: "map_segment k vend pml4 s = Inr s' \<Longrightarrow> vmem.more s' = vmem.more s"
  by (auto simp: map_segment_def split: option.splits dest: more_map_range)

lemma more_copy_page: "vmem.more (copy_page d c s) = vmem.more s"
proof -
  have "vmem.more (fold (\<lambda>i s. wr d i (rd s c i) s) is s) = vmem.more s" for "is"
    by (induction "is" arbitrary: s) simp_all
  then show ?thesis by (simp add: copy_page_def)
qed

lemma more_cow_fault: "cow_fault bb k s = Inr s' \<Longrightarrow> vmem.more s' = vmem.more s"
  unfolding cow_fault_def Let_def res_simps
  by (auto simp: res_simps more_copy_page switchtokern_def split: if_splits
      dest!: more_allocate_page more_init_pages_for_process more_free)

lemma more_stack_fault: "stack_fault bb s = Inr s' \<Longrightarrow> vmem.more s' = vmem.more s"
  unfolding stack_fault_def Let_def res_simps
  by (auto simp: res_simps switchtokern_def dest!: more_allocate_page more_init_pages_for_process)

lemma yield_states: "yield s = Inr s' \<Longrightarrow> t_state (q s' i) = t_state (q s i)"
  by (auto simp: yield_def Let_def set_task_def split: option.splits)

lemma exit_dead: "exit s = Inr s' \<Longrightarrow> t_state (q s' (r s)) = ZOMBIE"
  by (auto simp: exit_def exit_prepare_def wake_parent_def Let_def res_simps yield_states split: if_splits)

lemma segfault_dead: "segfault bb s = Inr s' \<Longrightarrow> t_state (q s' (r s)) = ZOMBIE"
  unfolding segfault_def res_simps using exit_dead by fastforce

lemma more_touch: "touch v s = Inr s' \<Longrightarrow> vmem.more s' = vmem.more s"
  by (auto simp: touch_def isr14_def Let_def res_simps split: option.splits list.splits if_splits
      dest!: segfault_dead more_cow_fault more_stack_fault)

lemma more_store_byte: "store_byte v b s = Inr s' \<Longrightarrow> vmem.more s' = vmem.more s"
  by (auto simp: store_byte_def res_simps dest!: more_touch)

lemma more_store_quad: "store_quad v b s = Inr s' \<Longrightarrow> vmem.more s' = vmem.more s"
  by (auto simp: store_quad_def res_simps dest!: more_touch)

lemma more_do_store: "do_store u s = Inr s' \<Longrightarrow> vmem.more s' = vmem.more s"
  by (cases u) (auto simp: store_string_def dest: more_store_quad more_rfold more_store_byte)

section \<open>The task a loader makes\<close>

text \<open>The areas of a task, and those its program headers ask for, in the order of the headers.\<close>

definition areas :: "nat \<Rightarrow> 'a kernel_scheme \<Rightarrow> (u64 \<times> u64) list" where
  "areas t s = map (\<lambda>vm. (vm_start vm, vm_end vm)) (t_vm (q s t))"

definition seg_areas :: "'a fskernel_scheme \<Rightarrow> u64 \<Rightarrow> nat list \<Rightarrow> (u64 \<times> u64) list" where
  "seg_areas s f_a is = map (\<lambda>i. (p_vaddr s (phdr s f_a i), p_vaddr s (phdr s f_a i) + p_memsz s (phdr s f_a i)))
     (filter (\<lambda>i. p_type s (phdr s f_a i) = 1) is)"

text \<open>Only the areas and the user stack of task \<open>t\<close> differ.\<close>

definition on_task :: "nat \<Rightarrow> 'a kernel_scheme \<Rightarrow> 'a kernel_scheme \<Rightarrow> bool" where
  "on_task t s s' \<longleftrightarrow> r s' = r s \<and> kernel.more s' = kernel.more s \<and> (\<forall>i. i \<noteq> t \<longrightarrow> q s' i = q s i) \<and>
     (\<exists>vs u p. q s' t = (q s t)\<lparr>t_vm := vs, t_ustack := u, t_rsp := p\<rparr>)"

lemma on_task_refl: "on_task t s s"
proof -
  have "q s t = (q s t)\<lparr>t_vm := t_vm (q s t), t_ustack := t_ustack (q s t), t_rsp := t_rsp (q s t)\<rparr>" by simp
  then show ?thesis unfolding on_task_def by blast
qed

lemma on_task_trans: "on_task t s s1 \<Longrightarrow> on_task t s1 s2 \<Longrightarrow> on_task t s s2"
  unfolding on_task_def by fastforce

lemma on_task_upd:
  assumes "on_task t s0 s" "\<exists>vs u p. x = (q s t)\<lparr>t_vm := vs, t_ustack := u, t_rsp := p\<rparr>"
  shows "on_task t s0 (set_task t x s)"
proof -
  have "on_task t s (set_task t x s)" unfolding on_task_def using assms(2) by simp
  with assms(1) show ?thesis by (rule on_task_trans)
qed

lemma on_task_more: "vmem.more s' = vmem.more s \<Longrightarrow> on_task t s0 s \<Longrightarrow> on_task t s0 s' \<and> areas t s' = areas t s"
  by (drule more_kernel) (auto simp: on_task_def areas_def)

lemma on_task_add_area:
  "on_task t s0 s \<Longrightarrow> on_task t s0 (add_area t vm s) \<and> areas t (add_area t vm s) = (vm_start vm, vm_end vm) # areas t s"
proof -
  assume s: "on_task t s0 s"
  let ?t = "(q s t)\<lparr>t_vm := vm # t_vm (q s t)\<rparr>"
  have "?t = (q s t)\<lparr>t_vm := vm # t_vm (q s t), t_ustack := t_ustack (q s t), t_rsp := t_rsp (q s t)\<rparr>" by simp
  then have "on_task t s0 (add_area t vm s)" unfolding add_area_def by (blast intro: on_task_upd [OF s])
  then show ?thesis by (simp add: add_area_def areas_def)
qed

lemma tar_same:
  fixes s s' :: "'a fskernel_scheme"
  assumes "kernel.more s' = kernel.more s"
  shows "tar_img s' = tar_img s \<and> tar_base s' = tar_base s \<and> tar_len s' = tar_len s \<and> headers s' = headers s"
  using assms by (cases s; cases s'; simp)

lemma file_same:
  fixes s s' :: "'a fskernel_scheme"
  assumes "kernel.more s' = kernel.more s"
  shows "file_byte s' = file_byte s" "file_le n s' = file_le n s" "e_entry s' = e_entry s" "e_phnum s' = e_phnum s"
    "phdr s' = phdr s" "p_type s' = p_type s" "p_vaddr s' = p_vaddr s" "p_memsz s' = p_memsz s" "seg_areas s' = seg_areas s"
proof -
  show b: "file_byte s' = file_byte s" using tar_same [OF assms] by (simp add: fun_eq_iff file_byte_def)
  have le: "file_le n s' a = file_le n s a" for n a by (induction n arbitrary: a) (simp_all add: b)
  then show "file_le n s' = file_le n s" "e_entry s' = e_entry s" "e_phnum s' = e_phnum s"
    and f: "phdr s' = phdr s" "p_type s' = p_type s" "p_vaddr s' = p_vaddr s" "p_memsz s' = p_memsz s"
    by (simp_all add: fun_eq_iff e_entry_def e_phnum_def phdr_def e_phoff_def p_type_def p_vaddr_def p_memsz_def)
  show "seg_areas s' = seg_areas s" by (simp add: fun_eq_iff seg_areas_def f)
qed

lemma if_Inl_eq_Inr: "(if c then Inl e else m) = Inr y \<longleftrightarrow> \<not> c \<and> m = Inr y"
  by simp

lemma load_segment_task:
  assumes "load_segment t pml4 f_a i s = Inr s'"
  shows "on_task t s s' \<and> areas t s' = seg_areas s f_a [i] @ areas t s"
proof (cases "p_type s (phdr s f_a i) = 1")
  case True
  let ?ep = "phdr s f_a i"
  from assms True obtain node s1 k s2 s3 s4 where s1: "kmalloc sizeof_vma s = Inr (node, s1)"
    and s2: "map_segment k (p_vaddr s1 ?ep + p_memsz s1 ?ep) pml4
        (add_area t \<lparr>vm_node = node, vm_start = p_vaddr s1 ?ep, vm_end = p_vaddr s1 ?ep + p_memsz s1 ?ep\<rparr> s1) = Inr s2"
    and s3: "memcpy_file (p_vaddr s1 ?ep) (f_a + sizeof_Ehdr * p_offset (s2\<lparr>cr3 := pml4 - KERNBASE\<rparr>) ?ep)
        (p_filesz (s2\<lparr>cr3 := pml4 - KERNBASE\<rparr>) ?ep) (s2\<lparr>cr3 := pml4 - KERNBASE\<rparr>) = Inr s3"
    and s4: "memset_user (p_vaddr s1 ?ep + p_filesz s3 ?ep) 0 (p_memsz s3 ?ep - p_filesz s3 ?ep) s3 = Inr s4"
    and s': "s' = s4\<lparr>cr3 := cr3 s2\<rparr>"
    by (auto simp: load_segment_def Let_def res_simps if_Inl_eq_Inr split del: if_split)
  let ?s1 = "add_area t \<lparr>vm_node = node, vm_start = p_vaddr s1 ?ep, vm_end = p_vaddr s1 ?ep + p_memsz s1 ?ep\<rparr> s1"
  note m1 = more_kmalloc [OF s1]
  have a1: "on_task t s s1 \<and> areas t s1 = areas t s" by (rule on_task_more [OF m1 on_task_refl])
  then have a2: "on_task t s ?s1" "areas t ?s1 = (p_vaddr s1 ?ep, p_vaddr s1 ?ep + p_memsz s1 ?ep) # areas t s"
    using on_task_add_area [of t s s1] by auto
  have "vmem.more s3 = vmem.more s2" using s3 unfolding memcpy_file_def
    by (auto dest!: more_rfold simp: more_store_byte)
  moreover have "vmem.more s4 = vmem.more s3" using s4 unfolding memset_user_def
    by (auto dest!: more_rfold simp: more_store_byte)
  ultimately have "vmem.more s' = vmem.more ?s1" using more_map_segment [OF s2] by (simp add: s')
  from on_task_more [OF this a2(1)] have "on_task t s s'" "areas t s' = areas t ?s1" by auto
  moreover have "kernel.more s1 = kernel.more s" using a1 by (simp add: on_task_def)
  ultimately show ?thesis using True a2(2) file_same [of s1 s] by (simp add: seg_areas_def)
qed (use assms in \<open>auto simp: load_segment_def seg_areas_def on_task_refl\<close>)

lemma load_segments_task:
  assumes "rfold (load_segment t pml4 f_a) is s = Inr s'"
  shows "on_task t s s' \<and> areas t s' = seg_areas s f_a (rev is) @ areas t s"
  using assms
proof (induction "is" arbitrary: s)
  case (Cons i "is")
  then obtain s1 where s1: "load_segment t pml4 f_a i s = Inr s1" "rfold (load_segment t pml4 f_a) is s1 = Inr s'"
    by (auto simp: res_simps)
  note l = load_segment_task [OF s1(1)] and ih = Cons.IH [OF s1(2)]
  have "seg_areas s1 = seg_areas s" using l file_same(9) by (auto simp: on_task_def)
  moreover have "seg_areas s f_a (rev (i # is)) = seg_areas s f_a (rev is) @ seg_areas s f_a [i]"
    by (simp add: seg_areas_def)
  ultimately show ?case using l ih by (auto intro: on_task_trans)
qed (simp add: on_task_refl seg_areas_def)

lemma add_heap_stack_task:
  assumes "add_heap_stack t pml4 s = Inr s'"
  shows "on_task t s s' \<and> areas t s' = (stack_base, stack_limit) # (heap_base, heap_base) # areas t s \<and>
    t_rsp (q s' t) = stack_base + 510 * 8 \<and> t_ustack (q s' t) = stack_base"
proof -
  from assms obtain n1 s1 p s2 s3 n2 s4 where s1: "kmalloc sizeof_vma s = Inr (n1, s1)"
    and s2: "allocate_page (add_area t \<lparr>vm_node = n1, vm_start = heap_base, vm_end = heap_base\<rparr> s1) = Inr (p, s2)"
    and s3: "init_pages_for_process stack_base p pml4 s2 = Inr s3"
    and s4: "kmalloc sizeof_vma (set_task t ((q s3 t)\<lparr>t_ustack := stack_base, t_rsp := stack_base + 510 * 8\<rparr>) s3) = Inr (n2, s4)"
    and s': "s' = add_area t \<lparr>vm_node = n2, vm_start = stack_base, vm_end = stack_limit\<rparr> s4"
    by (auto simp: add_heap_stack_def Let_def res_simps)
  let ?a1 = "add_area t \<lparr>vm_node = n1, vm_start = heap_base, vm_end = heap_base\<rparr> s1"
  let ?s3 = "set_task t ((q s3 t)\<lparr>t_ustack := stack_base, t_rsp := stack_base + 510 * 8\<rparr>) s3"
  have a1: "on_task t s ?a1" "areas t ?a1 = (heap_base, heap_base) # areas t s"
    using on_task_add_area [of t s s1] on_task_more [OF more_kmalloc [OF s1] on_task_refl] by auto
  have "vmem.more s3 = vmem.more ?a1"
    using more_allocate_page [OF s2] more_init_pages_for_process [OF s3] by simp
  from on_task_more [OF this a1(1)] a1(2) have a3: "on_task t s s3" "areas t s3 = (heap_base, heap_base) # areas t s"
    by auto
  have "(q s3 t)\<lparr>t_ustack := stack_base, t_rsp := stack_base + 510 * 8\<rparr> =
    (q s3 t)\<lparr>t_vm := t_vm (q s3 t), t_ustack := stack_base, t_rsp := stack_base + 510 * 8\<rparr>" by simp
  then have a3': "on_task t s ?s3" "areas t ?s3 = areas t s3"
    by (blast intro: on_task_upd [OF a3(1)], simp add: areas_def)
  from on_task_more [OF more_kmalloc [OF s4] a3'(1)] a3 a3'(2)
  have a4: "on_task t s s4" "areas t s4 = (heap_base, heap_base) # areas t s" by auto
  have "q s4 = q ?s3" using more_kernel [OF more_kmalloc [OF s4]] by simp
  then have "t_rsp (q s4 t) = stack_base + 510 * 8" "t_ustack (q s4 t) = stack_base" by simp_all
  then show ?thesis using on_task_add_area [OF a4(1)] a4(2) by (simp add: s') (simp add: add_area_def)
qed

lemma cr3_touch: "touch v s = Inr s' \<Longrightarrow> cr3 s' = cr3 s"
  by (auto simp: touch_def isr14_def cow_fault_def stack_fault_def Let_def res_simps
      split: option.splits list.splits if_splits dest!: segfault_dead)

lemma cr3_do_store: "do_store u s = Inr s' \<Longrightarrow> cr3 s' = cr3 s"
proof (cases u)
  case (Str a t)
  assume "do_store u s = Inr s'"
  then have "rfold (\<lambda>(i, c). store_byte (a + of_nat i) (of_char c)) (enumerate 0 (t @ [CHR 0x00])) s = Inr s'"
    by (simp add: Str store_string_def)
  then show ?thesis
    by (rule rfold_invariant [where P = "\<lambda>t. cr3 t = cr3 s"]) (auto simp: store_byte_def res_simps dest!: cr3_touch)
qed (auto simp: store_quad_def res_simps dest!: cr3_touch)

lemma stack_stores_frame:
  assumes "rfold do_store st s = Inr s'"
  shows "vmem.more s' = vmem.more s \<and> cr3 s' = cr3 s"
  by (rule rfold_invariant [OF assms, where P = "\<lambda>t. vmem.more t = vmem.more s \<and> cr3 t = cr3 s"])
     (auto dest: more_do_store cr3_do_store)

lemma create_process_effect:
  assumes run: "create_process fn s = Inr (res, s')"
  defines "f_a \<equiv> get_file_address fn s + 512"
  shows "if f_a < 512 then res = Return 0 \<and> q s' = q s \<and> r s' = r s \<and> kmem s' = kmem s
    else \<exists>pid. newPID s = Some pid \<and> r s' = pid \<and> tss_rsp0 s' = pid \<and> cr3 s' = t_pml4e (q s' pid) \<and>
      (\<exists>pml4 vs. q s' pid = (q s pid)\<lparr>t_name := fn, t_curr_dir := ''/'', t_ppid := 0, t_pid := pid, t_state := RUNNING,
         t_pml4e := pml4, t_vm := vs, t_ustack := stack_base, t_rsp := stack_base + 510 * 8 - 8 * of_nat (length fn + 5),
         reg_rip := Addr (e_entry s f_a)\<rparr>) \<and>
      areas pid s' = (stack_base, stack_limit) # (heap_base, heap_base) # seg_areas s f_a [1..<Suc (e_phnum s f_a)] \<and>
      res = Enter (e_entry s f_a) (t_rsp (q s' pid)) \<and> (\<forall>i. i \<noteq> pid \<longrightarrow> q s' i = q s i)"
proof (cases "f_a < 512")
  case True
  then show ?thesis using run by (auto simp: create_process_def f_a_def [symmetric] Let_def res_simps)
next
  case False
  obtain pid where pid: "newPID s = Some pid"
    using run False by (auto simp: create_process_def f_a_def [symmetric] Let_def with_slot_def split: if_splits option.splits)
  define t1 where "t1 = (q s pid)\<lparr>t_name := fn, t_curr_dir := ''/'', t_ppid := 0, t_pid := pid, t_vm := [], t_state := RUNNING\<rparr>"
  obtain pml4 s1 s2 s3 s4 where s1: "allocate_page_for_process (set_task pid t1 s) = Inr (pml4, s1)"
    and s2: "load_segments pid pml4 f_a (set_task pid ((q s1 pid)\<lparr>t_pml4e := pml4 - KERNBASE,
        reg_rip := Addr (e_entry (memset_page pml4 s1) f_a)\<rparr>) (memset_page pml4 s1)) = Inr s2"
    and s3: "add_heap_stack pid pml4 s2 = Inr s3"
    and s4: "rfold do_store (fst (create_stack (t_rsp (q s3 pid)) fn)) (s3\<lparr>tss_rsp0 := pid, cr3 := pml4 - KERNBASE\<rparr>) = Inr s4"
    and s': "s' = (set_task pid ((q s4 pid)\<lparr>t_rsp := snd (create_stack (t_rsp (q s3 pid)) fn)\<rparr>) s4)\<lparr>r := pid\<rparr>"
    and res: "res = Enter (e_entry (set_task pid ((q s4 pid)\<lparr>t_rsp := snd (create_stack (t_rsp (q s3 pid)) fn)\<rparr>) s4) f_a)
        (snd (create_stack (t_rsp (q s3 pid)) fn))"
    using run False pid
    by (auto simp: create_process_def f_a_def [symmetric] Let_def with_slot_def t1_def res_simps case_prod_beta
        if_Inl_eq_Inr)
  let ?m = "memset_page pml4 s1"
  let ?s1 = "set_task pid ((q s1 pid)\<lparr>t_pml4e := pml4 - KERNBASE, reg_rip := Addr (e_entry ?m f_a)\<rparr>) ?m"
  let ?rsp = "snd (create_stack (t_rsp (q s3 pid)) fn)"
  have m1: "q s1 = (q s)(pid := t1)" "r s1 = r s" "kernel.more s1 = kernel.more s"
    using more_kernel [OF more_allocate_page_for_process [OF s1]] by simp_all
  then have e1: "kernel.more ?s1 = kernel.more s" "e_entry ?m f_a = e_entry s f_a" "e_phnum ?s1 f_a = e_phnum s f_a"
    "seg_areas ?s1 = seg_areas s"
    using file_same [of ?m s] file_same [of ?s1 s] by simp_all
  have l: "on_task pid ?s1 s2 \<and> areas pid s2 = seg_areas s f_a [1..<Suc (e_phnum s f_a)] @ areas pid ?s1"
    using load_segments_task [OF s2 [unfolded load_segments_def]] e1 by simp
  have a1: "areas pid ?s1 = []" by (simp add: areas_def m1 t1_def)
  note h = add_heap_stack_task [OF s3]
  have rsp: "?rsp = stack_base + 510 * 8 - 8 * of_nat (length fn + 5)"
    using h by (simp add: create_stack_def Let_def algebra_simps)
  have f4: "q s4 = q s3" "tss_rsp0 s4 = pid" "cr3 s4 = pml4 - KERNBASE" "kernel.more s4 = kernel.more s3"
    using stack_stores_frame [OF s4] more_kernel [of s4 "s3\<lparr>tss_rsp0 := pid, cr3 := pml4 - KERNBASE\<rparr>"] by simp_all
  have o3: "on_task pid ?s1 s3" using l h on_task_trans by blast
  then obtain vs u p where t3: "q s3 pid = (q ?s1 pid)\<lparr>t_vm := vs, t_ustack := u, t_rsp := p\<rparr>"
    and others: "\<forall>i. i \<noteq> pid \<longrightarrow> q s3 i = q s i" and more3: "kernel.more s3 = kernel.more s"
    using m1 e1 by (auto simp: on_task_def)
  have "e_entry (set_task pid x s4) = e_entry s" for x using f4(4) more3 by (intro file_same(3)) simp
  moreover have "areas pid s' = areas pid s3" by (simp add: s' areas_def f4)
  moreover have "q s' pid = (q s pid)\<lparr>t_name := fn, t_curr_dir := ''/'', t_ppid := 0, t_pid := pid, t_state := RUNNING,
         t_pml4e := pml4 - KERNBASE, t_vm := vs, t_ustack := stack_base, t_rsp := ?rsp, reg_rip := Addr (e_entry s f_a)\<rparr>"
    using h t3 by (simp add: s' f4 m1 t1_def e1)
  moreover have "cr3 s' = pml4 - KERNBASE" "tss_rsp0 s' = pid" "r s' = pid" "\<forall>i. i \<noteq> pid \<longrightarrow> q s' i = q s i"
    using others by (simp_all add: s' f4 set_task_def)
  ultimately show ?thesis using False pid h l a1 rsp by (auto simp: res)
qed

lemma exec_select_frame:
  assumes "exec_select path argv s = Inr (sel, s1)"
  shows "kmem s1 = kmem s \<and> r s1 = r s \<and> kernel.more s1 = kernel.more s \<and> (\<forall>i. i \<noteq> r s \<longrightarrow> q s1 i = q s i) \<and>
    (\<exists>nm. q s1 (r s) = (cur s)\<lparr>t_name := nm\<rparr>)"
proof -
  have "\<exists>nm. cur s = (cur s)\<lparr>t_name := nm\<rparr>" by (rule exI [of _ "t_name (cur s)"]) simp
  then show ?thesis using assms
    by (auto simp: exec_select_def Let_def res_simps if_Inl_eq_Inr split: if_splits)
qed

lemma execvpe_effect:
  assumes run: "execvpe path argv env s = Inr (res, s')"
  shows "r s' = r s \<and> (\<forall>i. i \<noteq> r s \<longrightarrow> q s' i = q s i) \<and>
    (res = Return (- 1) \<and> kmem s' = kmem s \<and> (\<exists>nm. cur s' = (cur s)\<lparr>t_name := nm\<rparr>) \<or>
     (\<exists>f_a args s1 nm vs rsp. exec_select path argv s = Inr (Some (f_a, args), s1) \<and> env = [] \<and>
        rsp = snd (exec_stack (stack_base + 510 * 8) args []) \<and> res = Enter (e_entry s f_a) rsp \<and> tss_rsp0 s' = r s \<and>
        cur s' = (cur s)\<lparr>t_name := nm, reg_rip := Addr (e_entry s f_a), t_vm := vs, t_ustack := stack_base, t_rsp := rsp\<rparr> \<and>
        areas (r s) s' = (stack_base, stack_limit) # (heap_base, heap_base) #
          seg_areas s f_a [1..<Suc (e_phnum s f_a)] @ areas (r s) s))"
proof -
  obtain sel s1 where s1: "exec_select path argv s = Inr (sel, s1)"
    using run by (auto simp: execvpe_def res_simps)
  note fr = exec_select_frame [OF s1]
  then obtain nm where nm: "q s1 (r s) = (cur s)\<lparr>t_name := nm\<rparr>" by blast
  show ?thesis
  proof (cases "\<exists>f_a args. sel = Some (f_a, args) \<and> \<not> f_a < 512 \<and> env = []")
    case False
    then have "res = Return (- 1) \<and> s' = s1"
      using run s1 by (auto simp: execvpe_def split: option.splits if_splits)
    then show ?thesis using fr by auto
  next
    case True
    then obtain f_a args where sel: "sel = Some (f_a, args)" "\<not> f_a < 512" "env = []" by blast
    let ?t = "r s" and ?t1 = "(q s1 (r s))\<lparr>reg_rip := Addr (e_entry s1 f_a)\<rparr>"
    obtain s2 s3 s4 s5 where s2: "dealloc_pml4 (t_pml4e (q s1 ?t)) (set_task ?t ?t1 s1) = Inr s2"
      and s3: "load_segments ?t (t_pml4e (q s1 ?t) + KERNBASE) f_a s2 = Inr s3"
      and s4: "add_heap_stack ?t (t_pml4e (q s1 ?t) + KERNBASE) s3 = Inr s4"
      and s5: "rfold do_store (fst (exec_stack (t_rsp (q s4 ?t)) args [])) s4 = Inr s5"
      and s': "s' = (set_task ?t ((q s5 ?t)\<lparr>t_rsp := snd (exec_stack (t_rsp (q s4 ?t)) args [])\<rparr>) s5)\<lparr>tss_rsp0 := ?t\<rparr>"
      and res: "res = Enter (e_entry (set_task ?t ((q s5 ?t)\<lparr>t_rsp := snd (exec_stack (t_rsp (q s4 ?t)) args [])\<rparr>) s5) f_a)
        (snd (exec_stack (t_rsp (q s4 ?t)) args []))"
      using run s1 sel fr by (auto simp: execvpe_def Let_def res_simps case_prod_beta)
    have m2: "q s2 = (q s1)(?t := ?t1)" "r s2 = r s" "kernel.more s2 = kernel.more s"
      using more_kernel [OF more_dealloc(4) [OF s2]] fr by simp_all
    have l: "on_task ?t s2 s3 \<and> areas ?t s3 = seg_areas s f_a [1..<Suc (e_phnum s f_a)] @ areas ?t s2"
      using load_segments_task [OF s3 [unfolded load_segments_def]] file_same [OF m2(3)] by simp
    note h = add_heap_stack_task [OF s4]
    have o4: "on_task ?t s2 s4" using l h on_task_trans by blast
    then obtain vs u p where t4: "q s4 ?t = (q s2 ?t)\<lparr>t_vm := vs, t_ustack := u, t_rsp := p\<rparr>"
      and others: "\<forall>i. i \<noteq> ?t \<longrightarrow> q s4 i = q s i" and more4: "kernel.more s4 = kernel.more s" "r s4 = r s"
      using m2 fr by (auto simp: on_task_def)
    have f5: "q s5 = q s4" "kernel.more s5 = kernel.more s4" "r s5 = r s4"
      using stack_stores_frame [OF s5] more_kernel [of s5 s4] by simp_all
    have "e_entry (set_task ?t x s5) = e_entry s" for x using f5 more4 by (intro file_same(3)) simp
    moreover have "e_entry s1 = e_entry s" using fr by (intro file_same(3)) simp
    moreover have "areas ?t s' = areas ?t s4" "areas ?t s2 = areas ?t s" by (simp_all add: s' areas_def f5 m2 nm)
    moreover have "t_rsp (q s4 ?t) = stack_base + 510 * 8" "t_ustack (q s4 ?t) = stack_base" using h by simp_all
    moreover have "q s' ?t = (q s ?t)\<lparr>t_name := nm, reg_rip := Addr (e_entry s1 f_a), t_vm := vs, t_ustack := u,
        t_rsp := snd (exec_stack (t_rsp (q s4 ?t)) args [])\<rparr>"
      by (simp add: s' f5 t4 m2 nm)
    moreover have "u = stack_base" using h t4 by simp
    moreover have "r s' = r s" "tss_rsp0 s' = r s" "\<forall>i. i \<noteq> ?t \<longrightarrow> q s' i = q s i"
      using others more4 by (simp_all add: s' f5 set_task_def)
    ultimately show ?thesis using s1 sel h l res by auto
  qed
qed



end
