(* ===== verification/Boot_Example.thy ===== *)
theory Boot_Example
  imports Loader
begin

unbundle bit_operations_syntax

text \<open>
  A machine that boots: kernel tables in the frames 20 to 23, all frames from 30 on free, and an archive
  with one program \<^verbatim>\<open>bin/sbush\<close> without program headers. The first program is started on it.
\<close>

section \<open>The machine\<close>

definition boot_img :: "nat \<Rightarrow> char" where
  "boot_img = place 0 ''bin/sbush'' (\<lambda>_. CHR 0x00)"

definition boot_kernel :: kernel where
  "boot_kernel = example_kernel\<lparr>
     pagelist := (\<lambda>i. \<lparr>fl_address = page_addr i, fl_free = 1, fl_ref_count = 0, fl_next = Some (i + 1)\<rparr>),
     head := Some 30,
     kmem := (\<lambda>_. 0)(KERNBASE + page_addr 20 + 8 * 511 := page_addr 21 OR 3,
                     KERNBASE + page_addr 21 + 8 * 510 := page_addr 22 OR 3,
                     KERNBASE + page_addr 22 := page_addr 23 OR 3),
     pml4e := KERNBASE + page_addr 20,
     q := (\<lambda>_. blank_task)\<rparr>"

definition boot_machine :: fskernel where
  "boot_machine = terminal.extend (clocked.extend (kernel.extend boot_kernel (clocked.fields 0 0 []))
     (terminal.fields example_screen (\<lambda>_. CHR 0x00) 0 0 False False 0)) (fskernel.fields 0 boot_img 1024 [0])"

text \<open>Frames from \<open>n\<close> on are free, and the kernel's tables are there.\<close>

definition frames_from :: "nat \<Rightarrow> 'a vmem_scheme \<Rightarrow> bool" where
  "frames_from n s \<longleftrightarrow> head s = Some n \<and>
     (\<forall>i\<ge>n. pagelist s i = \<lparr>fl_address = page_addr i, fl_free = 1, fl_ref_count = 0, fl_next = Some (i + 1)\<rparr>) \<and>
     pml4e s = KERNBASE + page_addr 20 \<and> kmem s (KERNBASE + page_addr 20 + 8 * 511) = page_addr 21 OR 3 \<and>
     kmem s (KERNBASE + page_addr 21 + 8 * 510) = page_addr 22 OR 3 \<and> kmem s (KERNBASE + page_addr 22) = page_addr 23 OR 3"

lemma frames_alloc:
  "frames_from n s \<Longrightarrow> \<exists>s'. allocate_page s = Inr (page_addr n, s') \<and> frames_from (n + 1) s' \<and> kmem s' = kmem s \<and> cr3 s' = cr3 s"
  by (simp add: frames_from_def allocate_page_def set_page_def Let_def)

lemma frames_kernel_page:
  assumes "frames_from n s" "n \<in> {30, 31, 36}"
  shows "\<exists>s'. allocate_page_for_process s = Inr (KERNBASE + page_addr n, s') \<and> frames_from (n + 1) s' \<and>
    kmem s' = (kmem s)(KERNBASE + page_addr 23 + 8 * of_nat n := page_addr n OR 3) \<and> cr3 s' = cr3 s"
proof -
  obtain s1 where s1: "allocate_page s = Inr (page_addr n, s1)" "frames_from (n + 1) s1" "kmem s1 = kmem s" "cr3 s1 = cr3 s"
    using frames_alloc [OF assms(1)] by blast
  let ?s = "s1\<lparr>viraddr := KERNBASE + page_addr n\<rparr>"
  have "map_kernel (KERNBASE + page_addr n) (page_addr n) ?s = Inr (wr (KERNBASE + page_addr 23) (of_nat n) (page_addr n OR 3) ?s)"
    using assms(2) s1(2) unfolding frames_from_def
    by (elim insertE emptyE conjE) (simp_all add: map_kernel_def page_addr_def tidx_def rd_def Let_def)
  moreover have "frames_from (n + 1) (wr (KERNBASE + page_addr 23) (of_nat n) (page_addr n OR 3) ?s)"
    using assms(2) s1(2) unfolding frames_from_def
    by (elim insertE emptyE conjE) (simp_all add: page_addr_def)
  ultimately show ?thesis using s1 by (auto simp: allocate_page_for_process_def)
qed

section \<open>Memory by frame and slot\<close>

definition slot :: "nat \<Rightarrow> u64 \<Rightarrow> u64" where
  "slot n i = KERNBASE + page_addr n + 8 * i"

lemma slot_inj:
  "n < 1000 \<Longrightarrow> m < 1000 \<Longrightarrow> i < 512 \<Longrightarrow> j < 512 \<Longrightarrow> slot n i = slot m j \<longleftrightarrow> n = m \<and> i = j"
  unfolding slot_def
  using slot_eq_iff [OF page_aligned_KERNBASE [OF page_addr_aligned [of n]] page_aligned_KERNBASE [OF page_addr_aligned [of m]], of i j]
  by (auto simp: page_addr_inj)

lemma slot_memset:
  assumes "n < 1000" "m < 1000" "i < 512"
  shows "kmem (memset_page (KERNBASE + page_addr m) s) (slot n i) = (if n = m then 0 else kmem s (slot n i))"
proof -
  have "(\<exists>j<512. slot n i = slot m j) \<longleftrightarrow> n = m" using assms slot_inj [OF assms(1,2,3)] by auto
  then show ?thesis by (simp add: kmem_memset_page slot_def)
qed

lemma slot_wr:
  "n < 1000 \<Longrightarrow> m < 1000 \<Longrightarrow> i < 512 \<Longrightarrow> j < 512 \<Longrightarrow>
     kmem (wr (KERNBASE + page_addr m) j v s) (slot n i) = (if n = m \<and> i = j then v else kmem s (slot n i))"
  using slot_inj [of n m i j] by (auto simp: slot_def)

lemma rd_slot: "rd s (KERNBASE + page_addr n) i = kmem s (slot n i)"
  by (simp add: rd_def slot_def)

lemma frames_slots: "frames_from n s \<longleftrightarrow> head s = Some n \<and>
     (\<forall>i\<ge>n. pagelist s i = \<lparr>fl_address = page_addr i, fl_free = 1, fl_ref_count = 0, fl_next = Some (i + 1)\<rparr>) \<and>
     pml4e s = KERNBASE + page_addr 20 \<and> kmem s (slot 20 511) = page_addr 21 OR 3 \<and>
     kmem s (slot 21 510) = page_addr 22 OR 3 \<and> kmem s (slot 22 0) = page_addr 23 OR 3"
  by (simp add: frames_from_def slot_def)

lemma frames_wr: "frames_from n s \<Longrightarrow> 23 \<le> m \<Longrightarrow> m < 1000 \<Longrightarrow> i < 512 \<Longrightarrow> frames_from n (wr (KERNBASE + page_addr m) i v s)"
  by (auto simp: frames_slots slot_wr simp del: kmem_wr)

lemma frames_memset: "frames_from n s \<Longrightarrow> 23 \<le> m \<Longrightarrow> m < 1000 \<Longrightarrow> frames_from n (memset_page (KERNBASE + page_addr m) s)"
  by (auto simp: frames_slots slot_memset)

section \<open>The stack page\<close>

text \<open>The four entries on the way to the stack page, from the root in frame 30 to the stack's frame 32.\<close>

definition stack_mapped :: "'a vmem_scheme \<Rightarrow> bool" where
  "stack_mapped s \<longleftrightarrow> kmem s (slot 30 32) = page_addr 33 OR 7 \<and> kmem s (slot 33 63) = page_addr 34 OR 7 \<and>
     kmem s (slot 34 511) = page_addr 35 OR 7 \<and> kmem s (slot 35 496) = page_addr 32 OR 7"

lemma entry_frame:
  "(page_addr n OR 7) AND PTE_MASK = page_addr n \<and> (page_addr n OR 7) AND 1 \<noteq> 0 \<and> page_addr n AND PTE_MASK = page_addr n"
proof -
  have "page_addr n AND PTE_MASK = page_addr n"
    using page_addr_aligned [of n] unfolding PTE_MASK_eq page_aligned_bit
    by (auto intro!: bit_word_eqI simp: bit_simps)
  then show ?thesis using entry_table [OF page_addr_aligned [of n]] entry_present [of "page_addr n"] by simp
qed

lemma stack_page_mapped:
  assumes f: "frames_from 33 s" and z: "kmem s (slot 30 32) = 0"
  shows "\<exists>s'. init_pages_for_process stack_base (page_addr 32) (KERNBASE + page_addr 30) s = Inr s' \<and> frames_from 36 s' \<and>
    stack_mapped s' \<and> cr3 s' = cr3 s"
proof -
  have idx: "tidx 39 stack_base = 32" "tidx 30 stack_base = 63" "tidx 21 stack_base = 511" "tidx 12 stack_base = 496"
    by (simp_all add: tidx_def)
  define s0 where "s0 = wr (KERNBASE + page_addr 30) 511 ((rd s (pml4e s) 511 AND PTE_MASK) OR 7) s"
  have f0: "frames_from 33 s0" "kmem s0 (slot 30 32) = 0" "cr3 s0 = cr3 s"
    using f z by (simp_all add: s0_def frames_wr slot_wr del: kmem_wr)
  obtain s1 where s1: "allocate_page s0 = Inr (page_addr 33, s1)" "frames_from 34 s1" "kmem s1 = kmem s0" "cr3 s1 = cr3 s0"
    using frames_alloc [OF f0(1)] by auto
  define s1' where "s1' = memset_page (KERNBASE + page_addr 33) (wr (KERNBASE + page_addr 30) 32 (page_addr 33 OR 7) s1)"
  have f1: "frames_from 34 s1'" using s1(2) by (simp add: s1'_def frames_memset frames_wr)
  obtain s2 where s2: "allocate_page s1' = Inr (page_addr 34, s2)" "frames_from 35 s2" "kmem s2 = kmem s1'" "cr3 s2 = cr3 s1'"
    using frames_alloc [OF f1] by auto
  define s2' where "s2' = memset_page (KERNBASE + page_addr 34) (wr (KERNBASE + page_addr 33) 63 (page_addr 34 OR 7) s2)"
  have f2: "frames_from 35 s2'" using s2(2) by (simp add: s2'_def frames_memset frames_wr)
  obtain s3 where s3: "allocate_page s2' = Inr (page_addr 35, s3)" "frames_from 36 s3" "kmem s3 = kmem s2'" "cr3 s3 = cr3 s2'"
    using frames_alloc [OF f2] by auto
  define s3' where "s3' = memset_page (KERNBASE + page_addr 35) (wr (KERNBASE + page_addr 34) 511 (page_addr 35 OR 7) s3)"
  define s4 where "s4 = wr (KERNBASE + page_addr 35) 496 (page_addr 32 OR 7) s3'"
  have "init_pages_for_process stack_base (page_addr 32) (KERNBASE + page_addr 30) s = Inr s4"
    using f0(2) unfolding init_pages_for_process_def idx Let_def s0_def [symmetric]
    by (simp add: rd_slot s1 s2 s3 entry_frame s1'_def [symmetric] s2'_def [symmetric] s3'_def [symmetric] s4_def)
  moreover have "frames_from 36 s4" using s3(2) by (simp add: s4_def s3'_def frames_memset frames_wr)
  moreover have "stack_mapped s4"
    by (simp add: stack_mapped_def s4_def s3'_def s3 s2'_def s2 s1'_def slot_wr slot_memset del: kmem_wr)
  moreover have "cr3 s4 = cr3 s" using f0 s1 s2 s3 by (simp add: s4_def s3'_def s2'_def s1'_def)
  ultimately show ?thesis by blast
qed

lemma stack_walk:
  assumes "stack_mapped s" "cr3 s = page_addr 30" "v AND PTE_MASK = stack_base"
  shows "walk (kmem s) (cr3 s + KERNBASE) v = Some (page_addr 32 OR 7)"
proof -
  have idx: "tidx 39 stack_base = 32" "tidx 30 stack_base = 63" "tidx 21 stack_base = 511" "tidx 12 stack_base = 496"
    by (simp_all add: tidx_def)
  have "walk (kmem s) (cr3 s + KERNBASE) v = walk (kmem s) (KERNBASE + page_addr 30) stack_base"
    using walk_page [of "kmem s" "KERNBASE + page_addr 30" v] assms(2,3) by (simp add: add.commute)
  also have "\<dots> = Some (page_addr 32 OR 7)"
    using assms(1) entry_frame unfolding walk_def vpath_def idx stack_mapped_def slot_def by simp
  finally show ?thesis .
qed

definition stack_ready :: "'a vmem_scheme \<Rightarrow> bool" where
  "stack_ready s \<longleftrightarrow> stack_mapped s \<and> cr3 s = page_addr 30"

lemma stack_ready_upd: "stack_ready s \<Longrightarrow> j < 512 \<Longrightarrow> stack_ready (s\<lparr>kmem := (kmem s)(slot 32 j := x)\<rparr>)"
  by (auto simp: stack_ready_def stack_mapped_def slot_inj)

lemma stack_store_byte:
  assumes "stack_ready s" "v AND PTE_MASK = stack_base" "(v AND 0xFFF) div 8 < 512"
    "(KERNBASE + page_addr 32 + (v AND 0xFFF)) AND NOT 7 = slot 32 ((v AND 0xFFF) div 8)"
  shows "\<exists>s'. store_byte v b s = Inr s' \<and> stack_ready s'"
proof -
  have "walk (kmem s) (cr3 s + KERNBASE) v = Some (page_addr 32 OR 7)"
    using assms(1,2) stack_walk unfolding stack_ready_def by blast
  then show ?thesis
    using stack_ready_upd [OF assms(1,3)] entry_frame [of 32] assms(4)
    by (simp add: store_byte_def touch_def frame_addr_def put_byte_def Let_def)
qed

lemma stack_store_quad:
  assumes "stack_ready s" "v AND PTE_MASK = stack_base" "(v AND 0xFFF) div 8 < 512"
    "KERNBASE + page_addr 32 + (v AND 0xFFF) = slot 32 ((v AND 0xFFF) div 8)"
  shows "\<exists>s'. store_quad v x s = Inr s' \<and> stack_ready s'"
proof -
  have "walk (kmem s) (cr3 s + KERNBASE) v = Some (page_addr 32 OR 7)"
    using assms(1,2) stack_walk unfolding stack_ready_def by blast
  then show ?thesis
    using stack_ready_upd [OF assms(1,3)] entry_frame [of 32] assms(4)
    by (simp add: store_quad_def touch_def frame_addr_def)
qed

lemma rfold_ok:
  assumes "\<And>i s. i \<in> set is \<Longrightarrow> P s \<Longrightarrow> \<exists>s'. f i s = Inr s' \<and> P s'" "P s"
  shows "\<exists>s'. rfold f is s = Inr s' \<and> P s'"
  using assms
proof (induction "is" arbitrary: s)
  case (Cons i "is")
  then obtain s1 where "f i s = Inr s1" "P s1" by (metis list.set_intros(1))
  then show ?case using Cons by simp
qed simp

lemma boot_stores:
  assumes "stack_ready s"
  shows "\<exists>s'. rfold do_store (fst (create_stack (stack_base + 510 * 8) ''bin/sbush'')) s = Inr s' \<and> stack_ready s'"
proof (rule rfold_ok [where P = stack_ready])
  fix u and s :: "'a terminal_scheme"
  assume u: "u \<in> set (fst (create_stack (stack_base + 510 * 8) ''bin/sbush''))" and s: "stack_ready s"
  let ?b = "0x100FFFFF0FA0 :: u64"
  have "u = Str ?b ''bin/sbush'' \<or> (\<exists>x. u = Quad (?b - 8) x) \<or> (\<exists>x. u = Quad (?b - 16) x) \<or>
    (\<exists>x. u = Quad (?b - 24) x) \<or> (\<exists>x. u = Quad (?b - 32) x)"
    using u by (auto simp: create_stack_def Let_def)
  then consider "u = Str ?b ''bin/sbush''" | x v where "u = Quad v x" "v \<in> {?b - 8, ?b - 16, ?b - 24, ?b - 32}" by blast
  then show "\<exists>s'. do_store u s = Inr s' \<and> stack_ready s'"
  proof cases
    case 1
    have "\<exists>s'. rfold (\<lambda>(i, c). store_byte (?b + of_nat i) (of_char c)) (enumerate 0 (''bin/sbush'' @ [CHR 0x00])) s = Inr s' \<and> stack_ready s'"
    proof (rule rfold_ok [where P = stack_ready, OF _ s])
      fix ic and s :: "'a terminal_scheme"
      assume ic: "ic \<in> set (enumerate 0 (''bin/sbush'' @ [CHR 0x00]))" and s: "stack_ready s"
      obtain i c where [simp]: "ic = (i, c)" by (cases ic)
      have "i < 10" using ic by (auto simp: enumerate_eq_zip set_zip)
      then have "i \<in> {0, 1, 2, 3, 4, 5, 6, 7, 8, 9}" by auto
      then have "\<exists>s'. store_byte (?b + of_nat i) (of_char c) s = Inr s' \<and> stack_ready s'"
        by (intro stack_store_byte [OF s]) (auto simp: slot_def page_addr_def)
      then show "\<exists>s'. (case ic of (i, c) \<Rightarrow> store_byte (?b + of_nat i) (of_char c)) s = Inr s' \<and> stack_ready s'" by simp
    qed
    then show ?thesis using 1 by (simp add: store_string_def)
  next
    case 2
    then have "\<exists>s'. store_quad v x s = Inr s' \<and> stack_ready s'"
      by (intro stack_store_quad [OF s]) (auto simp: slot_def page_addr_def)
    then show ?thesis using 2 by simp
  qed
qed (rule assms)

section \<open>The first program\<close>

text \<open>The state with the kernel's tasks in slots 0 and 1.\<close>

lemma boot_machine_sel [simp]:
  "q boot_machine = (\<lambda>_. blank_task)" "tar_img boot_machine = boot_img" "tar_len boot_machine = 1024"
  "headers boot_machine = [0]" "tar_base boot_machine = 0"
  by (simp_all add: boot_machine_def boot_kernel_def terminal.defs clocked.defs kernel.defs fskernel.defs)

lemma frames_boot: "frames_from 30 boot_machine" "kmem boot_machine (slot 30 32) = 0"
  by (simp_all add: frames_from_def boot_machine_def boot_kernel_def terminal.defs clocked.defs kernel.defs fskernel.defs
      page_addr_def slot_def)

text \<open>Starting the program on any state of the tables that has the memory and the archive of the boot machine.\<close>

lemma boot_create:
  fixes s :: fskernel
  assumes f: "frames_from 30 s" and tar: "tar_img s = boot_img" "tar_len s = 1024" "headers s = [0]" "tar_base s = 0"
    and pid: "newPID s = Some pid"
  shows "\<exists>rip rsp s'. create_process ''bin/sbush'' s = Inr (Enter rip rsp, s')"
proof -
  have "h_name s 0 = ''bin/sbush''"
    unfolding h_name_def by (rule str_atI) (auto simp: tar holds_def boot_img_def place_def nth_Cons')
  then have f_a: "get_file_address ''bin/sbush'' s + 512 = 512" by (simp add: get_file_address_def tar)
  define t1 where "t1 = (q s pid)\<lparr>t_name := ''bin/sbush'', t_curr_dir := ''/'', t_ppid := 0, t_pid := pid,
    t_vm := [], t_state := RUNNING\<rparr>"
  have "frames_from 30 (set_task pid t1 s)" using f by (simp add: frames_from_def set_task_def)
  then obtain s1 where s1: "allocate_page_for_process (set_task pid t1 s) = Inr (KERNBASE + page_addr 30, s1)" "frames_from 31 s1"
    using frames_kernel_page [of 30 "set_task pid t1 s"] by auto
  let ?m = "memset_page (KERNBASE + page_addr 30) s1"
  define s2 where "s2 = set_task pid ((q s1 pid)\<lparr>t_pml4e := page_addr 30, reg_rip := Addr (e_entry ?m 512)\<rparr>) ?m"
  have f2: "frames_from 31 s2" "kmem s2 (slot 30 32) = 0"
    using frames_memset [OF s1(2), of 30] by (simp_all add: s2_def frames_from_def set_task_def slot_memset)
  have "kernel.more s1 = kernel.more s" using more_kernel [OF more_allocate_page_for_process [OF s1(1)]] by simp
  then have "kernel.more s2 = kernel.more s" by (simp add: s2_def)
  then have "e_phnum s2 512 = e_phnum s 512" using file_same(4) by metis
  also have "\<dots> = 0"
  proof -
    have "file_byte s (512 + 56) = 0" "file_byte s (512 + 56 + 1) = 0"
      by (simp_all add: file_byte_def tar boot_img_def place_def)
    then show ?thesis by (simp add: e_phnum_def numeral_2_eq_2)
  qed
  finally have load: "load_segments pid (KERNBASE + page_addr 30) 512 s2 = Inr s2" by (simp add: load_segments_def)
  obtain s3 where s3: "allocate_page_for_process s2 = Inr (KERNBASE + page_addr 31, s3)" "frames_from 32 s3"
    "kmem s3 (slot 30 32) = 0"
    using frames_kernel_page [OF f2(1)] f2(2) slot_inj [of 30 23 32 31] by (auto simp: slot_def)
  let ?a = "add_area pid \<lparr>vm_node = KERNBASE + page_addr 31, vm_start = heap_base, vm_end = heap_base\<rparr> s3"
  have "frames_from 32 ?a" using s3(2) by (simp add: add_area_def frames_from_def set_task_def)
  then obtain s4 where s4: "allocate_page ?a = Inr (page_addr 32, s4)" "frames_from 33 s4" "kmem s4 = kmem ?a"
    using frames_alloc by fastforce
  have "kmem s4 (slot 30 32) = 0" using s3(3) s4(3) by (simp add: add_area_def)
  then obtain s5 where s5: "init_pages_for_process stack_base (page_addr 32) (KERNBASE + page_addr 30) s4 = Inr s5"
    "frames_from 36 s5" "stack_mapped s5"
    using stack_page_mapped [OF s4(2)] by blast
  let ?s5 = "set_task pid ((q s5 pid)\<lparr>t_ustack := stack_base, t_rsp := stack_base + 510 * 8\<rparr>) s5"
  have "frames_from 36 ?s5" using s5(2) by (simp add: frames_from_def set_task_def)
  then obtain s6 where s6: "allocate_page_for_process ?s5 = Inr (KERNBASE + page_addr 36, s6)"
    "kmem s6 = (kmem s5)(slot 23 36 := page_addr 36 OR 3)"
    using frames_kernel_page [of 36 ?s5] by (auto simp: slot_def)
  let ?s6 = "add_area pid \<lparr>vm_node = KERNBASE + page_addr 36, vm_start = stack_base, vm_end = stack_limit\<rparr> s6"
  have "add_heap_stack pid (KERNBASE + page_addr 30) s2 = Inr ?s6"
    using s6(1) by (simp add: add_heap_stack_def kmalloc_def s3 s4 s5)
  moreover have "stack_ready (?s6\<lparr>tss_rsp0 := pid, cr3 := page_addr 30\<rparr>)"
    using s5(3) by (simp add: stack_ready_def stack_mapped_def add_area_def s6 slot_inj)
  then obtain s7 where "rfold do_store (fst (create_stack (stack_base + 510 * 8) ''bin/sbush''))
      (?s6\<lparr>tss_rsp0 := pid, cr3 := page_addr 30\<rparr>) = Inr s7"
    using boot_stores by blast
  moreover have "t_rsp (q ?s6 pid) = stack_base + 510 * 8"
    using more_kernel [OF more_allocate_page_for_process [OF s6(1)]] by (simp add: add_area_def)
  ultimately show ?thesis
    by (simp add: create_process_def f_a with_slot_def pid t1_def [symmetric] s1 s2_def [symmetric] load Let_def case_prod_beta)
qed


text \<open>The boot machine behind \<^verbatim>\<open>init_proc\<close> and \<^verbatim>\<open>init_p\<close>, as far as slots go.\<close>

definition boot_ready :: fskernel where
  "boot_ready = boot_machine\<lparr>q := \<lambda>i. blank_task\<lparr>t_pid := i, t_state := (if i < 2 then RUNNING else READY)\<rparr>\<rparr>"

text \<open>
  C32. What \<open>create_process\<close> makes of a file: a missing file changes nothing but the console. A program that
  it starts is a new task in the first free slot, runnable, without a parent, in the root directory,
  current with its page tables and kernel stack; its memory areas are the stack, the empty heap and one
  area per loadable program header in their order, it is entered at the file's entry point with the
  stack pointer below the name and the argument block, and no other task has changed.
\<close>

theorem create_process_task:
  assumes run: "create_process fn s = Inr (res, s')"
  defines "f_a \<equiv> get_file_address fn s + 512"
  shows "if f_a < 512 then res = Return 0 \<and> q s' = q s \<and> r s' = r s \<and> kmem s' = kmem s
    else \<exists>pid. newPID s = Some pid \<and> r s' = pid \<and> tss_rsp0 s' = pid \<and> cr3 s' = t_pml4e (q s' pid) \<and>
      (\<exists>pml4 vs. q s' pid = (q s pid)\<lparr>t_name := fn, t_curr_dir := ''/'', t_ppid := 0, t_pid := pid, t_state := RUNNING,
         t_pml4e := pml4, t_vm := vs, t_ustack := stack_base, t_rsp := stack_base + 510 * 8 - 8 * of_nat (length fn + 5),
         reg_rip := Addr (e_entry s f_a)\<rparr>) \<and>
      areas pid s' = (stack_base, stack_limit) # (heap_base, heap_base) # seg_areas s f_a [1..<Suc (e_phnum s f_a)] \<and>
      res = Enter (e_entry s f_a) (t_rsp (q s' pid)) \<and> (\<forall>i. i \<noteq> pid \<longrightarrow> q s' i = q s i)"
  using create_process_effect [OF assms(1)] by (simp only: f_a_def)

theorem create_process_task_witness:
  "\<exists>rip rsp s'. create_process ''bin/sbush'' boot_ready = Inr (Enter rip rsp, s') \<and> r s' = 2 \<and> t_state (q s' 2) = RUNNING \<and>
     areas 2 s' = [(stack_base, stack_limit), (heap_base, heap_base)] @ seg_areas boot_ready 512 [1..<Suc (e_phnum boot_ready 512)]"
proof -
  have "newPID boot_ready = Some 2" by (auto simp: newPID_def find_upt boot_ready_def)
  moreover have "frames_from 30 boot_ready" using frames_boot(1) by (simp add: boot_ready_def frames_from_def)
  ultimately obtain rip rsp s' where run: "create_process ''bin/sbush'' boot_ready = Inr (Enter rip rsp, s')"
    using boot_create [of boot_ready 2] by (auto simp: boot_ready_def)
  have "h_name boot_ready 0 = ''bin/sbush''"
    unfolding h_name_def by (rule str_atI) (auto simp: boot_ready_def holds_def boot_img_def place_def nth_Cons')
  then have "get_file_address ''bin/sbush'' boot_ready + 512 = 512" by (simp add: get_file_address_def boot_ready_def)
  then show ?thesis
    using create_process_task [OF run] \<open>newPID boot_ready = Some 2\<close> run by auto
qed

end
