(* ===== verification/Kernel.thy ===== *)
theory Kernel
  imports Boot_Example Descriptors
begin

text \<open>
  The kernel as one machine: the system call handler \<^verbatim>\<open>isr128\<close> of \<^verbatim>\<open>sys/idt.c\<close>, the two
  kernel tasks and \<^verbatim>\<open>ps\<close> of \<^verbatim>\<open>sys/process.c\<close>, and a step relation over system calls,
  interrupts, page faults and the code a task goes on with after it gave up the processor. The strings
  and string vectors behind user pointers are given by the functions \<open>ustr\<close> and \<open>uvec\<close>; what the
  kernel stores at user pointers is part of the result.
\<close>

section \<open>System calls\<close>

record registers_t =
  r15 :: u64
  r14 :: u64
  r13 :: u64
  r12 :: u64
  r11 :: u64
  r10 :: u64
  r9 :: u64
  r8 :: u64
  rbp :: u64
  rdi :: u64
  rsi :: u64
  rdx :: u64
  rcx :: u64
  rbx :: u64

text \<open>
  Where a task is: in its program, at the top of a kernel task, behind a \<^verbatim>\<open>yield\<close>, or in the endless
  loop behind a segmentation fault.
\<close>

datatype kont = K_user | K_read u64 | K_waitpid int | K_sleep | K_exit | K_fork | K_timer kont | K_in | K_in_wait |
  K_idle | K_hang

text \<open>A system call returns a value, is continued later, or enters a new program.\<close>

datatype sysres = Ret u64 | Later kont | Exec u64 u64

type_synonym uwrites = "(u64 \<times> string) list"

abbreviation as_int :: "u64 \<Rightarrow> int" where
  "as_int w \<equiv> sint (ucast w :: u32)"

definition ps_line :: "'a terminal_scheme \<Rightarrow> nat \<Rightarrow> screen \<Rightarrow> screen res" where
  "ps_line s i v =
     (if t_state (q s i) \<in> {RUNNING, SLEEPING, WAIT, SUSPENDED} then
        rbind (kprintf ''%d  '' [VInt (int (t_pid (q s i)))] v) (\<lambda>v.
        rbind (kprintf ''%s  '' [VStr (t_name (q s i))] v) (kprintf [CHR 0x0A] []))
      else Inr v)"

definition ps :: "'a terminal_scheme \<Rightarrow> 'a terminal_scheme res" where
  "ps s = rbind (kprintf (''ID    Name'' @ [CHR 0x0A]) [] (scr s)) (\<lambda>v.
     rbind (rfold (ps_line s) [0..<MAX_q] v) (\<lambda>v. Inr (s\<lparr>scr := v\<rparr>)))"

text \<open>
  Behind the call of \<^verbatim>\<open>fork\<close>, in the parent and in the child. The last act of every call, the
  end-of-interrupt byte for port \<^verbatim>\<open>0x20\<close>, changes no kernel state and is not shown.
\<close>

definition fork_return :: "u64 \<Rightarrow> 'a kernel_scheme \<Rightarrow> u64 \<times> 'a kernel_scheme" where
  "fork_return ret s =
     (if t_kstack (cur s) 14 = 9999 then
        (0, set_task (r s) ((cur s)\<lparr>t_kstack := (t_kstack (cur s))(14 := 0)\<rparr>) s)
      else (ret, s))"

definition isr128 :: "(u64 \<Rightarrow> string) \<Rightarrow> (u64 \<Rightarrow> string list) \<Rightarrow> u64 \<Rightarrow> registers_t \<Rightarrow> 'a fskernel_scheme \<Rightarrow>
    (sysres \<times> uwrites \<times> 'a fskernel_scheme) res" where
  "isr128 ustr uvec cval y s =
     (if cval = 0 \<and> rbx y = 0 then
        rbind (read_input s) (\<lambda>(b, done, s). Inr (if done then Ret 0 else Later (K_read (rcx y)), [(rcx y, b)], s))
      else if cval = 1 \<and> rbx y = 1 then
        rbind (kprintf ''%s'' [VStr (ustr (rcx y))] (scr s)) (\<lambda>v. Inr (Ret 0, [], s\<lparr>scr := v\<rparr>))
      else if cval = 57 then
        rbind (fork s) (\<lambda>(pid, s). let (ret, s) = fork_return (of_nat pid) s in Inr (Ret ret, [], s))
      else if cval = 59 then
        rbind (execvpe (ustr (rbx y)) (uvec (rcx y)) (uvec (rdx y)) s) (\<lambda>(res, s).
        Inr (case res of Return n \<Rightarrow> Ret (word_of_int n) | Enter rip rsp \<Rightarrow> Exec rip rsp, [], s))
      else if cval = 0 then
        rbind (read_tarfs (as_int (rbx y)) (as_int (rdx y)) s) (\<lambda>(n, b). Inr (Ret (word_of_int n), [(rcx y, b)], s))
      else if cval = 2 then
        rbind (open_tarfs (ustr (rbx y)) (as_int (rcx y)) s) (\<lambda>(fd, s). Inr (Ret (word_of_int fd), [], s))
      else if cval = 3 then
        rbind (close_tarfs (as_int (rbx y)) s) (\<lambda>fd. Inr (Ret (word_of_int fd), [], s))
      else if cval = 16 then
        rbind (open_dir (ustr (rbx y)) s) (\<lambda>(fd, s). Inr (Ret (word_of_int fd), [], s))
      else if cval = 78 then
        rbind (readdir_tarfs (as_int (rbx y)) s) (\<lambda>(nm, s).
        Inr (case nm of None \<Rightarrow> (Ret 0, [], s) | Some b \<Rightarrow> (Ret 1, [(rcx y, b @ [CHR 0x00])], s)))
      else if cval = 60 then
        rbind (exit s) (\<lambda>s. Inr (Later K_exit, [], s))
      else if cval = 247 then
        rbind (waitpid_enter (as_int (rbx y)) s) (\<lambda>(c, s).
        Inr (case c of Some i \<Rightarrow> Ret (of_nat i) | None \<Rightarrow> Later (K_waitpid (as_int (rbx y))), [], s))
      else if cval = 39 then Inr (Ret (of_nat (getpid s)), [], s)
      else if cval = 110 then Inr (Ret (of_nat (getppid s)), [], s)
      else if cval = 7 then Inr (Ret 0, [], s\<lparr>scr := clrscr (scr s)\<rparr>)
      else if cval = 62 then
        rbind (kill (as_int (rbx y)) s) (\<lambda>s. Inr (Ret 1, [], s))
      else if cval = 35 then
        rbind (sleep (ucast (rbx y)) s) (\<lambda>s. Inr (if (ucast (rbx y) :: u32) = 0 then Ret 0 else Later K_sleep, [], s))
      else if cval = 79 then
        rbind (getcwd s) (\<lambda>b. Inr (Ret 0, [(rbx y, b @ [CHR 0x00])], s))
      else if cval = 80 then
        rbind (chdir (ustr (rbx y)) s) (\<lambda>(n, s). Inr (Ret (word_of_int n), [], s))
      else if cval = 299 then
        rbind (ps s) (\<lambda>s. Inr (Ret 0, [], s))
      else if cval = 9 then
        rbind (malloc (as_int (rbx y)) s) (\<lambda>(a, s). Inr (Ret a, [], s))
      else Inr (Ret 0, [], s))"

section \<open>The machine\<close>

text \<open>
  The kernel state and what every task goes on with. A step of the running task: a system call or a fault
  of its program, the rest of an interrupted call, or a round of a kernel task.
\<close>

type_synonym machine = "fskernel \<times> (nat \<Rightarrow> kont)"

definition after :: "sysres \<Rightarrow> kont" where
  "after res = (case res of Later k \<Rightarrow> k | _ \<Rightarrow> K_user)"

text \<open>A new task that \<^verbatim>\<open>fork\<close> made starts behind the call.\<close>

definition fork_kont :: "u64 \<Rightarrow> fskernel \<Rightarrow> (nat \<Rightarrow> kont) \<Rightarrow> (nat \<Rightarrow> kont)" where
  "fork_kont cval s ks = (if cval = 57 then (case newPID s of Some i \<Rightarrow> ks(i := K_fork) | None \<Rightarrow> ks) else ks)"

inductive kstep :: "machine \<Rightarrow> machine \<Rightarrow> bool" where
  syscall: "ks (r s) = K_user \<Longrightarrow> isr128 ustr uvec cval y s = Inr (res, out, s') \<Longrightarrow>
     kstep (s, ks) (s', (fork_kont cval s ks)(r s := after res))"
| page_fault: "ks (r s) = K_user \<Longrightarrow> isr14 bb s = Inr s' \<Longrightarrow>
     kstep (s, ks) (s', ks(r s := (if q s' = q s then K_user else K_hang)))"
| exception: "ks (r s) = K_user \<Longrightarrow> n \<noteq> 14 \<Longrightarrow> exception n cr2 s = Inr (s', out) \<Longrightarrow> kstep (s, ks) (s', ks)"
| keyboard: "ks (r s) \<in> {K_user, K_idle} \<Longrightarrow> write_terminal p1 p2 s = Inr s' \<Longrightarrow> kstep (s, ks) (s', ks)"
| tick: "ks (r s) \<in> {K_user, K_idle} \<Longrightarrow> timer_tick s = Inr (Returned, s') \<Longrightarrow> kstep (s, ks) (s', ks)"
| preempt: "ks (r s) = k \<Longrightarrow> k \<in> {K_user, K_idle} \<Longrightarrow> timer_tick s = Inr (Preempted, s') \<Longrightarrow>
     kstep (s, ks) (s', ks(r s := K_timer k))"
| timer_rest: "ks (r s) = K_timer k \<Longrightarrow> timer_resume s = Inr s' \<Longrightarrow> kstep (s, ks) (s', ks(r s := k))"
| read_again: "ks (r s) = K_read a \<Longrightarrow> read_input s = Inr (b, done, s') \<Longrightarrow>
     kstep (s, ks) (s', ks(r s := (if done then K_user else K_read a)))"
| waitpid_again: "ks (r s) = K_waitpid i \<Longrightarrow> waitpid_resume i s = Inr (c, s') \<Longrightarrow>
     kstep (s, ks) (s', ks(r s := (if c = None then K_waitpid i else K_user)))"
| return_late: "ks (r s) \<in> {K_sleep, K_exit} \<Longrightarrow> kstep (s, ks) (s, ks(r s := K_user))"
| fork_child: "ks (r s) = K_fork \<Longrightarrow> fork_return ret s = (ret', s') \<Longrightarrow> kstep (s, ks) (s', ks(r s := K_user))"
| init_wait: "ks (r s) = K_in \<Longrightarrow> wait_enter s = Inr (c, s') \<Longrightarrow>
     kstep (s, ks) (s', ks(r s := (if c = None then K_in_wait else K_in)))"
| init_again: "ks (r s) = K_in_wait \<Longrightarrow> wait_resume s = Inr (c, s') \<Longrightarrow>
     kstep (s, ks) (s', ks(r s := (if c = None then K_in_wait else K_in)))"
| idle_round: "ks (r s) = K_idle \<Longrightarrow> yield s = Inr s' \<Longrightarrow> kstep (s, ks) (s', ks)"

inductive_cases kstepE: "kstep (s, ks) (s', ks')"

text \<open>The state after \<^verbatim>\<open>start\<close> has run: process tables, the kernel tasks and the first program.\<close>

definition blank_table :: "'a kernel_scheme \<Rightarrow> bool" where
  "blank_table s \<longleftrightarrow> (\<forall>i<MAX_q. t_ppid (q s i) = 0 \<and> t_pid (q s i) = 0)"

definition boot_procs :: "'a fskernel_scheme \<Rightarrow> (exec_result \<times> 'a fskernel_scheme) res" where
  "boot_procs s = rbind (init_p (init_proc s)) (create_process ''bin/sbush'')"

inductive booted :: "machine \<Rightarrow> bool" where
  "blank_table s0 \<Longrightarrow> boot_procs s0 = Inr (Enter rip rsp, s) \<Longrightarrow> booted (s, (\<lambda>_. K_user)(0 := K_in, 1 := K_idle))"

section \<open>The invariant\<close>

text \<open>
  The process table invariant, and: the running task's slot and slot 0 are in use, a running task 0 is
  not dead, and task 0 alone is its own parent.
\<close>

definition kinv :: "'a kernel_scheme \<Rightarrow> bool" where
  "kinv s \<longleftrightarrow> proc_inv s \<and> t_state (cur s) \<noteq> READY \<and> t_state (q s 0) \<noteq> READY \<and>
     (r s = 0 \<longrightarrow> t_state (cur s) \<noteq> ZOMBIE) \<and> t_ppid (q s 0) = 0 \<and> (\<forall>i<MAX_q. i \<noteq> 0 \<longrightarrow> t_ppid (q s i) \<noteq> i)"

lemma kinv_proc: "kinv s \<Longrightarrow> proc_inv s" by (simp add: kinv_def)

text \<open>An operation that keeps the running task, pids and parents, and kills and revives nobody.\<close>

definition calm :: "'a kernel_scheme \<Rightarrow> 'a kernel_scheme \<Rightarrow> bool" where
  "calm s s' \<longleftrightarrow> r s' = r s \<and> (\<forall>i. t_pid (q s' i) = t_pid (q s i) \<and> t_ppid (q s' i) = t_ppid (q s i) \<and>
     (t_state (q s' i) = t_state (q s i) \<or> live (q s' i) \<and> live (q s i)))"

lemma calm_refl: "calm s s" by (simp add: calm_def)

lemma calm_trans: "calm s s1 \<Longrightarrow> calm s1 s2 \<Longrightarrow> calm s s2"
  by (auto simp: calm_def live_def) metis+

lemma calm_tasks: "q s' = q s \<Longrightarrow> r s' = r s \<Longrightarrow> calm s s'" by (simp add: calm_def)

lemma calm_more: "vmem.more s' = vmem.more s \<Longrightarrow> calm s s'"
  by (drule more_kernel) (simp add: calm_tasks)

lemma calm_set_task:
  "t_pid t = t_pid (q s i) \<Longrightarrow> t_ppid t = t_ppid (q s i) \<Longrightarrow> t_state t = t_state (q s i) \<or> live t \<and> live (q s i) \<Longrightarrow>
     calm s (set_task i t s)"
  by (simp add: calm_def)

lemma kinv_calm:
  assumes "kinv s" "calm s s'"
  shows "kinv s'"
proof -
  have st: "t_state (q s' i) = X \<longleftrightarrow> t_state (q s i) = X" if "X = READY \<or> X = ZOMBIE" for i X
    using assms(2) that by (auto simp: calm_def live_def) metis+
  then have "live (q s' i) = live (q s i)" for i by (simp add: live_def)
  then show ?thesis using assms st by (simp add: kinv_def proc_inv_def cur_ok_def calm_def)
qed

text \<open>Giving up the processor: the next task is runnable, or the same one goes on.\<close>

lemma kinv_yield:
  assumes inv: "proc_inv s" and y: "yield s = Inr s'"
    and k: "t_state (cur s) \<noteq> READY" "t_state (q s 0) \<noteq> READY" "r s = 0 \<Longrightarrow> t_state (cur s) \<noteq> ZOMBIE"
      "t_ppid (q s 0) = 0" "\<forall>i<MAX_q. i \<noteq> 0 \<longrightarrow> t_ppid (q s i) \<noteq> i"
  shows "kinv s'"
proof -
  have ok: "cur_ok s" using proc_inv_cur [OF inv] by simp
  note fr = yield_task_frame [OF ok y]
  have "r s' = r s \<or> t_state (q s (r s')) = RUNNING"
  proof (cases "r s' = r s")
    case False
    then have "runnable s (r s')"
      using rr.pick_run [of "r s" MAX_q "runnable s"] yield_r [OF ok y] ok by (auto simp: cur_ok_def)
    then show ?thesis by (simp add: runnable_def)
  qed simp
  then show ?thesis using proc_inv_yield [OF inv y] k by (auto simp: kinv_def fr)
qed

lemma kinv_yield_calm:
  assumes "kinv s" "calm s s1" "yield s1 = Inr s'"
  shows "kinv s'"
proof -
  have "kinv s1" using kinv_calm assms(1,2) by blast
  then show ?thesis using assms(3) by (intro kinv_yield) (auto simp: kinv_def)
qed

text \<open>Releasing a dead child: never the running task itself, and never task 0.\<close>

lemma kinv_reap:
  assumes k: "kinv s" and rp: "reap i s = Inr s'" and z: "zombie_child s i" "i < MAX_q"
  shows "kinv s'"
proof -
  have r: "t_pid (cur s) = r s" "r s < MAX_q" using proc_inv_cur [OF kinv_proc [OF k]] by auto
  have "i \<noteq> r s"
  proof
    assume "i = r s"
    then have "t_ppid (cur s) = r s" "t_state (cur s) = ZOMBIE" using z(1) r by (auto simp: zombie_child_def)
    then show False using k r by (cases "r s = 0") (auto simp: kinv_def)
  qed
  moreover have "i \<noteq> 0"
  proof
    assume "i = 0"
    then have "r s = 0" using z(1) r k by (simp add: zombie_child_def kinv_def)
    with \<open>i = 0\<close> \<open>i \<noteq> r s\<close> show False by simp
  qed
  ultimately show ?thesis
    using k reap_tasks [OF rp] proc_inv_reap [OF kinv_proc [OF k] rp] by (auto simp: kinv_def)
qed

lemma kinv_mark:
  assumes k: "kinv s" and t: "t_pid t = t_pid (cur s)" "t_ppid t = t_ppid (cur s)" "live t"
  shows "kinv (set_task (r s) t s)"
proof -
  have r: "proc_inv s" "t_pid (cur s) = r s" "r s < MAX_q" "t_ppid (cur s) < MAX_q"
    using kinv_proc [OF k] proc_inv_cur by auto
  have "proc_inv (set_task (r s) t s)"
    using t r by (intro proc_inv_tasks [OF \<open>proc_inv s\<close>]) (auto simp: proc_inv_def)
  then show ?thesis using k t by (simp add: kinv_def live_def)
qed

lemma kinv_mark_yield:
  assumes "kinv s" "yield (set_task (r s) t s) = Inr s'" "t_pid t = t_pid (cur s)" "t_ppid t = t_ppid (cur s)" "live t"
  shows "kinv s'"
  using kinv_yield_calm [OF kinv_mark calm_refl] assms by blast

lemma kinv_wait_enter: "kinv s \<Longrightarrow> wait_enter s = Inr (w, s') \<Longrightarrow> kinv s'"
  by (auto simp: wait_enter_def res_simps live_def split: option.splits
      dest: wait_scan_Some [OF sym] intro: kinv_reap kinv_mark_yield)

lemma kinv_wait_resume: "kinv s \<Longrightarrow> wait_resume s = Inr (w, s') \<Longrightarrow> kinv s'"
  by (auto simp: wait_resume_def res_simps split: option.splits
      dest: wait_scan_Some [OF sym] intro: kinv_reap kinv_wait_enter)

lemma kinv_waitpid_enter: "kinv s \<Longrightarrow> waitpid_enter i s = Inr (w, s') \<Longrightarrow> kinv s'"
  by (auto simp: waitpid_enter_def res_simps live_def in_q_def nat_less_iff split: if_splits intro: kinv_reap kinv_mark_yield)

lemma kinv_waitpid_resume: "kinv s \<Longrightarrow> waitpid_resume i s = Inr (w, s') \<Longrightarrow> kinv s'"
  by (auto simp: waitpid_resume_def res_simps in_q_def nat_less_iff split: if_splits
      intro: kinv_reap kinv_yield_calm [OF _ calm_refl])

lemma kinv_sleep: "kinv s \<Longrightarrow> sleep n s = Inr s' \<Longrightarrow> kinv s'"
  by (auto simp: sleep_def live_def split: if_splits intro: kinv_mark_yield)

lemma read_line_tasks:
  "read_line i s = (b, d, s') \<Longrightarrow> r s' = r s \<and> (q s' = q s \<or> q s' = (q s)(r s := (cur s)\<lparr>t_state := RUNNING\<rparr>))"
proof (induction i s arbitrary: b d s' rule: read_line.induct)
  case (1 i s)
  show ?case
  proof (cases "i < n_buf \<and> buf s i \<noteq> CHR 0x0A")
    case True
    then show ?thesis using 1 by (subst (asm) (2) read_line.simps) (auto split: prod.splits)
  next
    case False
    then show ?thesis using "1.prems" by (subst (asm) read_line.simps) (auto split: if_splits)
  qed
qed

lemma kinv_read_line:
  assumes "kinv s" "read_line i s = (b, d, s')"
  shows "kinv s'"
proof -
  let ?s = "set_task (r s) ((cur s)\<lparr>t_state := RUNNING\<rparr>) s"
  have "kinv ?s" by (rule kinv_mark [OF assms(1)]) (simp_all add: live_def)
  moreover have "calm s s' \<or> calm ?s s'"
    using read_line_tasks [OF assms(2)] by (auto intro: calm_tasks)
  ultimately show ?thesis using kinv_calm assms(1) by blast
qed

lemma kinv_read_input: "kinv s \<Longrightarrow> read_input s = Inr (b, d, s') \<Longrightarrow> kinv s'"
  by (auto simp: read_input_def res_simps live_def split: if_splits prod.splits
      intro: kinv_read_line kinv_mark_yield kinv_yield_calm [OF kinv_read_line calm_refl])

lemma kinv_fork:
  assumes k: "kinv s" and f: "fork s = Inr (pid, s')"
  shows "kinv s' \<and> pid \<noteq> 0 \<and> pid \<noteq> r s \<and> newPID s = Some pid"
proof -
  have st: "t_state (cur s) \<noteq> READY" using k by (simp add: kinv_def)
  note ft = fork_tasks [OF f st]
  have "t_state (q s pid) = READY" "t_state (q s 0) \<noteq> READY" using ft newPID_Some [of s pid] k by (simp_all add: kinv_def)
  then have "pid \<noteq> 0" by metis
  moreover have child: "t_ppid (q s' pid) = r s" "t_state (q s' pid) = RUNNING" "pid \<noteq> r s" "r s' = r s" "newPID s = Some pid"
    using ft proc_inv_cur [OF kinv_proc [OF k]] by auto
  moreover have other: "t_ppid (q s' i) = t_ppid (q s i)" "t_state (q s' i) = t_state (q s i)" if "i \<noteq> pid" for i
    using ft that by (cases "i = r s"; auto)+
  moreover have "t_ppid (q s' i) \<noteq> i" if "i < MAX_q" "i \<noteq> 0" for i
    using k that child other [of i] by (cases "i = pid") (auto simp: kinv_def)
  ultimately show ?thesis using k proc_inv_fork [OF kinv_proc [OF k] f st] by (simp add: kinv_def)
qed

lemma kinv_dead:
  assumes k: "kinv s" and i: "i < MAX_q" and r: "r s \<noteq> 0"
    and w: "wake_parent j (reparent p (set_task i ((q s i)\<lparr>t_state := ZOMBIE\<rparr>) s)) = Inr s'" "j < MAX_q"
  shows "kinv s'"
proof -
  let ?s = "reparent p (set_task i ((q s i)\<lparr>t_state := ZOMBIE\<rparr>) s)"
  have "proc_inv ?s" by (rule proc_inv_kill_task [OF kinv_proc [OF k] i])
  then have "kinv ?s" using k r by (auto simp: kinv_def)
  moreover have "calm ?s s'" using w(1) by (auto simp: wake_parent_def Let_def live_def intro: calm_refl calm_set_task split: if_splits)
  ultimately show ?thesis by (rule kinv_calm)
qed

lemma kinv_kill: "kinv s \<Longrightarrow> r s \<noteq> 0 \<Longrightarrow> kill i s = Inr s' \<Longrightarrow> kinv s'"
  using kinv_dead [of s "nat i" "nat i" "nat i" s'] by (simp add: kill_def Let_def in_q_def nat_less_iff split: if_splits)

lemma kinv_exit:
  assumes "kinv s" "r s \<noteq> 0" "exit s = Inr s'"
  shows "kinv s'"
proof -
  from assms(3) obtain s1 where s1: "exit_prepare s = Inr s1" "yield s1 = Inr s'" by (auto simp: exit_def res_simps)
  have "r s < MAX_q" using proc_inv_cur [OF kinv_proc [OF assms(1)]] by simp
  then have "kinv s1"
    using s1(1) assms(1,2) by (auto simp: exit_prepare_def Let_def intro: kinv_dead)
  then show ?thesis using s1(2) kinv_yield_calm [OF _ calm_refl] by blast
qed

section \<open>Operations that keep the process table calm\<close>

lemma calm_write_terminal: "write_terminal p1 p2 s = Inr s' \<Longrightarrow> calm s s'"
  by (auto simp: write_terminal_def put_key_def wake_process_def Let_def res_simps live_def find_Some_iff
      split: if_splits option.splits intro!: calm_tasks simp: calm_def)

lemma calm_wake_sleeper:
  "t_pid (wake_sleeper t) = t_pid t" "t_ppid (wake_sleeper t) = t_ppid t"
  "t_state (wake_sleeper t) \<noteq> t_state t \<Longrightarrow> live (wake_sleeper t) \<and> live t"
  by (auto simp: wake_sleeper_def Let_def live_def split: if_splits)

lemma calm_timer_resume: "timer_resume s = Inr s' \<Longrightarrow> calm s s'"
  by (auto simp: timer_resume_def Let_def calm_def calm_wake_sleeper(1,2) split: if_splits dest: calm_wake_sleeper(3))

lemma kinv_timer_tick: "kinv s \<Longrightarrow> timer_tick s = Inr (k, s') \<Longrightarrow> kinv s'"
  using kinv_yield_calm [of s "s\<lparr>count := count s + 1\<rparr>" s'] kinv_calm [of s "s\<lparr>count := count s + 1\<rparr>"]
  by (auto simp: timer_tick_def Let_def res_simps calm_def split: if_splits)

lemma kinv_segfault: "kinv s \<Longrightarrow> r s \<noteq> 0 \<Longrightarrow> segfault bb s = Inr s' \<Longrightarrow> kinv s'"
  unfolding segfault_def res_simps
  by (elim exE conjE) (rule kinv_exit, rule kinv_calm, assumption, auto intro: calm_tasks)

lemma kinv_isr14: "kinv s \<Longrightarrow> r s \<noteq> 0 \<Longrightarrow> isr14 bb s = Inr s' \<Longrightarrow> kinv s'"
  by (auto simp: isr14_def Let_def split: list.splits if_splits
      intro: kinv_segfault kinv_calm calm_more [OF more_cow_fault] calm_more [OF more_stack_fault])

lemma calm_exception: "n \<noteq> 14 \<Longrightarrow> exception n cr2 s = Inr (s', out) \<Longrightarrow> calm s s'"
  by (auto simp: exception_def isr0_12_def isr13_def isr15_31_def print_exception_def res_simps
      split: if_splits intro: calm_tasks)

lemma calm_fork_return: "fork_return ret s = (ret', s') \<Longrightarrow> calm s s'"
  by (auto simp: fork_return_def split: if_splits intro: calm_refl calm_set_task)

lemma calm_set_fd: "calm s (set_fd i f s)"
  by (simp add: set_fd_def calm_set_task)

lemma calm_new_fd: "new_fd s = Inr (i, s') \<Longrightarrow> calm s s'"
  by (auto simp: new_fd_def Let_def split: if_splits intro: calm_set_task)

lemma calm_open_dir: "open_dir p s = Inr (fd, s') \<Longrightarrow> calm s s'"
  by (auto simp: open_dir_def Let_def res_simps split: if_splits option.splits
      intro: calm_refl calm_trans [OF calm_new_fd calm_set_fd])

lemma calm_open_tarfs: "open_tarfs p fl s = Inr (fd, s') \<Longrightarrow> calm s s'"
  by (auto simp: open_tarfs_def Let_def res_simps split: if_splits option.splits
      intro: calm_refl calm_trans [OF calm_new_fd calm_set_fd])

lemma calm_readdir: "readdir_tarfs fd s = Inr (nm, s') \<Longrightarrow> calm s s'"
  by (auto simp: readdir_tarfs_def Let_def split: if_splits prod.splits intro: calm_set_fd)

lemma calm_chdir: "chdir p s = Inr (n, s') \<Longrightarrow> calm s s'"
  by (auto simp: chdir_def Let_def res_simps split: if_splits option.splits intro: calm_refl calm_set_task)

lemma calm_malloc: "malloc n s = Inr (a, s') \<Longrightarrow> calm s s'"
  by (auto simp: malloc_def Let_def res_simps calm_def split: if_splits dest!: more_malloc_pages_tasks)

lemma calm_execvpe: "execvpe p argv env s = Inr (res, s') \<Longrightarrow> calm s s'"
proof -
  assume "execvpe p argv env s = Inr (res, s')"
  from execvpe_effect [OF this] have "r s' = r s" "\<And>i. i \<noteq> r s \<Longrightarrow> q s' i = q s i"
    "t_pid (cur s') = t_pid (cur s) \<and> t_ppid (cur s') = t_ppid (cur s) \<and> t_state (cur s') = t_state (cur s)"
    by auto
  then show "calm s s'" unfolding calm_def by metis
qed

lemma calm_ps: "ps s = Inr s' \<Longrightarrow> calm s s'"
  by (auto simp: ps_def res_simps intro: calm_tasks)

text \<open>
  C30. \<open>fork\<close> returns twice. The system call gives the parent the slot of the child, which is not 0; when
  the child is first switched to, behind the same call and with the kernel stack \<open>fork\<close> made for it, the
  call gives it 0 and clears the marker, so that a \<open>fork\<close> of its own is not taken for its birth.
\<close>

theorem fork_returns_twice:
  assumes "kinv s" "fork s = Inr (pid, s1)" "t_kstack (cur s) 14 \<noteq> 9999"
  shows "0 < pid \<and> pid < MAX_q \<and> fork_return (of_nat pid) s1 = (of_nat pid, s1) \<and>
    (\<forall>ret s2. r s2 = pid \<and> t_kstack (cur s2) = t_kstack (q s1 pid) \<longrightarrow>
       (\<exists>s3. fork_return ret s2 = (0, s3) \<and> r s3 = pid \<and> t_kstack (cur s3) = (t_kstack (cur s))(14 := 0) \<and>
         (\<forall>ret'. fork_return ret' s3 = (ret', s3))))"
proof -
  have st: "t_state (cur s) \<noteq> READY" using assms(1) by (simp add: kinv_def)
  note ft = fork_tasks [OF assms(2) st]
  have "0 < pid" using kinv_fork [OF assms(1,2)] by simp
  then show ?thesis using ft newPID_Some [of s pid] assms(3) by (auto simp: fork_return_def)
qed

theorem fork_returns_twice_witness:
  "\<exists>pid s1. fork example_procs = Inr (pid, s1) \<and> 0 < pid \<and> fst (fork_return (of_nat pid) s1) = of_nat pid \<and>
     fst (fork_return (of_nat pid) (s1\<lparr>r := pid\<rparr>)) = 0"
proof -
  obtain pid s1 where f: "fork example_procs = Inr (pid, s1)" using example_fork by blast
  have "kinv example_procs" using example_procs_inv by (auto simp: kinv_def example_procs_tasks)
  moreover have "t_kstack (cur example_procs) 14 \<noteq> 9999" by (simp add: example_procs_def blank_task_def)
  ultimately have *: "0 < pid" "fork_return (of_nat pid) s1 = (of_nat pid, s1)"
    "\<And>ret s2. r s2 = pid \<and> t_kstack (cur s2) = t_kstack (q s1 pid) \<Longrightarrow> \<exists>s3. fork_return ret s2 = (0, s3)"
    using fork_returns_twice [OF _ f] by blast+
  from *(3) [of "s1\<lparr>r := pid\<rparr>" "of_nat pid"] have "fst (fork_return (of_nat pid) (s1\<lparr>r := pid\<rparr>)) = 0" by auto
  then show ?thesis using f *(1,2) by auto
qed

section \<open>The invariant of the machine\<close>

lemma if_resE:
  "(if c then m else m') = Inr z \<Longrightarrow> (c \<Longrightarrow> m = Inr z \<Longrightarrow> P) \<Longrightarrow> (\<not> c \<Longrightarrow> m' = Inr z \<Longrightarrow> P) \<Longrightarrow> P"
  by (cases c) auto

lemma kinv_isr128:
  assumes k: "kinv s" and r: "r s \<noteq> 0" and run: "isr128 ustr uvec cval y s = Inr (res, out, s')"
  shows "kinv s'"
proof -
  note calm = kinv_calm [OF k calm_tasks] kinv_calm [OF k calm_execvpe] kinv_calm [OF k calm_open_tarfs]
    kinv_calm [OF k calm_open_dir] kinv_calm [OF k calm_readdir] kinv_calm [OF k calm_chdir]
    kinv_calm [OF k calm_ps] kinv_calm [OF k calm_malloc]
  show ?thesis
  using run unfolding isr128_def
proof (elim if_resE)
  assume "rbind (fork s) (\<lambda>(pid, s). let (ret, s) = fork_return (of_nat pid) s in Inr (Ret ret, [], s)) = Inr (res, out, s')"
  then obtain pid s1 where s1: "fork s = Inr (pid, s1)" "fork_return (of_nat pid) s1 = (fst (fork_return (of_nat pid) s1), s')"
    by (auto simp: res_simps Let_def case_prod_beta)
  show ?thesis using kinv_calm calm_fork_return [OF s1(2)] kinv_fork [OF k s1(1)] by blast
qed (auto simp: res_simps split: option.splits intro: k calm kinv_read_input [OF k] kinv_exit [OF k r] kinv_kill [OF k r]
      kinv_sleep [OF k] kinv_waitpid_enter [OF k])

qed

definition minv :: "machine \<Rightarrow> bool" where
  "minv m \<longleftrightarrow> kinv (fst m) \<and> snd m 0 \<in> {K_in, K_in_wait}"

lemma fork_kont_0: "kinv s \<Longrightarrow> fork_kont cval s ks 0 = ks 0"
proof -
  assume "kinv s"
  then have "newPID s \<noteq> Some 0" using newPID_Some [of s 0] by (auto simp: kinv_def)
  then show ?thesis by (auto simp: fork_kont_def split: option.splits)
qed

lemma minv_user: "minv (s, ks) \<Longrightarrow> ks (r s) \<notin> {K_in, K_in_wait} \<Longrightarrow> kinv s \<and> r s \<noteq> 0"
  by (cases "r s = 0") (auto simp: minv_def)

lemma minv_step:
  assumes "minv m" "kstep m m'"
  shows "minv m'"
  using assms(2,1)
proof (induction rule: kstep.induct)
  case (syscall ks s ustr uvec cval y res out s')
  then have "kinv s" "r s \<noteq> 0" using minv_user [of s ks] by auto
  then show ?case using syscall kinv_isr128 fork_kont_0 [of s] by (auto simp: minv_def)
next
  case (page_fault ks s bb s')
  then have "kinv s" "r s \<noteq> 0" using minv_user [of s ks] by auto
  then show ?case using page_fault kinv_isr14 by (auto simp: minv_def)
next
  case (exception ks s n cr2 s' out)
  then show ?case by (auto simp: minv_def intro: kinv_calm calm_exception)
next
  case (keyboard ks s p1 p2 s')
  then show ?case by (auto simp: minv_def intro: kinv_calm calm_write_terminal)
next
  case (tick ks s s')
  then show ?case by (auto simp: minv_def intro: kinv_timer_tick)
next
  case (preempt ks s k s')
  then have "r s \<noteq> 0" using minv_user [of s ks] by auto
  then show ?case using preempt by (auto simp: minv_def intro: kinv_timer_tick)
next
  case (timer_rest ks s k s')
  then have "r s \<noteq> 0" using minv_user [of s ks] by auto
  then show ?case using timer_rest by (auto simp: minv_def intro: kinv_calm calm_timer_resume)
next
  case (read_again ks s a b d s')
  then have "r s \<noteq> 0" using minv_user [of s ks] by auto
  then show ?case using read_again by (auto simp: minv_def intro: kinv_read_input)
next
  case (waitpid_again ks s i c s')
  then have "r s \<noteq> 0" using minv_user [of s ks] by auto
  then show ?case using waitpid_again by (auto simp: minv_def intro: kinv_waitpid_resume)
next
  case (return_late ks s)
  then have "r s \<noteq> 0" using minv_user [of s ks] by auto
  then show ?case using return_late by (auto simp: minv_def)
next
  case (fork_child ks s ret ret' s')
  then have "r s \<noteq> 0" using minv_user [of s ks] by auto
  then show ?case using fork_child by (auto simp: minv_def intro: kinv_calm calm_fork_return)
next
  case (init_wait ks s c s')
  then show ?case by (auto simp: minv_def intro: kinv_wait_enter)
next
  case (init_again ks s c s')
  then show ?case by (auto simp: minv_def intro: kinv_wait_resume)
next
  case (idle_round ks s s')
  then show ?case by (auto simp: minv_def intro: kinv_yield_calm [OF _ calm_refl])
qed

lemma init_proc_tasks:
  "q (init_proc s) i = (if i < MAX_q then (q s i)\<lparr>t_state := READY, t_fd_c := 0, t_time := 0\<rparr> else q s i)"
  "kernel.more (init_proc s) = kernel.more s"
proof -
  let ?f = "\<lambda>i s. set_task i ((q s i)\<lparr>t_state := READY, t_fd_c := 0, t_time := 0\<rparr>) s"
  have "q (fold ?f [0..<n] s) i = (if i < n then (q s i)\<lparr>t_state := READY, t_fd_c := 0, t_time := 0\<rparr> else q s i) \<and>
    kernel.more (fold ?f [0..<n] s) = kernel.more s" for n
    by (induction n) (auto simp: less_Suc_eq)
  from this [of MAX_q] show "q (init_proc s) i = (if i < MAX_q then (q s i)\<lparr>t_state := READY, t_fd_c := 0, t_time := 0\<rparr> else q s i)"
    "kernel.more (init_proc s) = kernel.more s"
    by (simp_all only: init_proc_def)
qed

lemma boot_kernel_tasks:
  assumes "blank_table s0"
  shows "\<exists>s. init_p (init_proc s0) = Inr s \<and> (\<forall>i<MAX_q. t_ppid (q s i) = 0 \<and>
    t_state (q s i) = (if i < 2 then RUNNING else READY) \<and> (i < 2 \<longrightarrow> t_pid (q s i) = i))"
proof -
  let ?s = "init_proc s0"
  have st: "t_state (q ?s i) = READY" "t_ppid (q ?s i) = 0" if "i < MAX_q" for i
    using assms that by (simp_all add: init_proc_tasks blank_table_def)
  have p0: "newPID ?s = Some 0" by (simp add: newPID_def find_upt st)
  then obtain s1 where s1: "kernel_task ''init'' In_loop ?s = Inr s1" and q1: "\<forall>i. i \<noteq> 0 \<longrightarrow> q s1 i = q ?s i"
    "t_state (q s1 0) = RUNNING" "t_pid (q s1 0) = 0" "t_ppid (q s1 0) = 0"
    using st [of 0] by (simp add: kernel_task_def with_slot_def)
  have p1: "newPID s1 = Some 1" using q1 st by (auto simp: newPID_def find_upt)
  then obtain s2 where s2: "kernel_task ''idle'' Idle_loop s1 = Inr s2" and q2: "\<forall>i. i \<noteq> 1 \<longrightarrow> q s2 i = q s1 i"
    "t_state (q s2 1) = RUNNING" "t_pid (q s2 1) = 1" "t_ppid (q s2 1) = 0"
    using st [of 1] q1 by (simp add: kernel_task_def with_slot_def)
  have "t_ppid (q s2 i) = 0 \<and> t_state (q s2 i) = (if i < 2 then RUNNING else READY) \<and> (i < 2 \<longrightarrow> t_pid (q s2 i) = i)"
    if "i < MAX_q" for i
    using q1 q2 st [OF that] by (cases "i = 0"; cases "i = 1"; simp)
  then show ?thesis using s1 s2 by (auto simp: init_p_def)
qed

text \<open>Entering tasks in the table leaves the rest of the machine alone.\<close>

lemma kernel_task_frame:
  assumes "kernel_task nm code s = Inr s'"
  shows "kernel.more s' = kernel.more s" "frames_from n s' = frames_from n s"
  using assms by (auto simp: kernel_task_def with_slot_def frames_from_def set_task_def split: option.splits)

lemma init_proc_frame: "frames_from n (init_proc s) = frames_from n s"
proof -
  have "frames_from n (fold (\<lambda>i s. set_task i ((q s i)\<lparr>t_state := READY, t_fd_c := 0, t_time := 0\<rparr>) s) [0..<k] s) = frames_from n s" for k
    by (induction k) (simp_all add: frames_from_def set_task_def)
  then show ?thesis by (simp only: init_proc_def)
qed

lemma init_p_frame:
  assumes "init_p s = Inr s'"
  shows "kernel.more s' = kernel.more s" "frames_from n s' = frames_from n s"
  using assms by (auto simp: init_p_def res_simps kernel_task_frame)

lemma booted_minv:
  assumes "booted m"
  shows "minv m"
  using assms
proof cases
  case (1 s0 rip rsp s)
  obtain s1 where s1: "init_p (init_proc s0) = Inr s1" and t1: "\<And>i. i < MAX_q \<Longrightarrow> t_ppid (q s1 i) = 0"
    "\<And>i. i < MAX_q \<Longrightarrow> t_state (q s1 i) = (if i < 2 then RUNNING else READY)" "\<And>i. i < 2 \<Longrightarrow> t_pid (q s1 i) = i"
    using boot_kernel_tasks [OF 1(2)] by auto
  have run: "create_process ''bin/sbush'' s1 = Inr (Enter rip rsp, s)" using 1(3) by (simp add: boot_procs_def s1)
  have pid: "newPID s1 = Some 2" using t1(2) by (auto simp: newPID_def find_upt)
  note e = create_process_effect [OF run]
  then have found: "\<not> get_file_address ''bin/sbush'' s1 + 512 < 512" by (auto split: if_splits)
  from e found pid obtain pml4 vs u p ip where r: "r s = 2" and other: "\<forall>i. i \<noteq> 2 \<longrightarrow> q s i = q s1 i"
    and t: "t_pid (q s 2) = 2" "t_ppid (q s 2) = 0" "t_state (q s 2) = RUNNING"
    by auto
  have st: "t_state (q s i) = (if i < 3 then RUNNING else READY)" "t_ppid (q s i) = 0" "live (q s i) \<longrightarrow> t_pid (q s i) = i"
    if "i < MAX_q" for i
    using t1(1) [OF that] t1(2) [OF that] t1(3) [of i] t other by (cases "i = 2"; auto simp: live_def split: if_splits)+
  have "kinv s" unfolding kinv_def proc_inv_def cur_ok_def using st r t by (auto simp: st(1) st(2))
  then show ?thesis by (simp add: 1(1) minv_def)
qed

interpretation machine: invariant_machine booted kstep minv
  by unfold_locales (auto intro: booted_minv minv_step)

text \<open>
  C1. The whole kernel keeps its process table consistent: whatever system calls, interrupts, exceptions
  and page faults happen after boot, in whatever order, the running task sits in the slot of its pid, so
  does every task that is neither free nor dead, every parent is a slot, task 0 stays in place, a task
  switch always succeeds, and \<open>exit\<close> of a user task always succeeds.
\<close>

theorem kernel_stays_consistent:
  assumes "booted m" "kstep\<^sup>*\<^sup>* m (s, ks)"
  shows "r s < MAX_q \<and> t_pid (cur s) = r s \<and> (\<forall>i<MAX_q. live (q s i) \<longrightarrow> t_pid (q s i) = i) \<and>
    (\<forall>i<MAX_q. t_ppid (q s i) < MAX_q) \<and> t_state (q s 0) \<noteq> READY \<and> t_state (cur s) \<noteq> READY \<and>
    (\<exists>s'. yield s = Inr s') \<and> (\<exists>s'. exit s = Inr s')"
proof -
  have "minv (s, ks)" using machine.invar_reachable assms by blast
  then have k: "kinv s" by (simp add: minv_def)
  then have p: "proc_inv s" "cur_ok s" using kinv_proc proc_inv_cur by blast+
  then show ?thesis
    using k yield_total proc_inv_exit [OF p(1)] by (auto simp: kinv_def proc_inv_def cur_ok_def)
qed

lemma boot_example_booted:
  "\<exists>rip rsp s. boot_procs boot_machine = Inr (Enter rip rsp, s) \<and> booted (s, (\<lambda>_. K_user)(0 := K_in, 1 := K_idle))"
proof -
  have blank: "blank_table boot_machine" by (simp add: blank_table_def blank_task_def)
  obtain s1 where s1: "init_p (init_proc boot_machine) = Inr s1"
    and t1: "\<And>i. i < MAX_q \<Longrightarrow> t_state (q s1 i) = (if i < 2 then RUNNING else READY)"
    using boot_kernel_tasks [OF blank] by auto
  have pid: "newPID s1 = Some 2" using t1 by (auto simp: newPID_def find_upt)
  have more: "kernel.more s1 = kernel.more boot_machine" "frames_from 30 s1"
    using init_p_frame [OF s1] frames_boot(1) by (simp_all add: init_proc_tasks init_proc_frame)
  have tar: "tar_img s1 = boot_img" "tar_len s1 = 1024" "headers s1 = [0]" "tar_base s1 = 0"
    using tar_same [OF more(1)] by simp_all
  obtain rip rsp s where "create_process ''bin/sbush'' s1 = Inr (Enter rip rsp, s)"
    using boot_create [OF more(2) tar pid] by blast
  then have "boot_procs boot_machine = Inr (Enter rip rsp, s)" by (simp add: boot_procs_def s1)
  then show ?thesis using blank booted.intros by blast
qed

theorem kernel_stays_consistent_witness:
  "\<exists>rip rsp s. boot_procs boot_machine = Inr (Enter rip rsp, s) \<and> t_pid (cur s) = r s \<and> (\<exists>s'. yield s = Inr s')"
proof -
  obtain rip rsp s where b: "boot_procs boot_machine = Inr (Enter rip rsp, s)"
    "booted (s, (\<lambda>_. K_user)(0 := K_in, 1 := K_idle))"
    using boot_example_booted by blast
  from kernel_stays_consistent [OF b(2), of s] b(1) show ?thesis by blast
qed

end
