(* ===== verification/Boot_Paging.thy ===== *)
theory Boot_Paging
  imports Page_Table
begin

unbundle bit_operations_syntax

text \<open>
  The kernel's own page tables: \<^verbatim>\<open>init_ia32e_paging\<close> of \<^verbatim>\<open>sys/paging.c\<close>, run once
  at boot. Until it loads the new root, pointers are physical addresses; the quadword at the
  physical address \<open>p\<close> is the one the rest of the development finds at \<open>KERNBASE + p\<close>. The theory
  proves that the tables make this true: behind \<open>KERNBASE + p\<close> lies the frame \<open>p\<close>.
\<close>

section \<open>The code\<close>

text \<open>\<^verbatim>\<open>p[i] = v\<close> for a physical pointer.\<close>

definition wrp :: "u64 \<Rightarrow> u64 \<Rightarrow> u64 \<Rightarrow> 'a vmem_scheme \<Rightarrow> 'a vmem_scheme" where
  "wrp p i v s = wr (KERNBASE + p) i v s"

abbreviation entry3 :: "u64 \<Rightarrow> u64" where "entry3 p \<equiv> (p AND PTE_MASK) OR 3"

text \<open>One page: a new last-level table where the index is 0, and the entry.\<close>

definition direct_page :: "u64 \<Rightarrow> u64 \<Rightarrow> u64 \<Rightarrow> 'a vmem_scheme \<Rightarrow> (u64 \<times> 'a vmem_scheme) res" where
  "direct_page pde pte physbase s =
     (let pd_idx = tidx 21 (viraddr s); pt_idx = tidx 12 (viraddr s) in
      if pt_idx \<noteq> 0 then Inr (pte, wrp pte pt_idx (entry3 physbase) s)
      else
        rbind (allocate_page s) (\<lambda>(pte, s).
        let s = wrp pde pd_idx (entry3 pte) s in
        Inr (pte, wrp pte pt_idx (entry3 physbase) s)))"

partial_function (option) direct_map ::
  "u64 \<Rightarrow> u64 \<Rightarrow> u64 \<Rightarrow> u64 \<Rightarrow> 'a vmem_scheme \<Rightarrow> (u64 \<times> 'a vmem_scheme) res option" where
  "direct_map pde pte physbase physfree s =
     (if physbase < physfree then
        (case direct_page pde pte physbase s of
           Inl e \<Rightarrow> Some (Inl e)
         | Inr (pte, s) \<Rightarrow> direct_map pde pte (physbase + 4096) physfree (s\<lparr>viraddr := viraddr s + 4096\<rparr>))
      else Some (Inr (pte, s)))"

text \<open>The next virtual page, mapped to a table of the kernel.\<close>

definition alias_table :: "u64 \<Rightarrow> u64 \<Rightarrow> 'a vmem_scheme \<Rightarrow> 'a vmem_scheme" where
  "alias_table pte p s =
     (let s = s\<lparr>viraddr := viraddr s + 4096\<rparr> in wrp pte (tidx 12 (viraddr s)) (entry3 p) s)"

definition init_ia32e_paging :: "u64 \<Rightarrow> u64 \<Rightarrow> 'a vmem_scheme \<Rightarrow> 'a vmem_scheme res" where
  "init_ia32e_paging physbase physfree s =
     (let s = s\<lparr>viraddr := KERNBASE\<rparr>;
          pml4_idx = tidx 39 (viraddr s); pdpt_idx = tidx 30 (viraddr s); pd_idx = tidx 21 (viraddr s) in
      rbind (allocate_page s) (\<lambda>(p4, s).
      rbind (allocate_page s) (\<lambda>(pdpte, s).
      rbind (allocate_page s) (\<lambda>(pde, s).
      rbind (allocate_page s) (\<lambda>(pte, s).
      let s = wrp p4 pml4_idx (entry3 pdpte) s;
          s = wrp pdpte pdpt_idx (entry3 pde) s;
          s = wrp pde pd_idx (entry3 pte) s in
      case direct_map pde pte physbase physfree s of
        None \<Rightarrow> Inl Hang
      | Some res \<Rightarrow>
          rbind res (\<lambda>(pte, s).
          let s = s\<lparr>k_cr3 := p4\<rparr>;
              s = alias_table pte p4 s;
              s = s\<lparr>pml4e := viraddr s\<rparr>;
              s = alias_table pte pdpte s;
              s = alias_table pte pde s;
              s = alias_table pte pte s
          in Inr (s\<lparr>cr3 := k_cr3 s\<rparr>)))))))"

section \<open>Addresses of the window\<close>

abbreviation win :: "nat \<Rightarrow> u64" where "win i \<equiv> KERNBASE + page_addr i"

abbreviation n_win :: nat where "n_win \<equiv> 262144"

lemma unat_win: "i < n_win \<Longrightarrow> unat (win i) = 18446744071562067968 + 4096 * i"
  by (simp add: page_addr_def unat_word_ariths unat_of_nat take_bit_eq_mod)

lemma unat_tidx: "unat (tidx n v) = unat v div 2 ^ n mod 512"
proof -
  have "tidx n v = take_bit 9 (drop_bit n v)" by (simp add: tidx_def take_bit_eq_mask mask_eq_exp_minus_1)
  then have "unat (tidx n v) = take_bit 9 (unat (drop_bit n v))" by (simp only: unsigned_take_bit_eq)
  also have "unat (drop_bit n v) = drop_bit n (unat v)" by (simp only: unat_drop_bit_eq)
  finally show ?thesis by (simp add: take_bit_eq_mod drop_bit_eq_div)
qed

lemma tidx_of_nat: "unat v div 2 ^ n mod 512 = k \<Longrightarrow> tidx n v = of_nat k"
  using unat_tidx [of n v] by (metis word_of_nat_unat)

lemma tidx_win:
  assumes "i < n_win"
  shows "tidx 39 (win i) = 511" "tidx 30 (win i) = 510" "tidx 21 (win i) = of_nat (i div 512)" "tidx 12 (win i) = of_nat (i mod 512)"
proof -
  let ?a = "18446744071562067968 + 4096 * i"
  have e: "?a = (547608330240 + 4096 * i) + 2 ^ 39 * 33554431" "?a = 4096 * i + 2 ^ 30 * 17179869182"
    "?a = 4096 * i + 2 ^ 21 * 8796093021184" "?a = 2 ^ 12 * (i + 512 * 8796093021184)" by simp_all
  have d39: "?a div 2 ^ 39 = 33554431" unfolding e(1) by (subst div_mult_self2) (use assms in simp_all)
  have d30: "?a div 2 ^ 30 = 17179869182" unfolding e(2) by (subst div_mult_self2) (use assms in simp_all)
  have d21: "?a div 2 ^ 21 = i div 512 + 512 * 17179869182"
    unfolding e(3) by (subst div_mult_self2) (simp_all add: div_mult2_eq [of "4096 * i" 4096 512, simplified])
  have d12: "?a div 2 ^ 12 = i + 512 * 8796093021184" unfolding e(4) by (rule nonzero_mult_div_cancel_left) simp
  have "i div 512 < 512" using assms by simp
  then have m: "?a div 2 ^ 39 mod 512 = 511" "?a div 2 ^ 30 mod 512 = 510" "?a div 2 ^ 21 mod 512 = i div 512"
    "?a div 2 ^ 12 mod 512 = i mod 512" unfolding d39 d30 d21 d12 mod_mult_self2 by simp_all
  note m' = m [folded unat_win [OF assms], THEN tidx_of_nat]
  show "tidx 39 (win i) = 511" "tidx 30 (win i) = 510" using m'(1,2) by simp_all
  show "tidx 21 (win i) = of_nat (i div 512)" "tidx 12 (win i) = of_nat (i mod 512)" by (rule m')+
qed

lemma win_add: "win i + 4096 = win (i + 1)"
  by (simp add: page_addr_def algebra_simps)

section \<open>The tables while they are built\<close>

text \<open>
  The root \<open>p4\<close>, the two tables below it, the last-level tables \<open>T\<close> in their order, and the pages
  \<open>M\<close> they map.
\<close>

definition dm_ok :: "u64 \<Rightarrow> u64 \<Rightarrow> u64 \<Rightarrow> u64 list \<Rightarrow> (nat \<rightharpoonup> u64) \<Rightarrow> 'a vmem_scheme \<Rightarrow> bool" where
  "dm_ok p4 p3 p2 T M s \<longleftrightarrow> pa_inv s \<and> distinct (p4 # p3 # p2 # T) \<and> length T \<le> 512 \<and>
     (\<forall>p\<in>set (p4 # p3 # p2 # T). page_aligned p \<and> p \<notin> free_pages s) \<and>
     kmem s (KERNBASE + p4 + 8 * 511) = entry3 p3 \<and> kmem s (KERNBASE + p3 + 8 * 510) = entry3 p2 \<and>
     (\<forall>t<length T. kmem s (KERNBASE + p2 + 8 * of_nat t) = entry3 (T ! t)) \<and>
     (\<forall>j p. M j = Some p \<longrightarrow> j div 512 < length T \<and>
        kmem s (KERNBASE + T ! (j div 512) + 8 * of_nat (j mod 512)) = entry3 p)"

lemma phys_slot_eq:
  assumes "page_aligned p" "page_aligned p'" "i < 512" "j < 512"
  shows "KERNBASE + p + 8 * i = KERNBASE + p' + 8 * j \<longleftrightarrow> p = p' \<and> i = j"
  using slot_eq_iff [OF page_aligned_KERNBASE [OF assms(1)] page_aligned_KERNBASE [OF assms(2)] assms(3,4)] by simp

lemma of_nat_idx: "k < 512 \<Longrightarrow> (of_nat k :: u64) < 512"
  by (simp add: word_less_nat_alt unat_of_nat_lt)

lemma of_nat_idx_eq: "k < 512 \<Longrightarrow> j < 512 \<Longrightarrow> (of_nat k :: u64) = of_nat j \<longleftrightarrow> k = j"
  by (auto dest: of_nat_word_inj)

lemma three_eq_mask: "(3 :: u64) = mask 2"
  by (simp add: mask_eq_exp_minus_1)

lemma entry3_table: "page_aligned p \<Longrightarrow> entry3 p AND PTE_MASK = p"
  using entry_table [of p] unfolding PTE_MASK_eq page_aligned_bit three_eq_mask
  by (intro bit_word_eqI) (auto simp: bit_simps)

lemma entry3_present: "entry3 p AND 1 \<noteq> 0"
proof
  assume "entry3 p AND 1 = 0"
  then have "\<not> bit (entry3 p AND 1) 0" by simp
  then show False by (simp add: bit_simps)
qed

lemma dm_write:
  assumes ok: "dm_ok p4 p3 p2 T M s" and t: "t < length T" and k: "k < 512"
  shows "dm_ok p4 p3 p2 T (M(512 * t + k \<mapsto> p)) (wrp (T ! t) (of_nat k) (entry3 p) s)"
proof -
  note ok' = ok [unfolded dm_ok_def]
  have al: "page_aligned p4" "page_aligned p3" "page_aligned p2" "\<forall>u<length T. page_aligned (T ! u)" using ok' by auto
  have ne: "T ! t \<noteq> p4" "T ! t \<noteq> p3" "T ! t \<noteq> p2" using ok' t by auto
  have inj: "\<forall>u<length T. T ! u = T ! t \<longleftrightarrow> u = t" using ok' t by (auto simp: nth_eq_iff_index_eq)
  have tl: "length T \<le> 512" using ok' by blast
  have at: "kmem (wrp (T ! t) (of_nat k) (entry3 p) s) (KERNBASE + a + 8 * i) =
      (if a = T ! t \<and> i = of_nat k then entry3 p else kmem s (KERNBASE + a + 8 * i))" if "page_aligned a" "i < 512" for a i
    using phys_slot_eq [OF that(1) al(4) [rule_format, OF t] that(2) of_nat_idx [OF k]] by (simp add: wrp_def)
  have M: "j div 512 < length T \<and> kmem (wrp (T ! t) (of_nat k) (entry3 p) s) (KERNBASE + T ! (j div 512) + 8 * of_nat (j mod 512)) = entry3 x"
    if "(M(512 * t + k \<mapsto> p)) j = Some x" for j x
  proof (cases "j = 512 * t + k")
    case True
    then show ?thesis using that t k al at [of "T ! t" "of_nat k"] of_nat_idx [OF k] by simp
  next
    case False
    then have j: "j div 512 < length T" "kmem s (KERNBASE + T ! (j div 512) + 8 * of_nat (j mod 512)) = entry3 x"
      using that ok' by auto
    have "\<not> (T ! (j div 512) = T ! t \<and> (of_nat (j mod 512) :: u64) = of_nat k)"
    proof
      assume "T ! (j div 512) = T ! t \<and> (of_nat (j mod 512) :: u64) = of_nat k"
      then have "j div 512 = t" "j mod 512 = k" using inj j(1) of_nat_idx_eq [of "j mod 512" k] k by auto
      then show False using False by (metis mult_div_mod_eq)
    qed
    then show ?thesis using j al at [of "T ! (j div 512)" "of_nat (j mod 512)"] of_nat_idx [of "j mod 512"] by auto
  qed
  have T: "kmem (wrp (T ! t) (of_nat k) (entry3 p) s) (KERNBASE + p2 + 8 * of_nat u) = entry3 (T ! u)" if "u < length T" for u
    using ok' that ne at [OF al(3) of_nat_idx, of u] tl by simp
  have fr: "pa_inv (wrp (T ! t) (of_nat k) (entry3 p) s)" "free_pages (wrp (T ! t) (of_nat k) (entry3 p) s) = free_pages s"
    using ok' by (simp_all add: wrp_def frame_simps)
  show ?thesis
    unfolding dm_ok_def fr(2) using ok' fr(1) at [OF al(1), of 511] at [OF al(2), of 510] ne T M by simp
qed

lemma dm_table:
  assumes ok: "dm_ok p4 p3 p2 T M s" and al: "allocate_page s = Inr (p1, s')" and len: "length T < 512"
  shows "dm_ok p4 p3 p2 (T @ [p1]) M (wrp p2 (of_nat (length T)) (entry3 p1) s')"
proof -
  note ok' = ok [unfolded dm_ok_def]
  have inv: "pa_inv s" using ok' by blast
  note p1 = allocate_page_inv [OF inv al]
  have km: "kmem s' = kmem s" using allocate_page_frame [OF al] by simp
  have ali: "page_aligned p4" "page_aligned p3" "page_aligned p2" "\<forall>u<length T. page_aligned (T ! u)" "page_aligned p1"
    using ok' free_pages_aligned [OF p1(2)] by auto
  have at: "kmem (wrp p2 (of_nat (length T)) (entry3 p1) s') (KERNBASE + a + 8 * i) =
      (if a = p2 \<and> i = of_nat (length T) then entry3 p1 else kmem s (KERNBASE + a + 8 * i))" if "page_aligned a" "i < 512" for a i
    using phys_slot_eq [OF that(1) ali(3) that(2) of_nat_idx [OF len]] by (simp add: wrp_def km)
  have new: "p1 \<notin> set (p4 # p3 # p2 # T)" using ok' p1(2) by auto
  have T: "kmem (wrp p2 (of_nat (length T)) (entry3 p1) s') (KERNBASE + p2 + 8 * of_nat u) = entry3 ((T @ [p1]) ! u)"
    if "u < length (T @ [p1])" for u
    using ok' that at [OF ali(3) of_nat_idx, of u] len of_nat_idx_eq [of u "length T"] by (auto simp: nth_append)
  have M: "j div 512 < length (T @ [p1]) \<and> kmem (wrp p2 (of_nat (length T)) (entry3 p1) s')
      (KERNBASE + (T @ [p1]) ! (j div 512) + 8 * of_nat (j mod 512)) = entry3 x" if "M j = Some x" for j x
  proof -
    have j: "j div 512 < length T" "kmem s (KERNBASE + T ! (j div 512) + 8 * of_nat (j mod 512)) = entry3 x" using ok' that by auto
    moreover have "T ! (j div 512) \<noteq> p2" using ok' j(1) by auto
    ultimately show ?thesis using ali(4) at [of "T ! (j div 512)" "of_nat (j mod 512)"] of_nat_idx [of "j mod 512"] by (simp add: nth_append)
  qed
  have fr: "pa_inv (wrp p2 (of_nat (length T)) (entry3 p1) s')" "free_pages (wrp p2 (of_nat (length T)) (entry3 p1) s') = free_pages s - {p1}"
    using p1 by (simp_all add: wrp_def frame_simps)
  have ne: "p4 \<noteq> p2" "p3 \<noteq> p2" using ok' by auto
  show ?thesis
    unfolding dm_ok_def fr(2) using ok' fr(1) at [OF ali(1), of 511] at [OF ali(2), of 510] ne new ali(5) T M len by auto
qed

lemma dm_walk:
  assumes ok: "dm_ok p4 p3 p2 T M s" and j: "M j = Some p" "j < n_win"
  shows "walk (kmem s) (KERNBASE + p4) (win j) = Some (entry3 p)"
proof -
  note ok' = ok [unfolded dm_ok_def]
  have m: "j div 512 < length T" "kmem s (KERNBASE + T ! (j div 512) + 8 * of_nat (j mod 512)) = entry3 p" using ok' j(1) by auto
  have al: "page_aligned p3" "page_aligned p2" "page_aligned (T ! (j div 512))" using ok' m(1) by auto
  have "table_at (kmem s) (KERNBASE + p4) (vpath (win j)) = Some (KERNBASE + T ! (j div 512))"
    using ok' m(1) al by (simp add: vpath_def tidx_win [OF j(2)] Let_def entry3_present entry3_table)
  then show ?thesis using m(2) by (simp add: walk_def tidx_win [OF j(2)] Let_def entry3_present)
qed

lemma dm_ok_fields [simp]:
  "dm_ok p4 p3 p2 T M (s\<lparr>viraddr := v\<rparr>) = dm_ok p4 p3 p2 T M s" "dm_ok p4 p3 p2 T M (s\<lparr>k_cr3 := v\<rparr>) = dm_ok p4 p3 p2 T M s"
  "dm_ok p4 p3 p2 T M (s\<lparr>pml4e := v\<rparr>) = dm_ok p4 p3 p2 T M s" "dm_ok p4 p3 p2 T M (s\<lparr>cr3 := v\<rparr>) = dm_ok p4 p3 p2 T M s"
  by (simp_all add: dm_ok_def pa_inv_def free_pages_def free_idx_def)

section \<open>The loop\<close>

text \<open>The window of the first \<open>n\<close> frames.\<close>

definition direct :: "nat \<Rightarrow> nat \<rightharpoonup> u64" where
  "direct n j = (if j < n then Some (page_addr j) else None)"

lemma direct_Suc: "(direct n)(n \<mapsto> page_addr n) = direct (Suc n)"
  by (auto simp: direct_def fun_eq_iff)

definition dm_at :: "u64 \<Rightarrow> u64 \<Rightarrow> u64 \<Rightarrow> u64 \<Rightarrow> u64 list \<Rightarrow> nat \<Rightarrow> 'a vmem_scheme \<Rightarrow> bool" where
  "dm_at p4 p3 p2 p1 T i s \<longleftrightarrow> dm_ok p4 p3 p2 T (direct i) s \<and> viraddr s = win i \<and> length T = (i + 511) div 512 \<and>
     (0 < i \<longrightarrow> p1 = last T)"

lemma wrp_fields [simp]: "viraddr (wrp p i v s) = viraddr s" "free_pages (wrp p i v s) = free_pages s"
  by (simp_all add: wrp_def frame_simps)

lemma n_tables: "(i + 511) div 512 = (if i mod 512 = 0 then i div 512 else Suc (i div (512 :: nat)))"
proof -
  have "(i mod 512 + 511 + 512 * (i div 512)) div 512 = i div 512 + (i mod 512 + 511) div 512" by (rule div_mult_self2) simp
  moreover have "i mod 512 + 511 + 512 * (i div 512) = i + 511" using mult_div_mod_eq [of 512 i] by linarith
  moreover have "(i mod 512 + 511) div 512 = (if i mod 512 = 0 then 0 else 1)" by (auto intro!: div_nat_eqI)
  ultimately show ?thesis by simp
qed

lemma direct_page_step:
  assumes at: "dm_at p4 p3 p2 p1 T i s" and i: "i < n_win"
    and room: "(i + 1 + 511) div 512 \<le> card (free_pages s) + length T"
  shows "\<exists>p1' T' s'. direct_page p2 p1 (page_addr i) s = Inr (p1', s') \<and>
    dm_at p4 p3 p2 p1' T' (i + 1) (s'\<lparr>viraddr := viraddr s' + 4096\<rparr>) \<and>
    card (free_pages s') + length T' = card (free_pages s) + length T \<and> free_pages s' \<subseteq> free_pages s"
proof -
  have ok: "dm_ok p4 p3 p2 T (direct i) s" and v: "viraddr s = win i" and len: "length T = (i + 511) div 512"
    and last: "0 < i \<longrightarrow> p1 = last T" using at by (auto simp: dm_at_def)
  have inv: "pa_inv s" using ok by (simp add: dm_ok_def)
  note idx = tidx_win(3,4) [OF i]
  have dec: "512 * (i div 512) + i mod 512 = i" by simp
  show ?thesis
  proof (cases "i mod 512 = 0")
    case False
    then have ne: "(of_nat (i mod 512) :: u64) \<noteq> 0" using of_nat_idx_eq [of "i mod 512" 0] by simp
    have t: "length T = Suc (i div 512)" using len False by (simp add: n_tables)
    then have Tl: "last T = T ! (i div 512)" by (subst last_conv_nth) auto
    have "0 < i" using False by (cases i) simp_all
    then have p1: "p1 = T ! (i div 512)" using last Tl by simp
    have "dm_ok p4 p3 p2 T ((direct i)(512 * (i div 512) + i mod 512 \<mapsto> page_addr i)) (wrp (T ! (i div 512)) (of_nat (i mod 512)) (entry3 (page_addr i)) s)"
      by (rule dm_write [OF ok]) (simp_all add: t)
    then have "dm_ok p4 p3 p2 T (direct (Suc i)) (wrp p1 (of_nat (i mod 512)) (entry3 (page_addr i)) s)"
      unfolding dec direct_Suc p1 .
    moreover have "length T = (i + 1 + 511) div 512" using t by simp
    ultimately show ?thesis
      using ne v Tl p1 win_add [of i] by (intro exI [of _ p1] exI [of _ T]) (simp add: direct_page_def idx Let_def dm_at_def)
  next
    case True
    then have t: "length T = i div 512" using len by (simp add: n_tables)
    have "i div 512 < 512" using i by simp
    then have lt: "length T < 512" by (simp add: t)
    have "(i + 1 + 511) div 512 = Suc (length T)" using t by simp
    then have "free_pages s \<noteq> {}" using room by auto
    then obtain p s1 where al: "allocate_page s = Inr (p, s1)" using allocate_page_total(1) [OF inv] by blast
    note pf = allocate_page_inv [OF inv al] and fr = allocate_page_frame [OF al]
    let ?s = "wrp p2 (of_nat (length T)) (entry3 p) s1"
    have "dm_ok p4 p3 p2 (T @ [p]) (direct i) ?s" by (rule dm_table [OF ok al lt])
    then have "dm_ok p4 p3 p2 (T @ [p]) ((direct i)(512 * length T + 0 \<mapsto> page_addr i)) (wrp ((T @ [p]) ! length T) (of_nat 0) (entry3 (page_addr i)) ?s)"
      by (rule dm_write) simp_all
    moreover have "512 * length T + 0 = i" using dec by (simp add: t True)
    ultimately have "dm_ok p4 p3 p2 (T @ [p]) (direct (Suc i)) (wrp p 0 (entry3 (page_addr i)) ?s)"
      by (simp add: direct_Suc)
    moreover have "card (free_pages s) = Suc (card (free_pages s1))" "free_pages s1 \<subseteq> free_pages s"
      using frames.card_alloc [OF inv al] pf(3) by auto
    ultimately show ?thesis
      using v fr win_add [of i] al True \<open>(i + 1 + 511) div 512 = Suc (length T)\<close>
      by (intro exI [of _ p] exI [of _ "T @ [p]"]) (simp add: direct_page_def idx Let_def dm_at_def t)
  qed
qed

lemma page_addr_less: "i < n_win \<Longrightarrow> n \<le> n_win \<Longrightarrow> page_addr i < page_addr n \<longleftrightarrow> i < n"
  by (simp add: page_addr_def word_less_nat_alt unat_of_nat take_bit_eq_mod del: of_nat_mult)

lemma direct_map_runs:
  assumes "dm_at p4 p3 p2 p1 T i s" "i \<le> n" "n \<le> n_win" "(n + 511) div 512 \<le> card (free_pages s) + length T"
  shows "\<exists>p1' T' s'. direct_map p2 p1 (page_addr i) (page_addr n) s = Some (Inr (p1', s')) \<and> dm_at p4 p3 p2 p1' T' n s' \<and>
    free_pages s' \<subseteq> free_pages s"
  using assms
proof (induction "n - i" arbitrary: i p1 T s)
  case 0
  then have "\<not> page_addr i < page_addr n" by simp
  then show ?case using 0 by (subst direct_map.simps) auto
next
  case (Suc k)
  then have i: "i < n" "i < n_win" by simp_all
  then have "(i + 1 + 511) div 512 \<le> (n + 511) div 512" by (intro div_le_mono) simp
  then have room: "(i + 1 + 511) div 512 \<le> card (free_pages s) + length T" using Suc.prems(4) by simp
  obtain p1' T' s' where st: "direct_page p2 p1 (page_addr i) s = Inr (p1', s')"
      "dm_at p4 p3 p2 p1' T' (i + 1) (s'\<lparr>viraddr := viraddr s' + 4096\<rparr>)"
      "card (free_pages s') + length T' = card (free_pages s) + length T" "free_pages s' \<subseteq> free_pages s"
    using direct_page_step [OF Suc.prems(1) i(2) room] by blast
  have k: "k = n - (i + 1)" using Suc.hyps(2) by simp
  have "free_pages (s'\<lparr>viraddr := viraddr s' + 4096\<rparr>) = free_pages s'" by (simp add: free_pages_def free_idx_def)
  then obtain p1'' T'' s'' where r: "direct_map p2 p1' (page_addr (i + 1)) (page_addr n) (s'\<lparr>viraddr := viraddr s' + 4096\<rparr>) = Some (Inr (p1'', s''))"
      "dm_at p4 p3 p2 p1'' T'' n s''" "free_pages s'' \<subseteq> free_pages s'"
    using Suc.hyps(1) [OF k st(2)] Suc.prems(3,4) st(3) i(1) by auto
  have "page_addr i + 4096 = page_addr (i + 1)" by (simp add: page_addr_def algebra_simps)
  moreover have "free_pages s'' \<subseteq> free_pages s" using st(4) r(3) by blast
  ultimately show ?case using st(1) r(1,2) i Suc.prems(3) by (subst direct_map.simps) (auto simp: page_addr_less)
qed

section \<open>The finished tables\<close>

lemma alias_step:
  assumes ok: "dm_ok p4 p3 p2 T M s" and v: "viraddr s = win j" and j: "j + 1 < n_win" "(j + 1) div 512 < length T"
  shows "dm_ok p4 p3 p2 T (M(j + 1 \<mapsto> p)) (alias_table (T ! ((j + 1) div 512)) p s)"
    "viraddr (alias_table (T ! ((j + 1) div 512)) p s) = win (j + 1)"
proof -
  have "dm_ok p4 p3 p2 T (M(512 * ((j + 1) div 512) + (j + 1) mod 512 \<mapsto> p))
      (wrp (T ! ((j + 1) div 512)) (of_nat ((j + 1) mod 512)) (entry3 p) (s\<lparr>viraddr := win (j + 1)\<rparr>))"
    using ok j by (intro dm_write) simp_all
  then show "dm_ok p4 p3 p2 T (M(j + 1 \<mapsto> p)) (alias_table (T ! ((j + 1) div 512)) p s)"
    unfolding mult_div_mod_eq alias_table_def v win_add Let_def vmem.select_convs vmem.update_convs
    using tidx_win(4) [OF j(1)] by simp
  show "viraddr (alias_table (T ! ((j + 1) div 512)) p s) = win (j + 1)"
    unfolding alias_table_def v win_add Let_def by simp
qed

lemma four_frames:
  assumes "pa_inv s" "4 + k \<le> card (free_pages s)"
  obtains p4 p3 p2 p1 s1 s2 s3 s4 where
    "allocate_page s = Inr (p4, s1)" "allocate_page s1 = Inr (p3, s2)" "allocate_page s2 = Inr (p2, s3)" "allocate_page s3 = Inr (p1, s4)"
    "distinct [p4, p3, p2, p1]" "{p4, p3, p2, p1} \<subseteq> free_pages s" "free_pages s4 = free_pages s - {p4, p3, p2, p1}"
    "pa_inv s4" "k \<le> card (free_pages s4)" "kmem s4 = kmem s" "viraddr s4 = viraddr s"
proof -
  obtain ps s4 where ps: "alloc_many allocate_page 4 s = Inr (ps, s4)" using frames.many_result [OF assms(1), of 4] assms(2) by auto
  note f = frames.many_fresh [OF assms(1) ps]
  from ps obtain p4 p3 p2 p1 s1 s2 s3 where a: "allocate_page s = Inr (p4, s1)" "allocate_page s1 = Inr (p3, s2)"
      "allocate_page s2 = Inr (p2, s3)" "allocate_page s3 = Inr (p1, s4)" and e: "ps = [p4, p3, p2, p1]"
    by (auto simp: eval_nat_numeral res_simps)
  have "card (free_pages s4) = card (free_pages s) - 4"
    using f e by (simp add: card_Diff_subset)
  then have "k \<le> card (free_pages s4)" using assms(2) by simp
  moreover have "kmem s4 = kmem s" "viraddr s4 = viraddr s" using a [THEN allocate_page_frame] by simp_all
  ultimately show ?thesis using that [OF a] f by (simp add: e)
qed

lemma first_tables:
  assumes "pa_inv s" "distinct [p4, p3, p2]" "\<forall>p\<in>{p4, p3, p2}. page_aligned p \<and> p \<notin> free_pages s"
  shows "dm_ok p4 p3 p2 [] (direct 0) (wrp p2 0 v (wrp p3 510 (entry3 p2) (wrp p4 511 (entry3 p3) s)))"
proof -
  have al: "page_aligned p4" "page_aligned p3" "page_aligned p2" using assms(3) by auto
  let ?s = "wrp p2 0 v (wrp p3 510 (entry3 p2) (wrp p4 511 (entry3 p3) s))"
  have "kmem ?s (KERNBASE + p4 + 8 * 511) = entry3 p3"
    using phys_slot_eq [OF al(1) al(3), of 511 0] phys_slot_eq [OF al(1) al(2), of 511 510] assms(2) by (simp add: wrp_def)
  moreover have "kmem ?s (KERNBASE + p3 + 8 * 510) = entry3 p2"
    using phys_slot_eq [OF al(2) al(3), of 510 0] assms(2) by (simp add: wrp_def)
  moreover have "pa_inv ?s" "free_pages ?s = free_pages s" using assms(1) by (simp_all add: wrp_def frame_simps)
  ultimately show ?thesis unfolding dm_ok_def using assms(2,3) by (simp add: direct_def)
qed

lemma entry3_aligned: "page_aligned p \<Longrightarrow> entry3 p = p OR 3"
  unfolding PTE_MASK_eq page_aligned_bit by (intro bit_word_eqI) (auto simp: bit_simps)

text \<open>The last table holds the four pages behind the window, unless the window ends close to its end.\<close>

lemma last_table_room:
  assumes "0 < n" "(n - 1) mod 512 < 507" "length T = (n + 511) div 512" "k \<le> 4"
  shows "(n + k) div 512 < length T" "T ! ((n + k) div 512) = last T"
proof -
  have "n + k = (n - 1) mod 512 + Suc k + 512 * ((n - 1) div 512)"
    using assms(1) mult_div_mod_eq [of 512 "n - 1"] by linarith
  moreover have "((n - 1) mod 512 + Suc k + 512 * ((n - 1) div 512)) div 512 = (n - 1) div 512 + ((n - 1) mod 512 + Suc k) div 512"
    by (rule div_mult_self2) simp
  moreover have "((n - 1) mod 512 + Suc k) div 512 = 0" using assms(2,4) by (intro div_less) linarith
  ultimately have "(n + k) div 512 = (n - 1) div 512" by simp
  moreover have "n + 511 = n - 1 + 512" using assms(1) by simp
  then have "length T = Suc ((n - 1) div 512)" using assms(3) by simp
  ultimately show "(n + k) div 512 < length T" "T ! ((n + k) div 512) = last T" by (simp, subst last_conv_nth, auto)
qed

lemma alias_tables:
  assumes at: "dm_at p4 p3 p2 p1 T n s" and n: "0 < n" "n + 5 \<le> n_win" "(n - 1) mod 512 < 507"
  defines "s1 \<equiv> alias_table p1 p4 (s\<lparr>k_cr3 := p4\<rparr>)"
  defines "s4 \<equiv> alias_table p1 p1 (alias_table p1 p2 (alias_table p1 p3 (s1\<lparr>pml4e := viraddr s1\<rparr>)))"
  shows "dm_ok p4 p3 p2 T ((direct n)(n + 1 \<mapsto> p4, n + 1 + 1 \<mapsto> p3, n + 1 + 1 + 1 \<mapsto> p2, n + 1 + 1 + 1 + 1 \<mapsto> p1)) s4"
    "pml4e s4 = win (n + 1)" "k_cr3 s4 = p4"
proof -
  have ok: "dm_ok p4 p3 p2 T (direct n) s" "viraddr s = win n" and T: "length T = (n + 511) div 512" "p1 = last T"
    using at n(1) by (auto simp: dm_at_def)
  note room = last_table_room [OF n(1,3) T(1), folded T(2)]
  have e: "n + 1 + 1 = n + 2" "n + 2 + 1 = n + 3" "n + 3 + 1 = n + 4" by simp_all
  have r: "(n + 1) div 512 < length T" "(n + 1 + 1) div 512 < length T" "(n + 1 + 1 + 1) div 512 < length T" "(n + 1 + 1 + 1 + 1) div 512 < length T"
    "T ! ((n + 1) div 512) = p1" "T ! ((n + 1 + 1) div 512) = p1" "T ! ((n + 1 + 1 + 1) div 512) = p1" "T ! ((n + 1 + 1 + 1 + 1) div 512) = p1"
    unfolding e using room [of 1] room [of 2] room [of 3] room [of 4] by simp_all
  have b: "n + 1 < n_win" "n + 1 + 1 < n_win" "n + 1 + 1 + 1 < n_win" "n + 1 + 1 + 1 + 1 < n_win" using n(2) by simp_all
  note a1 = alias_step [of p4 p3 p2 T _ "s\<lparr>k_cr3 := p4\<rparr>", OF _ _ b(1) r(1), unfolded r(5), where p = p4, folded s1_def]
  have s1: "dm_ok p4 p3 p2 T ((direct n)(n + 1 \<mapsto> p4)) (s1\<lparr>pml4e := viraddr s1\<rparr>)" "viraddr (s1\<lparr>pml4e := viraddr s1\<rparr>) = win (n + 1)"
    "viraddr s1 = win (n + 1)"
    using a1 ok by simp_all
  note s2 = alias_step [OF s1(1,2) b(2) r(2), unfolded r(6), where p = p3]
  note s3 = alias_step [OF s2 b(3) r(3), unfolded r(7), where p = p2]
  note s4 = alias_step [OF s3 b(4) r(4), unfolded r(8), where p = p1]
  show "dm_ok p4 p3 p2 T ((direct n)(n + 1 \<mapsto> p4, n + 1 + 1 \<mapsto> p3, n + 1 + 1 + 1 \<mapsto> p2, n + 1 + 1 + 1 + 1 \<mapsto> p1)) s4"
    using s4(1) by (simp only: s4_def)
  show "pml4e s4 = win (n + 1)" using s1(3) by (simp add: s4_def alias_table_def wrp_def Let_def)
  show "k_cr3 s4 = p4" by (simp add: s4_def s1_def alias_table_def wrp_def Let_def)
qed

lemma init_ia32e_paging_effect:
  assumes inv: "pa_inv s" and n: "0 < n" "n + 5 \<le> n_win" "(n - 1) mod 512 < 507"
    and frames: "4 + (n + 511) div 512 \<le> card (free_pages s)"
  shows "\<exists>s'. init_ia32e_paging 0 (page_addr n) s = Inr s' \<and> cr3 s' = k_cr3 s' \<and>
    (\<forall>i<n. walk (kmem s') (KERNBASE + cr3 s') (KERNBASE + page_addr i) = Some (page_addr i OR 3)) \<and>
    walk (kmem s') (KERNBASE + cr3 s') (pml4e s') = Some (cr3 s' OR 3) \<and>
    pa_inv s' \<and> free_pages s' \<subseteq> free_pages s \<and> cr3 s' \<in> free_pages s - free_pages s'"
proof -
  let ?s = "s\<lparr>viraddr := KERNBASE\<rparr>"
  have same: "pa_inv ?s" "free_pages ?s = free_pages s" using inv pa_inv_cong [of ?s s] by simp_all
  have "4 + (n + 511) div 512 \<le> card (free_pages ?s)" using frames same(2) by simp
  from four_frames [OF same(1) this] obtain p4 p3 p2 p1 s1 s2 s3 s4 where
      a: "allocate_page ?s = Inr (p4, s1)" "allocate_page s1 = Inr (p3, s2)" "allocate_page s2 = Inr (p2, s3)" "allocate_page s3 = Inr (p1, s4)"
    and f: "distinct [p4, p3, p2, p1]" "{p4, p3, p2, p1} \<subseteq> free_pages ?s" "free_pages s4 = free_pages ?s - {p4, p3, p2, p1}" "pa_inv s4"
      "(n + 511) div 512 \<le> card (free_pages s4)" "kmem s4 = kmem ?s" "viraddr s4 = viraddr ?s" .
  note f = f [unfolded same(2)]
  have al: "\<forall>p\<in>{p4, p3, p2}. page_aligned p \<and> p \<notin> free_pages s4" using f(2,3) free_pages_aligned by auto
  let ?s4 = "wrp p2 0 (entry3 p1) (wrp p3 510 (entry3 p2) (wrp p4 511 (entry3 p3) s4))"
  have "dm_at p4 p3 p2 p1 [] 0 ?s4"
    using first_tables [OF f(4) _ al] f(1,7) by (simp add: dm_at_def page_addr_def)
  then obtain p1' T s5 where loop: "direct_map p2 p1 (page_addr 0) (page_addr n) ?s4 = Some (Inr (p1', s5))" and at: "dm_at p4 p3 p2 p1' T n s5"
      and sub: "free_pages s5 \<subseteq> free_pages s4"
    using direct_map_runs [of p4 p3 p2 p1 "[]" 0 ?s4 n] n f(5) by auto
  note al4 = alias_tables [OF at n]
  let ?s5 = "alias_table p1' p4 (s5\<lparr>k_cr3 := p4\<rparr>)"
  let ?s6 = "alias_table p1' p1' (alias_table p1' p2 (alias_table p1' p3 (?s5\<lparr>pml4e := viraddr ?s5\<rparr>)))"
  let ?M = "(direct n)(n + 1 \<mapsto> p4, n + 1 + 1 \<mapsto> p3, n + 1 + 1 + 1 \<mapsto> p2, n + 1 + 1 + 1 + 1 \<mapsto> p1')"
  have t0: "tidx 39 KERNBASE = 511" "tidx 30 KERNBASE = 510" "tidx 21 KERNBASE = 0" by (simp_all add: tidx_def)
  have run: "init_ia32e_paging 0 (page_addr n) s = Inr (?s6\<lparr>cr3 := p4\<rparr>)"
    using loop al4(3) a by (simp add: init_ia32e_paging_def Let_def t0 page_addr_def)
  have ok: "dm_ok p4 p3 p2 T ?M (?s6\<lparr>cr3 := p4\<rparr>)" using al4(1) by simp
  have w: "walk (kmem (?s6\<lparr>cr3 := p4\<rparr>)) (KERNBASE + p4) (win i) = Some (page_addr i OR 3)" if "i < n" for i
    using dm_walk [OF ok, of i "page_addr i"] that n(2) entry3_aligned [OF page_addr_aligned] by (simp add: direct_def)
  moreover have "walk (kmem (?s6\<lparr>cr3 := p4\<rparr>)) (KERNBASE + p4) (win (n + 1)) = Some (p4 OR 3)"
    using dm_walk [OF ok, of "n + 1" p4] n(2) entry3_aligned [of p4] al by simp
  moreover have "pa_inv (?s6\<lparr>cr3 := p4\<rparr>)" "p4 \<notin> free_pages (?s6\<lparr>cr3 := p4\<rparr>)" using ok by (simp_all add: dm_ok_def)
  moreover have "free_pages (?s6\<lparr>cr3 := p4\<rparr>) \<subseteq> free_pages s"
    using sub f(3) pa_inv_cong(2) [of "?s6\<lparr>cr3 := p4\<rparr>" s5] by (auto simp: alias_table_def wrp_def Let_def)
  ultimately show ?thesis using run al4(2,3) f(2) by (intro exI [of _ "?s6\<lparr>cr3 := p4\<rparr>"]) simp
qed

text \<open>
  The boot tables: given frames for them, \<open>init_ia32e_paging\<close> returns with a root loaded under which
  every frame \<open>p\<close> of the \<open>n\<close> frames of the machine is mapped at \<open>KERNBASE + p\<close>, writable and for the
  kernel only, and under which the address kept in \<open>pml4e\<close> leads to the root itself. This needs five
  unused entries in the last table: \<open>n - 1\<close> modulo 512 is below 507.
\<close>

theorem init_ia32e_paging_direct_map:
  assumes "pa_inv s" "0 < n" "n + 5 \<le> n_win" "(n - 1) mod 512 < 507" "4 + (n + 511) div 512 \<le> card (free_pages s)"
  shows "\<exists>s'. init_ia32e_paging 0 (page_addr n) s = Inr s' \<and> cr3 s' = k_cr3 s' \<and>
    (\<forall>i<n. walk (kmem s') (KERNBASE + cr3 s') (KERNBASE + page_addr i) = Some (page_addr i OR 3)) \<and>
    walk (kmem s') (KERNBASE + cr3 s') (pml4e s') = Some (cr3 s' OR 3) \<and>
    pa_inv s' \<and> free_pages s' \<subseteq> free_pages s \<and> cr3 s' \<in> free_pages s - free_pages s'"
  by (rule init_ia32e_paging_effect [OF assms])

section \<open>An example\<close>

definition boot_frames :: vmem where
  "boot_frames =
     \<lparr>pagelist = (\<lambda>i. if 10 \<le> i \<and> i < 20
        then \<lparr>fl_address = page_addr i, fl_free = 1, fl_ref_count = 0, fl_next = if i = 19 then None else Some (i + 1)\<rparr>
        else \<lparr>fl_address = 0, fl_free = 0, fl_ref_count = 0, fl_next = None\<rparr>),
      head = Some 10, pg_count = 0, kmem = (\<lambda>_. 0), pml4e = 0, viraddr = 0, k_cr3 = 0, cr3 = 0\<rparr>"

lemma boot_frames_idx: "free_idx boot_frames = {10..<20}"
  by (auto simp: free_idx_def boot_frames_def)

lemma boot_frames_inv: "pa_inv boot_frames"
proof -
  have "chain (pagelist boot_frames) (head boot_frames) [10..<20]" by (simp add: boot_frames_def)
  moreover have "set [10..<20] = free_idx boot_frames" by (simp only: set_upt boot_frames_idx)
  ultimately have "\<exists>xs. chain (pagelist boot_frames) (head boot_frames) xs \<and> set xs = free_idx boot_frames" by blast
  moreover have "\<forall>i<n_pagelist. fl_address (pagelist boot_frames i) = page_addr i \<or>
      fl_address (pagelist boot_frames i) = 0 \<and> fl_free (pagelist boot_frames i) \<noteq> 1"
    by (simp add: boot_frames_def)
  ultimately show ?thesis unfolding pa_inv_def by blast
qed

lemma boot_frames_card: "card (free_pages boot_frames) = 10"
proof -
  have "inj_on page_addr {10..<20}" by (rule inj_onI) (simp add: page_addr_inj)
  then show ?thesis by (simp add: free_pages_def boot_frames_idx card_image)
qed

theorem init_ia32e_paging_direct_map_witness:
  "\<exists>s'. init_ia32e_paging 0 (page_addr 1) boot_frames = Inr s' \<and>
     walk (kmem s') (KERNBASE + cr3 s') (KERNBASE + page_addr 0) = Some (page_addr 0 OR 3)"
  using init_ia32e_paging_direct_map [of boot_frames 1] by (auto simp: boot_frames_inv boot_frames_card)

end
