(* ===== verification/User_Heap.thy ===== *)
theory User_Heap
  imports Heap_Area
begin

text \<open>
  The storage allocator of \<^verbatim>\<open>libc/malloc.c\<close>: a circular list of free blocks in the order of their
  addresses, first fit, with neighbours joined on release. A block is a header of 16 bytes and what
  follows; sizes count headers. Addresses are natural numbers, sizes are unsigned numbers of 32 bits,
  and \<^verbatim>\<open>sbrk\<close>, the system call behind it, is an argument with an interface of its own, which the
  kernel's \<^verbatim>\<open>malloc\<close> satisfies.
\<close>

section \<open>The code\<close>

abbreviation sizeof_Header :: nat where "sizeof_Header \<equiv> 16"
abbreviation NALLOC :: int where "NALLOC \<equiv> 1024"

text \<open>The two fields of all headers, the static pointer, and the state of the system below.\<close>

record 'o uheap =
  h_ptr :: "nat \<Rightarrow> nat"
  h_size :: "nat \<Rightarrow> nat"
  freep :: nat
  os :: 'o

definition set_ptr :: "nat \<Rightarrow> nat \<Rightarrow> 'o uheap \<Rightarrow> 'o uheap" where
  "set_ptr a x s = s\<lparr>h_ptr := (h_ptr s)(a := x)\<rparr>"

definition set_size :: "nat \<Rightarrow> nat \<Rightarrow> 'o uheap \<Rightarrow> 'o uheap" where
  "set_size a n s = s\<lparr>h_size := (h_size s)(a := n mod 2 ^ 32)\<rparr>"

text \<open>A 32-bit signed number.\<close>

definition to_int :: "int \<Rightarrow> int" where
  "to_int x = (x + 2 ^ 31) mod 2 ^ 32 - 2 ^ 31"

partial_function (option) free_find :: "(nat \<Rightarrow> nat) \<Rightarrow> nat \<Rightarrow> nat \<Rightarrow> nat option" where
  "free_find ptr bp p =
     (if \<not> (bp > p \<and> bp < ptr p) then
        if p \<ge> ptr p \<and> (bp > p \<or> bp < ptr p) then Some p
        else free_find ptr bp (ptr p)
      else Some p)"

definition free_link :: "nat \<Rightarrow> nat \<Rightarrow> 'o uheap \<Rightarrow> 'o uheap" where
  "free_link bp p s =
     (let s = (if bp + sizeof_Header * h_size s bp = h_ptr s p then
                 let s = set_size bp (h_size s bp + h_size s (h_ptr s p)) s
                 in set_ptr bp (h_ptr s (h_ptr s p)) s
               else set_ptr bp (h_ptr s p) s);
          s = (if p + sizeof_Header * h_size s p = bp then
                 let s = set_size p (h_size s p + h_size s bp) s
                 in set_ptr p (h_ptr s bp) s
               else set_ptr p bp s)
      in s\<lparr>freep := p\<rparr>)"

definition free_user :: "nat \<Rightarrow> 'o uheap \<Rightarrow> 'o uheap res" where
  "free_user ap s =
     (let bp = ap - sizeof_Header in
      if freep s = 0 then Inl NullDeref
      else
        case free_find (h_ptr s) bp (freep s) of
          None \<Rightarrow> Inl Hang
        | Some p \<Rightarrow> Inr (free_link bp p s))"

text \<open>\<^verbatim>\<open>morecore\<close>: the result 0 is \<^verbatim>\<open>NULL\<close>.\<close>

definition morecore :: "(int \<Rightarrow> 'o \<Rightarrow> (u64 \<times> 'o) res) \<Rightarrow> int \<Rightarrow> 'o uheap \<Rightarrow> (nat \<times> 'o uheap) res" where
  "morecore sbrk nu s =
     (let nu = (if nu < NALLOC then NALLOC else nu) in
      rbind (sbrk (to_int (nu * int sizeof_Header)) (os s)) (\<lambda>(cp, osys).
      let s = s\<lparr>os := osys\<rparr> in
      if cp = - 1 then Inr (0, s)
      else
        let up = unat cp; s = set_size up (nat nu) s in
        rbind (free_user (up + sizeof_Header) s) (\<lambda>s. Inr (freep s, s))))"

definition take_block :: "nat \<Rightarrow> nat \<Rightarrow> nat \<Rightarrow> 'o uheap \<Rightarrow> nat \<times> 'o uheap" where
  "take_block nunits prevp p s =
     (if h_size s p = nunits then (p + sizeof_Header, (set_ptr prevp (h_ptr s p) s)\<lparr>freep := prevp\<rparr>)
      else
        let s = set_size p (h_size s p - nunits) s;
            p = p + sizeof_Header * h_size s p;
            s = set_size p nunits s
        in (p + sizeof_Header, s\<lparr>freep := prevp\<rparr>))"

partial_function (option) malloc_loop ::
  "(int \<Rightarrow> 'o \<Rightarrow> (u64 \<times> 'o) res) \<Rightarrow> nat \<Rightarrow> nat \<Rightarrow> nat \<Rightarrow> 'o uheap \<Rightarrow> (nat \<times> 'o uheap) res option" where
  "malloc_loop sbrk nunits prevp p s =
     (if h_size s p \<ge> nunits then Some (Inr (take_block nunits prevp p s))
      else if p = freep s then
        (case morecore sbrk (to_int (int nunits)) s of
           Inl e \<Rightarrow> Some (Inl e)
         | Inr (p, s) \<Rightarrow> if p = 0 then Some (Inr (0, s)) else malloc_loop sbrk nunits p (h_ptr s p) s)
      else malloc_loop sbrk nunits p (h_ptr s p) s)"

definition units :: "u64 \<Rightarrow> nat" where
  "units nbytes = (unat (nbytes + 15) div sizeof_Header + 1) mod 2 ^ 32"

text \<open>\<open>base\<close> is the address of the static header.\<close>

definition malloc_user :: "nat \<Rightarrow> (int \<Rightarrow> 'o \<Rightarrow> (u64 \<times> 'o) res) \<Rightarrow> u64 \<Rightarrow> 'o uheap \<Rightarrow> (nat \<times> 'o uheap) res" where
  "malloc_user base sbrk nbytes s =
     (let nunits = units nbytes;
          s = (if freep s = 0 then set_size base 0 ((set_ptr base base s)\<lparr>freep := base\<rparr>) else s);
          prevp = freep s in
      case malloc_loop sbrk nunits prevp (h_ptr s prevp) s of None \<Rightarrow> Inl Hang | Some res \<Rightarrow> res)"

section \<open>Rings\<close>

text \<open>\<open>n\<close> follows \<open>p\<close> in the circular order of the finite set \<open>R\<close>.\<close>

definition is_next :: "nat set \<Rightarrow> nat \<Rightarrow> nat \<Rightarrow> bool" where
  "is_next R p n \<longleftrightarrow> n \<in> R \<and>
     (p < n \<and> (\<forall>x\<in>R. x \<le> p \<or> n \<le> x) \<or> n \<le> p \<and> (\<forall>x\<in>R. n \<le> x \<and> x \<le> p))"

definition ring :: "nat set \<Rightarrow> (nat \<Rightarrow> nat) \<Rightarrow> bool" where
  "ring R ptr \<longleftrightarrow> finite R \<and> (\<forall>p\<in>R. is_next R p (ptr p))"

text \<open>A new address belongs behind \<open>p\<close>.\<close>

definition fits :: "(nat \<Rightarrow> nat) \<Rightarrow> nat \<Rightarrow> nat \<Rightarrow> bool" where
  "fits ptr b p \<longleftrightarrow> p < b \<and> b < ptr p \<or> ptr p \<le> p \<and> (p < b \<or> b < ptr p)"

lemma ring_in: "ring R ptr \<Longrightarrow> p \<in> R \<Longrightarrow> ptr p \<in> R"
  by (auto simp: ring_def is_next_def)

lemma ring_iter: "ring R ptr \<Longrightarrow> p \<in> R \<Longrightarrow> (ptr ^^ k) p \<in> R"
  by (induction k) (auto intro: ring_in)

lemma ring_up:
  assumes r: "ring R ptr" and p: "p \<in> R"
  shows "\<exists>k. (ptr ^^ k) p = Max R"
  using p
proof (induction "card {x \<in> R. p < x}" arbitrary: p rule: less_induct)
  case less
  have fin: "finite R" using r by (simp add: ring_def)
  show ?case
  proof (cases "p = Max R")
    case True
    then show ?thesis by (intro exI [of _ 0]) simp
  next
    case False
    then obtain m where m: "m \<in> R" "p < m"
      using less.prems fin by (metis Max_ge Max_in empty_iff le_neq_implies_less)
    have nx: "is_next R p (ptr p)" using r less.prems by (simp add: ring_def)
    then have "p < ptr p" using m by (auto simp: is_next_def)
    then have "{x \<in> R. ptr p < x} \<subset> {x \<in> R. p < x}" using nx by (auto simp: is_next_def)
    then have "card {x \<in> R. ptr p < x} < card {x \<in> R. p < x}" using fin by (intro psubset_card_mono) auto
    from less.hyps [OF this ring_in [OF r less.prems]] obtain k where "(ptr ^^ k) (ptr p) = Max R" by blast
    then have "(ptr ^^ Suc k) p = Max R" by (simp add: funpow_swap1)
    then show ?thesis by blast
  qed
qed

lemma ring_down:
  assumes r: "ring R ptr" and t: "t \<in> R" and m: "m \<in> R" "\<forall>x\<in>R. m \<le> x"
  shows "\<exists>k. (ptr ^^ k) m = t"
  using t
proof (induction t rule: less_induct)
  case (less t)
  have fin: "finite R" using r by (simp add: ring_def)
  show ?case
  proof (cases "t = m")
    case True
    then show ?thesis by (intro exI [of _ 0]) simp
  next
    case False
    let ?u = "Max {x \<in> R. x < t}"
    have ne: "{x \<in> R. x < t} \<noteq> {}" using False m less.prems by fastforce
    then have u: "?u \<in> R" "?u < t" using Max_in [of "{x \<in> R. x < t}"] fin by auto
    have gap: "x \<le> ?u" if "x \<in> R" "x < t" for x using that fin by (intro Max_ge) auto
    have "is_next R ?u (ptr ?u)" using r u by (simp add: ring_def)
    then have "ptr ?u = t" using u gap less.prems by (fastforce simp: is_next_def)
    moreover obtain k where "(ptr ^^ k) m = ?u" using less.IH u by blast
    ultimately have "(ptr ^^ Suc k) m = t" by simp
    then show ?thesis by blast
  qed
qed

text \<open>Every element is reached from every other.\<close>

lemma ring_reach:
  assumes r: "ring R ptr" and "p \<in> R" "t \<in> R"
  shows "\<exists>k. (ptr ^^ k) p = t"
proof -
  have fin: "finite R" "R \<noteq> {}" using assms by (auto simp: ring_def)
  obtain i where i: "(ptr ^^ i) p = Max R" using ring_up assms by blast
  have "is_next R (Max R) (ptr (Max R))" using r fin by (simp add: ring_def)
  then have m: "ptr (Max R) \<in> R" "\<forall>x\<in>R. ptr (Max R) \<le> x" using fin by (auto simp: is_next_def dest: Max_ge)
  obtain j where "(ptr ^^ j) (ptr (Max R)) = t" using ring_down [OF r assms(3) m] by blast
  then have "(ptr ^^ (j + Suc i)) p = t" using i by (simp only: funpow_add funpow.simps comp_apply)
  then show ?thesis by blast
qed

lemma ring_fits:
  assumes r: "ring R ptr" and "b \<notin> R" "R \<noteq> {}"
  shows "\<exists>t\<in>R. fits ptr b t"
proof (cases "\<exists>x\<in>R. x < b")
  case True
  have fin: "finite R" using r by (simp add: ring_def)
  let ?u = "Max {x \<in> R. x < b}"
  have ne: "{x \<in> R. x < b} \<noteq> {}" using True by auto
  then have u: "?u \<in> R" "?u < b" using Max_in [of "{x \<in> R. x < b}"] fin by auto
  have gap: "x \<le> ?u" if "x \<in> R" "x < b" for x using that fin by (intro Max_ge) auto
  have "ptr ?u \<in> R" "ptr ?u \<noteq> b" using ring_in [OF r u(1)] assms(2) by auto
  then have "fits ptr b ?u" using u(2) gap [of "ptr ?u"] unfolding fits_def by linarith
  then show ?thesis using u by blast
next
  case False
  have fin: "finite R" using r by (simp add: ring_def)
  have "Max R \<in> R" using fin assms(3) by simp
  then have "ptr (Max R) \<in> R" using ring_in [OF r] by blast
  moreover have "ptr (Max R) \<noteq> b" "\<not> ptr (Max R) < b" "ptr (Max R) \<le> Max R"
    using \<open>ptr (Max R) \<in> R\<close> assms(2) False fin by auto
  ultimately have "fits ptr b (Max R)" unfolding fits_def by linarith
  then show ?thesis using fin assms(3) by (meson Max_in)
qed

lemma is_next_insert:
  "is_next R a n \<Longrightarrow> a < n \<Longrightarrow> b \<le> a \<or> n \<le> b \<Longrightarrow> is_next (insert b R) a n"
  "is_next R a n \<Longrightarrow> n \<le> a \<Longrightarrow> n \<le> b \<and> b \<le> a \<Longrightarrow> is_next (insert b R) a n"
  by (auto simp: is_next_def)

lemma is_next_inj: "is_next R a n \<Longrightarrow> is_next R p n \<Longrightarrow> a \<in> R \<Longrightarrow> p \<in> R \<Longrightarrow> a = p"
  unfolding is_next_def by (metis leD le_antisym linorder_neqE_nat)

lemma is_next_pair:
  assumes "is_next R a n" "x \<in> R"
  shows "a < n \<and> (x \<le> a \<or> n \<le> x) \<or> n \<le> a \<and> n \<le> x \<and> x \<le> a"
  using assms by (auto simp: is_next_def)

lemma is_nextI:
  "n \<in> R \<Longrightarrow> (\<And>x. x \<in> R \<Longrightarrow> a < n \<and> (x \<le> a \<or> n \<le> x) \<or> n \<le> a \<and> n \<le> x \<and> x \<le> a) \<Longrightarrow> is_next R a n"
  unfolding is_next_def by (meson leD)

lemma ring_insert:
  assumes "ring R ptr" "p \<in> R" "b \<notin> R" "fits ptr b p"
  shows "ring (insert b R) (ptr(b := ptr p, p := b))"
proof -
  have nx: "is_next R p (ptr p)" and fin: "finite R" using assms by (auto simp: ring_def)
  note pair = is_next_pair [OF nx] and ft = assms(4) [unfolded fits_def]
  have "is_next (insert b R) p b"
  proof (rule is_nextI)
    fix x assume "x \<in> insert b R"
    then show "p < b \<and> (x \<le> p \<or> b \<le> x) \<or> b \<le> p \<and> b \<le> x \<and> x \<le> p"
      using pair [of x] pair [OF assms(2)] ft by (elim insertE) linarith+
  qed simp
  moreover have "is_next (insert b R) b (ptr p)"
  proof (rule is_nextI)
    fix x assume "x \<in> insert b R"
    then show "b < ptr p \<and> (x \<le> b \<or> ptr p \<le> x) \<or> ptr p \<le> b \<and> ptr p \<le> x \<and> x \<le> b"
      using pair [of x] pair [OF assms(2)] ft by (elim insertE) linarith+
  qed (simp add: ring_in [OF assms(1,2)])
  moreover have "is_next (insert b R) a (ptr a)" if a: "a \<in> R" "a \<noteq> p" for a
  proof -
    have na: "is_next R a (ptr a)" "ptr a \<in> R" "ptr p \<in> R" using assms a by (auto simp: ring_def is_next_def)
    have "ptr a \<noteq> ptr p" using is_next_inj [OF na(1)] nx a assms(2) by metis
    then show ?thesis
      using is_next_pair [OF na(1) assms(2)] is_next_pair [OF na(1) na(3)] is_next_pair [OF nx a(1)] is_next_pair [OF nx na(2)]
        assms(4) a(2) is_next_insert [OF na(1), of b] unfolding fits_def by linarith
  qed
  ultimately show ?thesis using fin assms(2,3) by (auto simp: ring_def)
qed

lemma ring_remove:
  assumes "ring R ptr" "p \<in> R" "ptr p \<noteq> p"
  shows "ring (R - {ptr p}) (ptr(p := ptr (ptr p)))"
proof -
  have nx: "is_next R p (ptr p)" "is_next R (ptr p) (ptr (ptr p))" and fin: "finite R"
    using assms ring_in [OF assms(1,2)] by (auto simp: ring_def)
  have "ptr (ptr p) \<noteq> ptr p" using is_next_inj [OF nx(1), of "ptr p"] nx(2) assms(2,3) ring_in [OF assms(1,2)] by metis
  moreover have "ptr (ptr p) \<in> R" using nx(2) by (simp add: is_next_def)
  ultimately have "is_next (R - {ptr p}) p (ptr (ptr p))"
  proof (intro is_nextI)
    fix x assume "x \<in> R - {ptr p}"
    then have "x \<in> R" "x \<noteq> ptr p" by auto
    then show "p < ptr (ptr p) \<and> (x \<le> p \<or> ptr (ptr p) \<le> x) \<or> ptr (ptr p) \<le> p \<and> ptr (ptr p) \<le> x \<and> x \<le> p"
      using is_next_pair [OF nx(1) \<open>x \<in> R\<close>] is_next_pair [OF nx(2) \<open>x \<in> R\<close>] is_next_pair [OF nx(2) assms(2)]
        is_next_pair [OF nx(1) \<open>ptr (ptr p) \<in> R\<close>] assms(3) \<open>ptr (ptr p) \<noteq> ptr p\<close> by linarith
  qed simp
  moreover have "is_next (R - {ptr p}) a (ptr a)" if "a \<in> R" "a \<noteq> p" for a
  proof -
    have na: "is_next R a (ptr a)" using assms that by (simp add: ring_def)
    then have "ptr a \<noteq> ptr p" using is_next_inj [OF na] nx(1) that assms(2) by metis
    with na show ?thesis by (auto simp: is_next_def)
  qed
  ultimately show ?thesis using fin assms(2) by (auto simp: ring_def)
qed

section \<open>The search for a place\<close>

lemma free_find_step: "free_find ptr b p = (if fits ptr b p then Some p else free_find ptr b (ptr p))"
  by (subst free_find.simps) (auto simp: fits_def)

lemma free_find_at:
  "fits ptr b ((ptr ^^ k) p) \<Longrightarrow> \<forall>j<k. \<not> fits ptr b ((ptr ^^ j) p) \<Longrightarrow> free_find ptr b p = Some ((ptr ^^ k) p)"
proof (induction k arbitrary: p)
  case 0
  then show ?case by (subst free_find_step) simp
next
  case (Suc k)
  have "\<not> fits ptr b p" using Suc.prems(2) [rule_format, of 0] by simp
  then have "free_find ptr b p = free_find ptr b (ptr p)" by (subst free_find_step) simp
  also have "\<dots> = Some ((ptr ^^ k) (ptr p))"
    using Suc.prems(1) Suc.prems(2) [rule_format, of "Suc _"] by (intro Suc.IH) (auto simp: funpow_swap1)
  finally show ?case by (simp add: funpow_swap1)
qed

lemma free_find_ring:
  assumes r: "ring R ptr" and "p \<in> R" "b \<notin> R"
  shows "\<exists>t\<in>R. fits ptr b t \<and> free_find ptr b p = Some t"
proof -
  obtain t where t: "t \<in> R" "fits ptr b t" using ring_fits [OF r assms(3)] assms(2) by blast
  obtain k where "(ptr ^^ k) p = t" using ring_reach [OF r assms(2) t(1)] by blast
  then have ex: "\<exists>k. fits ptr b ((ptr ^^ k) p)" using t(2) by blast
  let ?k = "LEAST k. fits ptr b ((ptr ^^ k) p)"
  have "fits ptr b ((ptr ^^ ?k) p)" using ex by (rule LeastI_ex)
  moreover have "\<forall>j<?k. \<not> fits ptr b ((ptr ^^ j) p)" using not_less_Least by blast
  ultimately show ?thesis using free_find_at ring_iter [OF r assms(2)] by blast
qed

section \<open>The state of the heap\<close>

text \<open>Blocks between two addresses that do not overlap, and free blocks none of which touches the next.\<close>

definition blocks_ok :: "nat \<Rightarrow> nat \<Rightarrow> nat set \<Rightarrow> (nat \<Rightarrow> nat) \<Rightarrow> bool" where
  "blocks_ok lo hi B sz \<longleftrightarrow> (\<forall>b\<in>B. lo \<le> b \<and> b mod sizeof_Header = 0 \<and> 0 < sz b \<and> b + sizeof_Header * sz b \<le> hi \<and>
     (\<forall>c\<in>B. b < c \<longrightarrow> b + sizeof_Header * sz b \<le> c))"

definition coalesced :: "nat set \<Rightarrow> (nat \<Rightarrow> nat) \<Rightarrow> bool" where
  "coalesced F sz \<longleftrightarrow> (\<forall>a\<in>F. a + sizeof_Header * sz a \<notin> F)"

definition extent :: "(nat \<Rightarrow> nat) \<Rightarrow> nat set \<Rightarrow> nat set" where
  "extent sz B = (\<Union>b\<in>B. {b..<b + sizeof_Header * sz b})"

text \<open>\<open>R\<close> are the free blocks with the static header, \<open>L\<close> the blocks handed out, all by their headers.\<close>

definition uheap_ok :: "nat \<Rightarrow> nat \<Rightarrow> nat \<Rightarrow> 'o uheap \<Rightarrow> nat set \<Rightarrow> nat set \<Rightarrow> bool" where
  "uheap_ok base lo hi s R L \<longleftrightarrow> ring R (h_ptr s) \<and> base \<in> R \<and> freep s \<in> R \<and> h_size s base = 0 \<and>
     0 < base \<and> base < lo \<and> L \<inter> R = {} \<and> blocks_ok lo hi (L \<union> (R - {base})) (h_size s) \<and> coalesced (R - {base}) (h_size s)"

lemma blocks_okD:
  assumes "blocks_ok lo hi B sz" "b \<in> B"
  shows "lo \<le> b" "0 < sz b" "b + 16 * sz b \<le> hi"
  using assms by (simp_all add: blocks_ok_def)

lemma blocks_okI:
  "(\<And>b. b \<in> B \<Longrightarrow> lo \<le> b \<and> b mod 16 = 0 \<and> 0 < sz b \<and> b + 16 * sz b \<le> hi) \<Longrightarrow>
     (\<And>b c. b \<in> B \<Longrightarrow> c \<in> B \<Longrightarrow> b < c \<Longrightarrow> b + 16 * sz b \<le> c) \<Longrightarrow> blocks_ok lo hi B sz"
  by (simp add: blocks_ok_def)

lemma blocks_apart: "blocks_ok lo hi B sz \<Longrightarrow> b \<in> B \<Longrightarrow> c \<in> B \<Longrightarrow> b < c \<Longrightarrow> b + 16 * sz b \<le> c"
  by (simp add: blocks_ok_def)

lemma blocks_subset: "blocks_ok lo hi B sz \<Longrightarrow> C \<subseteq> B \<Longrightarrow> blocks_ok lo hi C sz"
  by (auto simp: blocks_ok_def)

lemma blocks_merge:
  assumes "blocks_ok lo hi B sz" "x \<in> B" "y \<in> B" "x + 16 * sz x = y"
  shows "blocks_ok lo hi (B - {y}) (sz(x := sz x + sz y))"
proof -
  note d = blocks_apart [OF assms(1)]
  have y: "y + 16 * sz y \<le> hi" "x < y" using blocks_okD [OF assms(1)] assms(2-4) by fastforce+
  have "x + 16 * (sz x + sz y) \<le> c" if "c \<in> B" "x < c" "c \<noteq> y" for c
  proof -
    have "y < c" using d [OF assms(2) that(1,2)] assms(4) that(3) by simp
    then show ?thesis using d [OF assms(3) that(1)] assms(4) by simp
  qed
  moreover have "x + 16 * (sz x + sz y) \<le> hi" using y assms(4) by simp
  ultimately show ?thesis using assms(1,2,4) unfolding blocks_ok_def by auto
qed

lemma extent_peel: "z \<in> C \<Longrightarrow> extent sz C = {z..<z + 16 * sz z} \<union> extent sz (C - {z})"
  by (auto simp: extent_def)

lemma extent_cong: "(\<And>x. x \<in> C \<Longrightarrow> sz x = sz' x) \<Longrightarrow> extent sz C = extent sz' C"
  by (simp add: extent_def)

lemma extent_merge:
  assumes "x \<in> B" "y \<in> B" "x \<noteq> y" "x + 16 * sz x = y"
  shows "extent (sz(x := sz x + sz y)) (B - {y}) = extent sz B"
proof -
  have "{x..<x + 16 * (sz x + sz y)} = {x..<x + 16 * sz x} \<union> {y..<y + 16 * sz y}"
    using assms(4) by auto
  moreover note extent_peel [OF assms(1), of sz] extent_peel [of y "B - {x}" sz] extent_peel [of x "B - {y}" "sz(x := sz x + sz y)"]
  then have "extent sz B = {x..<x + 16 * sz x} \<union> ({y..<y + 16 * sz y} \<union> extent sz (B - {x} - {y}))"
    "extent (sz(x := sz x + sz y)) (B - {y}) = {x..<x + 16 * (sz x + sz y)} \<union> extent (sz(x := sz x + sz y)) (B - {y} - {x})"
    using assms(1-3) by auto
  moreover have "extent (sz(x := sz x + sz y)) (B - {y} - {x}) = extent sz (B - {x} - {y})"
    by (auto simp: extent_def)
  ultimately show ?thesis by (simp only: Un_assoc)
qed

text \<open>A block behind all others.\<close>

lemma blocks_new:
  assumes bl: "blocks_ok lo hi B sz" and up: "hi \<le> up" "lo \<le> up" "up mod 16 = 0" "0 < m" "up + 16 * m \<le> hi'"
  shows "up \<notin> B" "blocks_ok lo hi' (insert up B) (sz(up := m))"
proof -
  have below: "c + 16 * sz c \<le> up" "c < up" "c + 16 * sz c \<le> hi'" if "c \<in> B" for c
    using blocks_okD [OF bl that] up by simp_all
  then show *: "up \<notin> B" by blast
  show "blocks_ok lo hi' (insert up B) (sz(up := m))"
  proof (rule blocks_okI)
    fix b assume "b \<in> insert up B"
    then show "lo \<le> b \<and> b mod 16 = 0 \<and> 0 < (sz(up := m)) b \<and> b + 16 * (sz(up := m)) b \<le> hi'"
      using bl up below(3) * by (cases "b = up") (auto simp: blocks_ok_def)
  next
    fix b c assume "b \<in> insert up B" "c \<in> insert up B" "b < c"
    moreover from this have "b \<in> B" "b \<noteq> up" using below(2) by fastforce+
    ultimately show "b + 16 * (sz(up := m)) b \<le> c" using below(1) blocks_apart [OF bl] by auto
  qed
qed

lemma fits_above: "ring R ptr \<Longrightarrow> p \<in> R \<Longrightarrow> fits ptr b p \<Longrightarrow> x \<in> R \<Longrightarrow> b < x \<Longrightarrow> b < ptr p \<and> ptr p \<le> x"
  using is_next_pair [of R p "ptr p" x] unfolding ring_def fits_def by fastforce

lemma fits_below: "ring R ptr \<Longrightarrow> p \<in> R \<Longrightarrow> fits ptr b p \<Longrightarrow> x \<in> R \<Longrightarrow> x < b \<Longrightarrow> p < b \<and> x \<le> p"
  using is_next_pair [of R p "ptr p" x] unfolding ring_def fits_def by fastforce

text \<open>A block put into the ring: only its two neighbours can touch it.\<close>

lemma touch_above:
  assumes "ring R ptr" "p \<in> R" "fits ptr b p" and bl: "blocks_ok lo hi (insert b (R - {base})) sz" and "base < lo"
    and "x \<in> R - {base}" "b + 16 * sz b = x"
  shows "x = ptr p"
proof -
  have b: "lo \<le> b" "0 < sz b" using blocks_okD [OF bl, of b] by auto
  then have le: "b < ptr p" "ptr p \<le> x" using fits_above [OF assms(1-3), of x] assms(6,7) by auto
  moreover have "ptr p \<in> R - {base}" using ring_in [OF assms(1,2)] le b assms(5) by auto
  then have "b + 16 * sz b \<le> ptr p" using blocks_apart [OF bl _ _ le(1)] by auto
  ultimately show ?thesis using assms(7) by simp
qed

lemma touch_below:
  assumes "ring R ptr" "p \<in> R" "fits ptr b p" and bl: "blocks_ok lo hi (insert b (R - {base})) sz" and "base < lo"
    and "x \<in> R - {base}" "x + 16 * sz x = b"
  shows "x = p"
proof (rule ccontr)
  assume "x \<noteq> p"
  have x: "lo \<le> x" "0 < sz x" using blocks_okD [OF bl, of x] assms(6) by auto
  then have le: "p < b" "x \<le> p" using fits_below [OF assms(1-3), of x] assms(6,7) by auto
  then have "p \<in> R - {base}" "x < p" using assms(2,5) x \<open>x \<noteq> p\<close> by auto
  then have "x + 16 * sz x \<le> p" using blocks_apart [OF bl] assms(6) by auto
  then show False using assms(7) le by simp
qed

text \<open>
  The first half of a release: the block is in the ring, joined with the one behind it if they touch.
  The block in front of it may still touch it.
\<close>

definition half_free :: "nat \<Rightarrow> nat \<Rightarrow> nat \<Rightarrow> nat \<Rightarrow> nat \<Rightarrow> (nat \<Rightarrow> nat) \<Rightarrow> (nat \<Rightarrow> nat) \<Rightarrow> nat set \<Rightarrow> nat set \<Rightarrow> bool" where
  "half_free base lo hi p b ptr sz R L \<longleftrightarrow> ring R (ptr(p := b)) \<and> p \<in> R \<and> b \<in> R - {base} \<and> p \<noteq> b \<and> base \<in> R \<and> sz base = 0 \<and>
     L \<inter> R = {} \<and> blocks_ok lo hi (L \<union> (R - {base})) sz \<and>
     (\<forall>a\<in>R - {base}. a + 16 * sz a \<in> R - {base} \<longrightarrow> a = p \<and> a + 16 * sz a = b)"

lemma join_above:
  assumes r: "ring R ptr" and base: "base \<in> R" "sz base = 0" "base < lo" and dis: "insert b L \<inter> R = {}" "b \<notin> L"
    and bl: "blocks_ok lo hi (insert b L \<union> (R - {base})) sz" and co: "coalesced (R - {base}) sz"
    and p: "p \<in> R" and fits: "fits ptr b p"
  shows "if b + 16 * sz b = ptr p
     then half_free base lo hi p b (ptr(b := ptr (ptr p))) (sz(b := sz b + sz (ptr p))) (insert b R - {ptr p}) L
     else half_free base lo hi p b (ptr(b := ptr p)) sz (insert b R) L"
proof -
  define n F where "n = ptr p" and "F = R - {base}"
  have bF: "blocks_ok lo hi (insert b (R - {base})) sz" by (rule blocks_subset [OF bl]) auto
  have b0: "lo \<le> b" "b \<notin> R" "0 < sz b" "base < b" using blocks_okD [OF bF, of b] dis base by auto
  have n: "n \<in> R" using ring_in [OF r p] by (simp add: n_def)
  have above: "x = n" if "x \<in> F" "b + 16 * sz b = x" for x
    using touch_above [OF r p fits bF base(3)] that by (simp add: n_def F_def)
  have below: "x = p" if "x \<in> F" "x + 16 * sz x = b" for x
    using touch_below [OF r p fits bF base(3)] that by (simp add: F_def)
  have ins: "ring (insert b R) (ptr(b := n, p := b))" using ring_insert [OF r p b0(2) fits] by (simp add: n_def)
  have bp: "b \<noteq> p" using b0 p by auto
  have co': "a + 16 * sz a \<notin> F" if "a \<in> F" for a using co that by (simp add: coalesced_def F_def)
  show ?thesis
  proof (cases "b + 16 * sz b = n")
    case False
    then have "half_free base lo hi p b (ptr(b := n)) sz (insert b R) L"
      unfolding half_free_def using ins p base b0 bp dis bl co' above below
      by (auto simp: F_def insert_Diff_if)
    then show ?thesis using False by (simp add: n_def)
  next
    case True
    then have nF: "n \<in> F" "n \<noteq> b" "n \<noteq> base" using n b0 by (auto simp: F_def)
    have "n \<noteq> p"
    proof
      assume "n = p"
      moreover have "is_next R p n" using r p by (simp add: ring_def n_def)
      ultimately have "\<forall>x\<in>R. x = p" by (auto simp: is_next_def)
      then show False using base nF \<open>n = p\<close> by auto
    qed
    have ring1: "ring (insert b R - {n}) (ptr(b := ptr n, p := b))"
      using ring_remove [OF ins, of b] bp nF \<open>n \<noteq> p\<close> by (simp add: fun_upd_twist [OF bp])
    have blocks1: "blocks_ok lo hi (L \<union> (insert b R - {n} - {base})) (sz(b := sz b + sz n))"
      using blocks_merge [OF bl, of b n] True nF n dis by (rule_tac blocks_subset) (auto simp: F_def)
    have touch1: "a = p \<and> a + 16 * (sz(b := sz b + sz n)) a = b"
      if a: "a \<in> insert b R - {n} - {base}" "a + 16 * (sz(b := sz b + sz n)) a \<in> insert b R - {n} - {base}" for a
    proof (cases "a = b")
      case True
      with a \<open>b + 16 * sz b = n\<close> have "n + 16 * sz n \<in> insert b F" by (auto simp: F_def algebra_simps)
      then show ?thesis using co' [OF nF(1)] \<open>b + 16 * sz b = n\<close> b0(3) by auto
    next
      case False
      with a have aF: "a \<in> F" "a + 16 * sz a \<in> insert b F" by (auto simp: F_def)
      then have "a + 16 * sz a = b" using co' by auto
      with below [OF aF(1)] False show ?thesis by simp
    qed
    have "half_free base lo hi p b (ptr(b := ptr n)) (sz(b := sz b + sz n)) (insert b R - {n}) L"
      unfolding half_free_def
    proof (intro conjI)
      show "ring (insert b R - {n}) (ptr(b := ptr n, p := b))" by (rule ring1)
      show "blocks_ok lo hi (L \<union> (insert b R - {n} - {base})) (sz(b := sz b + sz n))" by (rule blocks1)
      show "\<forall>a\<in>insert b R - {n} - {base}. a + 16 * (sz(b := sz b + sz n)) a \<in> insert b R - {n} - {base} \<longrightarrow>
          a = p \<and> a + 16 * (sz(b := sz b + sz n)) a = b"
        using touch1 by blast
      show "L \<inter> (insert b R - {n}) = {}" using dis by blast
      show "p \<in> insert b R - {n}" "b \<in> insert b R - {n} - {base}" "p \<noteq> b" "base \<in> insert b R - {n}" "(sz(b := sz b + sz n)) base = 0"
        using p base(1,2) b0(4) bp nF(2,3) \<open>n \<noteq> p\<close> by auto
    qed
    then show ?thesis using True by (simp add: n_def)
  qed
qed

lemma join_below:
  assumes h: "half_free base lo hi p b ptr sz R L"
  shows "if p + 16 * sz p = b
     then ring (R - {b}) (ptr(p := ptr b)) \<and> blocks_ok lo hi (L \<union> (R - {b} - {base})) (sz(p := sz p + sz b)) \<and>
       coalesced (R - {b} - {base}) (sz(p := sz p + sz b)) \<and> p \<noteq> base
     else ring R (ptr(p := b)) \<and> blocks_ok lo hi (L \<union> (R - {base})) sz \<and> coalesced (R - {base}) sz"
proof (cases "p + 16 * sz p = b")
  case False
  then show ?thesis using h by (auto simp: half_free_def coalesced_def)
next
  case True
  have r: "ring R (ptr(p := b))" and p: "p \<in> R" "b \<in> R - {base}" "p \<noteq> b" and base: "base \<in> R" "sz base = 0" and dis: "L \<inter> R = {}"
    and bl: "blocks_ok lo hi (L \<union> (R - {base})) sz"
    and touch: "\<And>a. a \<in> R - {base} \<Longrightarrow> a + 16 * sz a \<in> R - {base} \<Longrightarrow> a = p \<and> a + 16 * sz a = b"
    using h by (auto simp: half_free_def)
  have pb: "p \<noteq> base" using True base p by auto
  have "ring (R - {b}) (ptr(p := ptr b))" using ring_remove [OF r p(1)] p(3) by simp
  moreover have "blocks_ok lo hi (L \<union> (R - {b} - {base})) (sz(p := sz p + sz b))"
    using blocks_merge [OF bl, of p b] True p pb dis by (rule_tac blocks_subset) auto
  moreover have "coalesced (R - {b} - {base}) (sz(p := sz p + sz b))"
    unfolding coalesced_def
  proof (intro ballI notI)
    fix a assume a: "a \<in> R - {b} - {base}" "a + 16 * (sz(p := sz p + sz b)) a \<in> R - {b} - {base}"
    show False
    proof (cases "a = p")
      case True
      with a \<open>p + 16 * sz p = b\<close> have "b + 16 * sz b \<in> R - {base}" by (auto simp: algebra_simps)
      then show False using touch [of b] p by simp
    next
      case False
      with a touch [of a] show False by auto
    qed
  qed
  ultimately show ?thesis using True pb by simp
qed

text \<open>Releasing a block: it is joined with the neighbours it touches and with no others.\<close>

lemma free_link_ok:
  fixes s :: "'o uheap"
  assumes ok: "uheap_ok base lo hi s R (insert b L)" and b: "b \<notin> L" and p: "p \<in> R" "fits (h_ptr s) b p"
    and hi: "hi < lo + 2 ^ 36"
  defines "s' \<equiv> free_link b p s"
  shows "\<exists>R'. uheap_ok base lo hi s' R' L \<and> freep s' = p \<and> os s' = os s \<and> (\<forall>c\<in>L. h_size s' c = h_size s c) \<and>
    extent (h_size s') (R' - {base}) = extent (h_size s) (insert b (R - {base})) \<and>
    (\<exists>x\<in>R' - {base}. h_size s b \<le> h_size s' x)"
proof -
  define ptr sz n where "ptr = h_ptr s" and "sz = h_size s" and "n = ptr p"
  have r: "ring R ptr" and base: "base \<in> R" "sz base = 0" "base < lo" and dis: "insert b L \<inter> R = {}"
    and bl: "blocks_ok lo hi (insert b L \<union> (R - {base})) sz" and co: "coalesced (R - {base}) sz" and "0 < base"
    using ok by (auto simp: uheap_ok_def ptr_def sz_def)
  define ptr1 sz1 R1 where "ptr1 = (if b + 16 * sz b = n then ptr(b := ptr n) else ptr(b := n))"
    and "sz1 = (if b + 16 * sz b = n then sz(b := sz b + sz n) else sz)"
    and "R1 = (if b + 16 * sz b = n then insert b R - {n} else insert b R)"
  have h: "half_free base lo hi p b ptr1 sz1 R1 L"
    using join_above [OF r base dis b bl co p(1)] p(2) by (auto simp: ptr1_def sz1_def R1_def n_def ptr_def)
  have small: "x < 2 ^ 32" if "a + 16 * x \<le> hi" "lo \<le> a" for a x using that hi by simp
  have hR: "p \<in> R1" "b \<in> R1 - {base}" "p \<noteq> b" "base \<in> R1" "sz1 base = 0" "L \<inter> R1 = {}"
    and bl1: "blocks_ok lo hi (L \<union> (R1 - {base})) sz1"
    using h by (auto simp: half_free_def)
  define D where "D \<longleftrightarrow> p + 16 * sz1 p = b"
  define R' where "R' = (if D then R1 - {b} else R1)"
  define sz' where "sz' = (if D then sz1(p := sz1 p + sz1 b) else sz1)"
  have fin: "ring R' (if D then ptr1(p := ptr1 b) else ptr1(p := b))" "blocks_ok lo hi (L \<union> (R' - {base})) sz'"
    "coalesced (R' - {base}) sz'" "D \<Longrightarrow> p \<noteq> base"
    using join_below [OF h] by (auto simp: D_def R'_def sz'_def split: if_splits)
  have "sz1 b < 2 ^ 32" using blocks_okD [OF bl1, of b] hR small by auto
  then have m1: "(sz b + sz n) mod 2 ^ 32 = sz b + sz n" if "b + 16 * sz b = n" using that by (simp add: sz1_def)
  have "sz1 p + sz1 b < 2 ^ 32" if D
    using blocks_okD [OF fin(2), of p] fin(4) hR that small [of p "sz1 p + sz1 b"] by (auto simp: R'_def sz'_def)
  then have m2: "(sz1 p + sz1 b) mod 2 ^ 32 = sz1 p + sz1 b" if D using that by simp
  define s1 where "s1 = (if b + 16 * h_size s b = h_ptr s p
    then set_ptr b (h_ptr s (h_ptr s p)) (set_size b (h_size s b + h_size s (h_ptr s p)) s) else set_ptr b (h_ptr s p) s)"
  have s1: "h_ptr s1 = ptr1" "h_size s1 = sz1" "os s1 = os s"
    using m1 by (auto simp: s1_def ptr1_def sz1_def n_def ptr_def sz_def set_ptr_def set_size_def)
  have "s' = (if D then set_ptr p (h_ptr s1 b) (set_size p (h_size s1 p + h_size s1 b) s1) else set_ptr p b s1)\<lparr>freep := p\<rparr>"
    unfolding s'_def free_link_def Let_def D_def s1(2) [symmetric] s1_def by (simp add: set_size_def)
  then have s': "h_ptr s' = (if D then ptr1(p := ptr1 b) else ptr1(p := b))" "h_size s' = sz'" "freep s' = p" "os s' = os s"
    using m2 s1 by (auto simp: set_ptr_def set_size_def sz'_def)
  have b0: "base < b" "0 < sz b" "sz b \<le> sz1 b" using blocks_okD [OF bl, of b] base by (auto simp: sz1_def)
  have "n \<in> R" using ring_in [OF r p(1)] by (simp add: n_def)
  then have nB: "n \<in> insert b (R - {base})" "b \<noteq> n" if "b + 16 * sz b = n" using that b0 by auto
  have extent1: "extent sz1 (R1 - {base}) = extent sz (insert b (R - {base}))"
  proof (cases "b + 16 * sz b = n")
    case True
    have "R1 - {base} = insert b (R - {base}) - {n}" unfolding R1_def if_P [OF True] using b0(1) by blast
    moreover have "extent (sz(b := sz b + sz n)) (insert b (R - {base}) - {n}) = extent sz (insert b (R - {base}))"
      by (rule extent_merge) (rule insertI1, rule nB(1) [OF True], rule nB(2) [OF True], rule True)
    ultimately show ?thesis unfolding sz1_def if_P [OF True] by (simp only:)
  next
    case False
    have "R1 - {base} = insert b (R - {base})" unfolding R1_def if_not_P [OF False] using b0(1) by blast
    then show ?thesis unfolding sz1_def if_not_P [OF False] by simp
  qed
  have "extent sz' (R' - {base}) = extent sz1 (R1 - {base})"
  proof (cases D)
    case True
    have "R' - {base} = R1 - {base} - {b}" unfolding R'_def if_P [OF True] by blast
    moreover have "p + 16 * sz1 p = b" using True by (simp add: D_def)
    ultimately show ?thesis unfolding sz'_def if_P [OF True]
      using extent_merge [of p "R1 - {base}" b sz1] hR(1-3) fin(4) [OF True] by simp
  next
    case False
    then show ?thesis unfolding sz'_def R'_def by simp
  qed
  with extent1 have "extent sz' (R' - {base}) = extent sz (insert b (R - {base}))" by simp
  moreover have "uheap_ok base lo hi s' R' L"
    unfolding uheap_ok_def s' using fin hR base \<open>0 < base\<close> by (auto simp: R'_def sz'_def)
  moreover have "\<forall>c\<in>L. sz' c = sz c" using hR b by (auto simp: sz'_def sz1_def)
  moreover have "\<exists>x\<in>R' - {base}. sz b \<le> sz' x"
  proof (cases D)
    case True
    then show ?thesis using b0 hR fin(4) by (intro bexI [of _ p]) (auto simp: sz'_def R'_def)
  next
    case False
    then show ?thesis using b0 hR by (intro bexI [of _ b]) (auto simp: sz'_def R'_def)
  qed
  ultimately show ?thesis using s' by (metis sz_def)
qed

lemma uheap_fresh: "uheap_ok base lo hi s R L \<Longrightarrow> freep s \<noteq> 0"
  by (auto simp: uheap_ok_def blocks_ok_def)

lemma free_user_ok:
  fixes s :: "'o uheap"
  assumes ok: "uheap_ok base lo hi s R (insert b L)" and b: "b \<notin> L" and hi: "hi < lo + 2 ^ 36"
  shows "\<exists>s' R'. free_user (b + 16) s = Inr s' \<and> uheap_ok base lo hi s' R' L \<and> os s' = os s \<and>
    (\<forall>c\<in>L. h_size s' c = h_size s c) \<and> extent (h_size s') (R' - {base}) = extent (h_size s) (insert b (R - {base})) \<and>
    (\<exists>x\<in>R' - {base}. h_size s b \<le> h_size s' x)"
proof -
  have r: "ring R (h_ptr s)" "freep s \<in> R" "b \<notin> R" using ok by (auto simp: uheap_ok_def)
  obtain t where t: "t \<in> R" "fits (h_ptr s) b t" "free_find (h_ptr s) b (freep s) = Some t"
    using free_find_ring [OF r] by blast
  have "free_user (b + 16) s = Inr (free_link b t s)" using t(3) uheap_fresh [OF ok] by (simp add: free_user_def)
  then show ?thesis using free_link_ok [OF ok b t(1,2) hi] by auto
qed

section \<open>The search for a block\<close>

lemma ring_cover:
  assumes r: "ring R ptr" and f: "f \<in> R" "(ptr ^^ k) (ptr f) = f" and x: "x \<in> R"
  shows "\<exists>j\<le>k. (ptr ^^ j) (ptr f) = x"
proof -
  let ?P = "\<lambda>j. (ptr ^^ j) (ptr f) = x"
  have "\<exists>j. ?P j" using ring_reach [OF r ring_in [OF r f(1)] x] .
  then have L: "?P (LEAST j. ?P j)" by (rule LeastI_ex)
  have "(LEAST j. ?P j) \<le> k"
  proof (rule ccontr)
    assume "\<not> (LEAST j. ?P j) \<le> k"
    then obtain d where d: "(LEAST j. ?P j) = d + Suc k" using le_add_diff_inverse2 [of "Suc k" "LEAST j. ?P j"] by (metis not_less_eq_eq)
    have "(ptr ^^ Suc k) (ptr f) = ptr f" using f(2) by simp
    then have "?P d" using L unfolding d funpow_add comp_apply by simp
    then have "(LEAST j. ?P j) \<le> d" by (rule Least_le)
    then show False using d by simp
  qed
  then show ?thesis using L by blast
qed

lemma malloc_loop_walk:
  assumes r: "ring R (h_ptr s)"
  shows "prev \<in> R \<Longrightarrow> \<forall>j<k. h_size s ((h_ptr s ^^ j) (h_ptr s prev)) < n \<and> (h_ptr s ^^ j) (h_ptr s prev) \<noteq> freep s \<Longrightarrow>
    \<exists>prev'\<in>R. h_ptr s prev' = (h_ptr s ^^ k) (h_ptr s prev) \<and>
      malloc_loop sbrk n prev (h_ptr s prev) s = malloc_loop sbrk n prev' (h_ptr s prev') s"
proof (induction k arbitrary: prev)
  case 0
  then show ?case by auto
next
  case (Suc k)
  let ?p = "h_ptr s prev"
  have "h_size s ?p < n" "?p \<noteq> freep s" using Suc.prems(2) [rule_format, of 0] by simp_all
  then have step: "malloc_loop sbrk n prev ?p s = malloc_loop sbrk n ?p (h_ptr s ?p) s"
    by (subst malloc_loop.simps) simp
  have "\<forall>j<k. h_size s ((h_ptr s ^^ j) (h_ptr s ?p)) < n \<and> (h_ptr s ^^ j) (h_ptr s ?p) \<noteq> freep s"
    using Suc.prems(2) [rule_format, of "Suc _"] by (auto simp: funpow_swap1)
  from Suc.IH [OF ring_in [OF r Suc.prems(1)] this] show ?case unfolding step by (simp add: funpow_swap1)
qed

text \<open>The search ends: at a block that is large enough if there is one, and with a request for memory if not.\<close>

lemma malloc_loop_ends:
  assumes r: "ring R (h_ptr s)" and f: "freep s \<in> R"
  shows "\<exists>prev\<in>R. malloc_loop sbrk n (freep s) (h_ptr s (freep s)) s = malloc_loop sbrk n prev (h_ptr s prev) s \<and>
    (n \<le> h_size s (h_ptr s prev) \<or> h_ptr s prev = freep s \<and> (\<forall>x\<in>R. h_size s x < n))"
proof -
  let ?p = "h_ptr s (freep s)" and ?it = "\<lambda>j. (h_ptr s ^^ j) (h_ptr s (freep s))"
  let ?P = "\<lambda>j. n \<le> h_size s (?it j) \<or> ?it j = freep s"
  have "\<exists>j. ?P j" using ring_reach [OF r ring_in [OF r f] f] by blast
  then have P: "?P (LEAST j. ?P j)" by (rule LeastI_ex)
  have before: "\<forall>j<LEAST j. ?P j. h_size s (?it j) < n \<and> ?it j \<noteq> freep s" using not_less_Least by fastforce
  obtain prev where prev: "prev \<in> R" "h_ptr s prev = ?it (LEAST j. ?P j)"
    "malloc_loop sbrk n (freep s) ?p s = malloc_loop sbrk n prev (h_ptr s prev) s"
    using malloc_loop_walk [OF r f before] by blast
  have "h_size s x < n" if small: "h_size s (?it (LEAST j. ?P j)) < n" and x: "x \<in> R" for x
  proof -
    have "?it (LEAST j. ?P j) = freep s" using P small by auto
    then obtain j where j: "j \<le> (LEAST j. ?P j)" "?it j = x" using ring_cover [OF r f _ x] by blast
    then show ?thesis using before small by (cases "j = (LEAST j. ?P j)") auto
  qed
  then show ?thesis using prev P by (metis not_le)
qed

section \<open>Taking a block\<close>

lemma blocks_split:
  assumes bl: "blocks_ok lo hi B sz" and p: "p \<in> B" and n: "0 < n" "n < sz p"
  defines "c \<equiv> p + 16 * (sz p - n)"
  shows "c \<notin> B" "blocks_ok lo hi (insert c B) (sz(p := sz p - n, c := n))"
    "extent (sz(p := sz p - n, c := n)) (insert c B) = extent sz B"
proof -
  note d = blocks_apart [OF bl] and b = blocks_okD [OF bl]
  have e: "c + 16 * n = p + 16 * sz p" using n by (simp add: c_def right_diff_distrib')
  have pc: "p < c" "c < p + 16 * sz p" using n e by (simp_all add: c_def)
  show c: "c \<notin> B" using d [OF p, of c] pc by auto
  have al: "p mod 16 = 0" using bl p by (simp add: blocks_ok_def)
  then have cm: "c mod 16 = 0" unfolding c_def by presburger
  have low: "x + 16 * sz x \<le> c" if "x \<in> B" "x < c" "x \<noteq> p" for x
  proof -
    have "x < p" using d [OF p that(1)] that pc by linarith
    then show ?thesis using d [OF that(1) p] pc by simp
  qed
  show "blocks_ok lo hi (insert c B) (sz(p := sz p - n, c := n))"
  proof (rule blocks_okI)
    fix x assume "x \<in> insert c B"
    then consider "x = c" | "x = p" | "x \<in> B" "x \<noteq> c" "x \<noteq> p" by blast
    then show "lo \<le> x \<and> x mod 16 = 0 \<and> 0 < (sz(p := sz p - n, c := n)) x \<and> x + 16 * (sz(p := sz p - n, c := n)) x \<le> hi"
    proof cases
      case 1
      then show ?thesis using b [OF p] cm pc e n by simp
    next
      case 2
      then show ?thesis using b [OF p] al pc e n by (simp flip: c_def)
    next
      case 3
      then show ?thesis using bl by (simp add: blocks_ok_def)
    qed
  next
    fix x y assume "x \<in> insert c B" "y \<in> insert c B" "x < y"
    then consider "x = c" "y \<in> B" "c < y" | "x = p" "y = c" | "x = p" "y \<in> B" "p < y" "y \<noteq> c"
      | "x \<in> B" "x \<noteq> c" "x \<noteq> p" "y = c" "x < c" | "x \<in> B" "x \<noteq> c" "x \<noteq> p" "y \<in> B" "x < y" by blast
    then show "x + 16 * (sz(p := sz p - n, c := n)) x \<le> y"
    proof cases
      case 1
      then show ?thesis using d [OF p 1(2)] pc e by simp
    next
      case 3
      then show ?thesis using d [OF p 3(2,3)] pc by (simp flip: c_def)
    qed (use pc d low in \<open>simp_all flip: c_def\<close>)
  qed
  have "{p..<p + 16 * sz p} = {p..<c} \<union> {c..<c + 16 * n}" using pc e by auto
  moreover note extent_peel [OF p, of sz]
  moreover have "extent (sz(p := sz p - n, c := n)) (insert c B) = ({p..<c} \<union> {c..<c + 16 * n}) \<union> extent sz (B - {p})"
  proof -
    let ?sz = "sz(p := sz p - n, c := n)"
    have "insert c B - {c} = B" using c by simp
    then have "extent ?sz (insert c B) = {c..<c + 16 * n} \<union> ({p..<c} \<union> extent ?sz (B - {p}))"
      using extent_peel [of c "insert c B" ?sz] extent_peel [OF p, of ?sz] pc(1) by (simp add: c_def)
    moreover have "extent ?sz (B - {p}) = extent sz (B - {p})" using c by (intro extent_cong) auto
    ultimately show ?thesis by blast
  qed
  ultimately show "extent (sz(p := sz p - n, c := n)) (insert c B) = extent sz B" by simp
qed

lemma take_block_ok:
  fixes s :: "'o uheap"
  assumes ok: "uheap_ok base lo hi s R L" and hi: "hi < lo + 2 ^ 36" and prev: "prev \<in> R" "h_ptr s prev = p"
    and n: "0 < n" "n \<le> h_size s p"
  obtains b s' R' where "take_block n prev p s = (b + 16, s')" "uheap_ok base lo hi s' R' (insert b L)" "b \<notin> L"
    "h_size s' b = n" "os s' = os s" "\<forall>c\<in>L. h_size s' c = h_size s c"
    "extent (h_size s') (insert b L \<union> (R' - {base})) = extent (h_size s) (L \<union> (R - {base}))"
proof -
  define ptr sz where "ptr = h_ptr s" and "sz = h_size s"
  have r: "ring R ptr" and base: "base \<in> R" "sz base = 0" "0 < base" "base < lo" and dis: "L \<inter> R = {}"
    and bl: "blocks_ok lo hi (L \<union> (R - {base})) sz" and co: "coalesced (R - {base}) sz" and f: "freep s \<in> R"
    using ok by (auto simp: uheap_ok_def ptr_def sz_def)
  have p: "p \<in> R" "p \<noteq> base" "n \<le> sz p" using ring_in [OF r prev(1)] prev(2) n base by (auto simp: ptr_def sz_def)
  have pp: "prev \<noteq> p"
  proof
    assume "prev = p"
    moreover have "is_next R prev (ptr prev)" using r prev by (simp add: ring_def)
    ultimately have "\<forall>x\<in>R. x = p" using prev(2) by (auto simp: is_next_def ptr_def)
    then show False using base p by auto
  qed
  have small: "sz p < 2 ^ 32" using blocks_okD [OF bl, of p] p hi by auto
  show ?thesis
  proof (cases "sz p = n")
    case True
    let ?s = "(set_ptr prev (h_ptr s p) s)\<lparr>freep := prev\<rparr>"
    have ring': "ring (R - {p}) (h_ptr ?s)"
      using ring_remove [OF r prev(1)] prev(2) pp by (simp add: set_ptr_def ptr_def)
    have sets: "insert p L \<union> (R - {p} - {base}) = L \<union> (R - {base})" using p by auto
    have ok': "uheap_ok base lo hi ?s (R - {p}) (insert p L)"
      unfolding uheap_ok_def sets using ring' base prev(1) pp p dis bl co
      by (auto simp: set_ptr_def sz_def coalesced_def)
    have tb: "take_block n prev p s = (p + 16, ?s)" using True by (simp add: take_block_def sz_def)
    have "extent (h_size ?s) (insert p L \<union> (R - {p} - {base})) = extent (h_size s) (L \<union> (R - {base}))"
      unfolding sets by (simp add: set_ptr_def)
    then show ?thesis using that [OF tb ok'] p dis True by (auto simp: set_ptr_def sz_def)
  next
    case False
    define c where "c = p + 16 * (sz p - n)"
    have n': "n < sz p" using False p by simp
    note sp = blocks_split [OF bl _ n(1) n', folded c_def]
    have pB: "p \<in> L \<union> (R - {base})" using p by simp
    let ?s = "(set_size c n (set_size p (sz p - n) s))\<lparr>freep := prev\<rparr>"
    have sz': "h_size ?s = sz(p := sz p - n, c := n)" "h_ptr ?s = ptr"
      using small n' by (simp_all add: set_size_def sz_def ptr_def)
    have c: "c \<notin> L" "c \<notin> R" "c \<noteq> p" "c \<noteq> base" using sp(1) [OF pB] n' blocks_okD [OF bl pB] base(4) by (auto simp: c_def)
    have tb: "take_block n prev p s = (c + 16, ?s)"
      using False small n' by (simp add: take_block_def sz_def c_def set_size_def Let_def)
    have sets: "insert c L \<union> (R - {base}) = insert c (L \<union> (R - {base}))" by simp
    have co': "coalesced (R - {base}) (sz(p := sz p - n, c := n))"
      using co c by (auto simp: coalesced_def c_def)
    have ok': "uheap_ok base lo hi ?s R (insert c L)"
      unfolding uheap_ok_def sets sz' using sp(2) [OF pB] co' base prev(1) dis c p r by auto
    have "extent (h_size ?s) (insert c L \<union> (R - {base})) = extent (h_size s) (L \<union> (R - {base}))"
      unfolding sets sz' using sp(3) [OF pB] by (simp add: sz_def)
    moreover have "\<forall>x\<in>L. h_size ?s x = h_size s x" unfolding sz' using dis p c by (auto simp: sz_def)
    moreover have "h_size ?s c = n" unfolding sz' by simp
    moreover have "os ?s = os s" by (simp add: set_size_def)
    ultimately show ?thesis using that [OF tb ok' c(1)] by blast
  qed
qed

end
