(* ===== verification/User_Malloc.thy ===== *)
theory User_Malloc
  imports User_Heap
begin

text \<open>
  The allocator of \<^verbatim>\<open>libc/malloc.c\<close> over a system that provides memory: the interface of
  \<^verbatim>\<open>sbrk\<close>, the correctness of \<^verbatim>\<open>malloc\<close> and \<^verbatim>\<open>free\<close> under it, and the kernel's heap
  request as an implementation of it.
\<close>

section \<open>The system below\<close>

text \<open>
  What the allocator relies on: the system call returns the end of a data area that only grows, by at
  least what was asked for and at most a page more, as long as the area stays below a limit.
\<close>

locale sbrk_source =
  fixes sbrk :: "int \<Rightarrow> 'o \<Rightarrow> (u64 \<times> 'o) res" and brk :: "'o \<Rightarrow> nat" and good :: "'o \<Rightarrow> bool" and lo limit :: nat
  assumes sbrk_grows: "good t \<Longrightarrow> 0 \<le> n \<Longrightarrow> brk t + nat n + 4096 \<le> limit \<Longrightarrow> sbrk n t = Inr (a, t') \<Longrightarrow>
      good t' \<and> unat a = brk t \<and> brk t + nat n \<le> brk t' \<and> brk t' \<le> brk t + nat n + 4096"
    and good_brk: "good t \<Longrightarrow> lo \<le> brk t \<and> brk t mod sizeof_Header = 0"
    and limits: "limit < lo + 2 ^ 36" "limit < 2 ^ 63"

text \<open>The heap of a program with the blocks \<open>L\<close> in use: not used yet, or in order.\<close>

definition uheap_inv :: "('o \<Rightarrow> nat) \<Rightarrow> ('o \<Rightarrow> bool) \<Rightarrow> nat \<Rightarrow> nat \<Rightarrow> nat \<Rightarrow> 'o uheap \<Rightarrow> nat set \<Rightarrow> bool" where
  "uheap_inv brk good lo limit base s L \<longleftrightarrow> good (os s) \<and> brk (os s) \<le> limit \<and>
     (freep s = 0 \<and> L = {} \<and> 0 < base \<and> base < lo \<or> (\<exists>R. uheap_ok base lo (brk (os s)) s R L))"

lemma units_small:
  assumes "unat nbytes < 2 ^ 31 - 32"
  shows "units nbytes = (unat nbytes + 15) div 16 + 1" "0 < units nbytes" "units nbytes < 2 ^ 27"
    "unat nbytes \<le> 16 * (units nbytes - 1)" "to_int (int (units nbytes)) = int (units nbytes)"
proof -
  have "unat (nbytes + 15) = unat nbytes + 15" using assms by (simp add: unat_word_ariths)
  then show u: "units nbytes = (unat nbytes + 15) div 16 + 1" using assms by (simp add: units_def)
  show "0 < units nbytes" by (simp add: u)
  show small: "units nbytes < 2 ^ 27" using assms by (simp add: u less_mult_imp_div_less)
  show "unat nbytes \<le> 16 * (units nbytes - 1)" by (simp add: u)
  show "to_int (int (units nbytes)) = int (units nbytes)" using small by (simp add: to_int_def)
qed

context sbrk_source
begin

lemma morecore_ok:
  fixes s :: "'o uheap"
  assumes ok: "uheap_ok base lo (brk (os s)) s R L" and g: "good (os s)"
    and nu: "0 \<le> nu" "nu < 2 ^ 27" and room: "brk (os s) + 16 * nat (max nu 1024) + 4096 \<le> limit"
  shows "case sbrk (16 * max nu 1024) (os s) of
      Inl e \<Rightarrow> morecore sbrk nu s = Inl e
    | Inr _ \<Rightarrow> \<exists>s' R'. morecore sbrk nu s = Inr (freep s', s') \<and> freep s' \<noteq> 0 \<and> good (os s') \<and> brk (os s) \<le> brk (os s') \<and>
        brk (os s') \<le> limit \<and> uheap_ok base lo (brk (os s')) s' R' L \<and> (\<forall>c\<in>L. h_size s' c = h_size s c) \<and>
        (\<exists>x\<in>R' - {base}. nat nu \<le> h_size s' x)"
proof -
  define m where "m = max nu 1024"
  have m: "(if nu < NALLOC then NALLOC else nu) = m" "to_int (m * 16) = 16 * m" "0 \<le> m" "nu \<le> m" "m < 2 ^ 27" "0 < m"
    using nu by (auto simp: m_def to_int_def)
  show ?thesis
  proof (cases "sbrk (16 * m) (os s)")
    case (Inl e)
    then show ?thesis by (simp add: morecore_def m m_def [symmetric] Let_def)
  next
    case (Inr x)
    obtain cp t where x: "x = (cp, t)" by (cases x)
    have "nat (16 * m) = 16 * nat m" by simp
    then have t: "good t" "unat cp = brk (os s)" "brk (os s) + 16 * nat m \<le> brk t" "brk t \<le> limit"
      using sbrk_grows [OF g, of "16 * m" cp t] Inr x room m by (auto simp: m_def)
    define up where "up = brk (os s)"
    have up: "lo \<le> up" "up mod 16 = 0" using good_brk [OF g] by (auto simp: up_def)
    have "cp \<noteq> - 1" using t(2) room limits(2) by (auto simp: unsigned_minus_1_eq_mask mask_eq_exp_minus_1)
    define s0 where "s0 = set_size up (nat m) (s\<lparr>os := t\<rparr>)"
    have s0: "h_ptr s0 = h_ptr s" "h_size s0 = (h_size s)(up := nat m)" "freep s0 = freep s" "os s0 = t"
      using m by (simp_all add: s0_def set_size_def nat_less_iff)
    have bl: "blocks_ok lo (brk (os s)) (L \<union> (R - {base})) (h_size s)" and base: "base \<in> R" "base < lo" "h_size s base = 0"
      using ok by (auto simp: uheap_ok_def)
    have fresh: "up \<notin> L" "up \<notin> R"
      and "blocks_ok lo (brk t) (insert up (L \<union> (R - {base}))) ((h_size s)(up := nat m))"
      using blocks_new [OF bl, of up "nat m" "brk t"] up t m base by (auto simp: up_def)
    then have ok0: "uheap_ok base lo (brk t) s0 R (insert up L)"
      using ok fresh base up unfolding uheap_ok_def s0 by (auto simp: coalesced_def)
    have "brk t < lo + 2 ^ 36" using t limits by simp
    from free_user_ok [OF ok0 fresh(1) this] obtain s' R' where s': "free_user (up + 16) s0 = Inr s'" "uheap_ok base lo (brk t) s' R' L"
      "os s' = t" "\<forall>c\<in>L. h_size s' c = h_size s0 c" "\<exists>x\<in>R' - {base}. nat m \<le> h_size s' x"
      unfolding s0 by auto
    have "morecore sbrk nu s = Inr (freep s', s')"
      using Inr x t(2) \<open>cp \<noteq> - 1\<close> s'(1) by (simp add: morecore_def m Let_def s0_def up_def)
    moreover have "\<exists>x\<in>R' - {base}. nat nu \<le> h_size s' x" using s'(5) m(4) by (meson nat_mono order_trans)
    moreover have "\<forall>c\<in>L. h_size s' c = h_size s c" using s'(4) fresh by (auto simp: s0)
    ultimately show ?thesis using Inr t s' uheap_fresh [OF s'(2)] by (simp add: m_def) blast
  qed
qed

end

context sbrk_source
begin

text \<open>The heap of the first call.\<close>

lemma uheap_first:
  assumes "good (os s)" "0 < base" "base < lo"
  shows "uheap_ok base lo (brk (os s)) (set_size base 0 ((set_ptr base base s)\<lparr>freep := base\<rparr>)) {base} {}"
  using assms by (simp add: uheap_ok_def ring_def is_next_def set_size_def set_ptr_def blocks_ok_def coalesced_def)

text \<open>A loop over a heap that holds a large enough block.\<close>

lemma malloc_loop_found:
  fixes s :: "'o uheap"
  assumes ok: "uheap_ok base lo hi s R L" and hi: "hi < lo + 2 ^ 36" and n: "0 < n" and x: "x \<in> R" "n \<le> h_size s x"
  obtains b s' R' where "malloc_loop sbrk n (freep s) (h_ptr s (freep s)) s = Some (Inr (b + 16, s'))"
    "uheap_ok base lo hi s' R' (insert b L)" "b \<notin> L" "h_size s' b = n" "os s' = os s" "\<forall>c\<in>L. h_size s' c = h_size s c"
proof -
  have r: "ring R (h_ptr s)" "freep s \<in> R" using ok by (auto simp: uheap_ok_def)
  obtain prev where prev: "prev \<in> R" "n \<le> h_size s (h_ptr s prev)"
    "malloc_loop sbrk n (freep s) (h_ptr s (freep s)) s = malloc_loop sbrk n prev (h_ptr s prev) s"
    using malloc_loop_ends [OF r, of sbrk n] x by (metis not_le)
  obtain b s' R' where t: "take_block n prev (h_ptr s prev) s = (b + 16, s')" "uheap_ok base lo hi s' R' (insert b L)" "b \<notin> L"
    "h_size s' b = n" "os s' = os s" "\<forall>c\<in>L. h_size s' c = h_size s c"
    using take_block_ok [OF ok hi prev(1) refl n prev(2)] .
  have "malloc_loop sbrk n (freep s) (h_ptr s (freep s)) s = Some (Inr (b + 16, s'))"
    unfolding prev(3) using prev(2) by (subst malloc_loop.simps) (simp add: t(1))
  from that [OF this t(2-)] show ?thesis .
qed

text \<open>What a call of \<open>malloc\<close> gives: a block of the right size that was nobody's.\<close>

definition served :: "nat \<Rightarrow> nat \<Rightarrow> 'o uheap \<Rightarrow> nat set \<Rightarrow> nat \<times> 'o uheap \<Rightarrow> bool" where
  "served base n s L out \<longleftrightarrow> (\<exists>b s'. out = (b + 16, s') \<and> b \<notin> L \<and> h_size s' b = n \<and> (\<forall>c\<in>L. h_size s' c = h_size s c) \<and>
     good (os s') \<and> brk (os s) \<le> brk (os s') \<and> brk (os s') \<le> limit \<and>
     (\<exists>R'. uheap_ok base lo (brk (os s')) s' R' (insert b L)))"

lemma malloc_loop_served:
  fixes s :: "'o uheap"
  assumes ok: "uheap_ok base lo (brk (os s)) s R L" and g: "good (os s)" "brk (os s) \<le> limit"
    and n: "0 < n" "n < 2 ^ 27" "to_int (int n) = int n" and room: "brk (os s) + 16 * max n 1024 + 4096 \<le> limit"
  shows "(\<exists>out. malloc_loop sbrk n (freep s) (h_ptr s (freep s)) s = Some (Inr out) \<and> served base n s L out) \<or>
    (\<exists>e. sbrk (int (16 * max n 1024)) (os s) = Inl e \<and>
       malloc_loop sbrk n (freep s) (h_ptr s (freep s)) s = Some (Inl e))"
proof (cases "\<exists>x\<in>R. n \<le> h_size s x")
  case True
  then obtain x where x: "x \<in> R" "n \<le> h_size s x" by blast
  have hi: "brk (os s) < lo + 2 ^ 36" using g limits by simp
  obtain b s' R' where t: "malloc_loop sbrk n (freep s) (h_ptr s (freep s)) s = Some (Inr (b + 16, s'))"
    "uheap_ok base lo (brk (os s)) s' R' (insert b L)" "b \<notin> L" "h_size s' b = n" "os s' = os s" "\<forall>c\<in>L. h_size s' c = h_size s c"
    by (rule malloc_loop_found [OF ok hi n(1) x])
  then have "served base n s L (b + 16, s')" using g unfolding served_def by auto
  with t(1) show ?thesis by blast
next
  case False
  have r: "ring R (h_ptr s)" "freep s \<in> R" using ok by (auto simp: uheap_ok_def)
  obtain prev where prev: "prev \<in> R" "h_ptr s prev = freep s" "h_size s (freep s) < n"
    "malloc_loop sbrk n (freep s) (h_ptr s (freep s)) s = malloc_loop sbrk n prev (h_ptr s prev) s"
    using malloc_loop_ends [OF r, of sbrk n] False r(2) ring_in [OF r(1)] by (metis not_le)
  let ?k = "int (16 * max n 1024)"
  have k: "16 * max (int n) 1024 = ?k" "nat (max (int n) 1024) = max n 1024" by auto
  have step: "malloc_loop sbrk n (freep s) (h_ptr s (freep s)) s =
    (case morecore sbrk (int n) s of Inl e \<Rightarrow> Some (Inl e)
     | Inr (p, s) \<Rightarrow> if p = 0 then Some (Inr (0, s)) else malloc_loop sbrk n p (h_ptr s p) s)"
    unfolding prev(4) using prev(2,3) n(3) by (subst malloc_loop.simps) simp
  note more = morecore_ok [OF ok g(1), of "int n", unfolded k]
  show ?thesis
  proof (cases "sbrk ?k (os s)")
    case (Inl e)
    with more n room have "morecore sbrk (int n) s = Inl e" by simp
    then show ?thesis using Inl step by simp
  next
    case (Inr y)
    with more n room obtain s1 R1 where s1: "morecore sbrk (int n) s = Inr (freep s1, s1)" "freep s1 \<noteq> 0" "good (os s1)"
      "brk (os s) \<le> brk (os s1)" "brk (os s1) \<le> limit" "uheap_ok base lo (brk (os s1)) s1 R1 L"
      "\<forall>c\<in>L. h_size s1 c = h_size s c" "\<exists>x\<in>R1 - {base}. n \<le> h_size s1 x"
      by auto
    then obtain x where x: "x \<in> R1" "n \<le> h_size s1 x" by blast
    have hi: "brk (os s1) < lo + 2 ^ 36" using s1(5) limits by simp
    obtain b s' R' where t: "malloc_loop sbrk n (freep s1) (h_ptr s1 (freep s1)) s1 = Some (Inr (b + 16, s'))"
      "uheap_ok base lo (brk (os s1)) s' R' (insert b L)" "b \<notin> L" "h_size s' b = n" "os s' = os s1" "\<forall>c\<in>L. h_size s' c = h_size s1 c"
      by (rule malloc_loop_found [OF s1(6) hi n(1) x])
    then have "served base n s L (b + 16, s')" using s1 unfolding served_def by auto
    then show ?thesis using step s1(1,2) t(1) by auto
  qed
qed

lemma malloc_served:
  fixes s :: "'o uheap"
  assumes inv: "uheap_inv brk good lo limit base s L" and n: "unat nbytes < 2 ^ 31 - 32"
    and room: "brk (os s) + 16 * max (units nbytes) 1024 + 4096 \<le> limit"
  shows "(\<exists>out. malloc_user base sbrk nbytes s = Inr out \<and> served base (units nbytes) s L out) \<or>
    (\<exists>e. sbrk (int (16 * max (units nbytes) 1024)) (os s) = Inl e \<and> malloc_user base sbrk nbytes s = Inl e)"
proof -
  define s0 where "s0 = (if freep s = 0 then set_size base 0 ((set_ptr base base s)\<lparr>freep := base\<rparr>) else s)"
  have g: "good (os s)" "brk (os s) \<le> limit" using inv by (auto simp: uheap_inv_def)
  have os: "os s0 = os s" by (simp add: s0_def set_size_def set_ptr_def)
  have "\<exists>R. uheap_ok base lo (brk (os s)) s0 R L"
  proof (cases "freep s = 0")
    case True
    then have "L = {}" "0 < base" "base < lo" using inv uheap_fresh unfolding uheap_inv_def by blast+
    then show ?thesis using uheap_first [OF g(1)] True by (auto simp: s0_def)
  next
    case False
    then show ?thesis using inv by (auto simp: s0_def uheap_inv_def)
  qed
  then obtain R where ok: "uheap_ok base lo (brk (os s0)) s0 R L" by (auto simp: os)
  have sz: "h_size s0 c = h_size s c" if "c \<in> L" for c
  proof (cases "freep s = 0")
    case True
    then show ?thesis using inv uheap_fresh that unfolding uheap_inv_def by blast
  qed (simp add: s0_def)
  have mal: "malloc_user base sbrk nbytes s =
    (case malloc_loop sbrk (units nbytes) (freep s0) (h_ptr s0 (freep s0)) s0 of None \<Rightarrow> Inl Hang | Some res \<Rightarrow> res)"
    by (simp add: malloc_user_def s0_def Let_def)
  have "served base (units nbytes) s L out" if "served base (units nbytes) s0 L out" for out
    using that sz unfolding served_def os by auto
  then show ?thesis
    using malloc_loop_served [OF ok, of "units nbytes"] units_small [OF n] g room unfolding mal os by auto
qed

end

section \<open>The kernel's heap request\<close>

text \<open>
  The heap area of the running task behind the system call: it starts at the address the program
  loaders give it, and the allocator may fill 64 gigabytes of it.
\<close>

definition heap_lo :: nat where "heap_lo = 0x4B0FFFFF0000"
definition heap_limit :: nat where "heap_limit = heap_lo + 2 ^ 36 - 4096"
definition heap_brk :: "'a kernel_scheme \<Rightarrow> nat" where "heap_brk s = unat (heap_end s)"

definition heap_good :: "'a kernel_scheme \<Rightarrow> bool" where
  "heap_good s \<longleftrightarrow> 2 \<le> length (t_vm (cur s)) \<and> heap_lo \<le> heap_brk s \<and> heap_brk s mod 4096 = 0"

lemma malloc_pages_end:
  assumes "malloc_pages n s = Inr s'" "2 \<le> length (t_vm (cur s))"
  shows "heap_end s' = heap_end s + 4096 * of_nat n \<and> length (t_vm (cur s')) = length (t_vm (cur s))"
  using assms
proof (induction n arbitrary: s)
  case (Suc n)
  from Suc.prems obtain s1 f s2 where s1: "allocate_page s = Inr (f, s1)"
    "init_pages_for_process (heap_end s) f (t_pml4e (cur s1) + KERNBASE) s1 = Inr s2"
    and rest: "malloc_pages n (set_task (r s2) ((cur s2)\<lparr>t_vm := (t_vm (cur s2))[1 := (t_vm (cur s) ! 1)\<lparr>vm_end := heap_end s + 4096\<rparr>]\<rparr>) s2) = Inr s'"
    by (auto simp: res_simps Let_def)
  have same: "q s2 = q s" "r s2 = r s"
    using more_kernel [OF more_allocate_page [OF s1(1)]] more_kernel [OF more_init_pages_for_process [OF s1(2)]] by auto
  show ?case using Suc.IH [OF rest] Suc.prems(2) by (simp add: same algebra_simps)
qed simp

lemma malloc_end:
  assumes run: "malloc n s = Inr (a, s')" and n: "0 \<le> n" and g: "heap_good s" and room: "heap_brk s + nat n + 4096 \<le> heap_limit"
  shows "heap_good s' \<and> unat a = heap_brk s \<and> heap_brk s + nat n \<le> heap_brk s' \<and> heap_brk s' \<le> heap_brk s + nat n + 4096"
proof -
  define k where "k = nat n div 4096 + 1"
  have len: "2 \<le> length (t_vm (cur s))" using g by (simp add: heap_good_def)
  have a: "a = heap_end s" and p: "malloc_pages k s = Inr s'"
    using run len n by (auto simp: malloc_def Let_def malloc_pages_of_bytes res_simps k_def)
  note e = malloc_pages_end [OF p len]
  have k: "4096 * k \<le> nat n + 4096" "nat n \<le> 4096 * k" by (simp_all add: k_def)
  have lt: "unat (heap_end s) + 4096 * k < 2 ^ 47"
    using k(1) room unfolding heap_limit_def heap_lo_def heap_brk_def by simp
  then have "unat (4096 * of_nat k :: u64) = 4096 * k" by (simp add: unat_word_ariths unat_of_nat)
  then have b: "heap_brk s' = heap_brk s + 4096 * k"
    using e lt unfolding heap_brk_def by (simp add: unat_word_ariths)
  then have "heap_brk s' mod 4096 = 0" using g by (simp add: heap_good_def)
  then show ?thesis using a b k e g len by (simp add: heap_good_def heap_brk_def)
qed

interpretation kheap: sbrk_source malloc heap_brk heap_good heap_lo heap_limit
proof unfold_locales
  show "heap_lo \<le> heap_brk t \<and> heap_brk t mod sizeof_Header = 0" if "heap_good t" for t :: "'a kernel_scheme"
    using that mod_mod_cancel [of 16 4096 "heap_brk t"] by (simp add: heap_good_def)
  show "heap_limit < heap_lo + 2 ^ 36" "heap_limit < 2 ^ 63" by (simp_all add: heap_limit_def heap_lo_def)
qed (rule malloc_end)

section \<open>The two calls\<close>

text \<open>
  Memory that a program gets from \<open>malloc\<close> of the library, over the kernel's heap request: the block is
  aligned, holds the bytes asked for, lies in the mapped heap, overlaps no block the program still has,
  and the heap is in order again with the new block among those in use.
\<close>

theorem malloc_user_fresh:
  assumes inv: "uheap_inv heap_brk heap_good heap_lo heap_limit base s L" and n: "unat nbytes < 2 ^ 31 - 32"
    and room: "heap_brk (os s) + 16 * max (units nbytes) 1024 + 4096 \<le> heap_limit"
    and run: "malloc_user base malloc nbytes s = Inr (a, s')"
  shows "\<exists>b. a = b + 16 \<and> b \<notin> L \<and> a mod 16 = 0 \<and> unat nbytes \<le> 16 * (h_size s' b - 1) \<and>
    heap_lo \<le> b \<and> b + 16 * h_size s' b \<le> heap_brk (os s') \<and>
    (\<forall>c\<in>L. h_size s' c = h_size s c \<and> (c + 16 * h_size s c \<le> b \<or> b + 16 * h_size s' b \<le> c)) \<and>
    uheap_inv heap_brk heap_good heap_lo heap_limit base s' (insert b L)"
proof -
  have "kheap.served base (units nbytes) s L (a, s')"
    using kheap.malloc_served [OF inv n room] run by auto
  then obtain b R' where b: "a = b + 16" "b \<notin> L" "h_size s' b = units nbytes" "\<forall>c\<in>L. h_size s' c = h_size s c"
    "heap_good (os s')" "heap_brk (os s') \<le> heap_limit" and ok: "uheap_ok base heap_lo (heap_brk (os s')) s' R' (insert b L)"
    unfolding kheap.served_def by auto
  have bl: "blocks_ok heap_lo (heap_brk (os s')) (insert b L) (h_size s')"
    using ok by (auto simp: uheap_ok_def intro: blocks_subset)
  have "c + 16 * h_size s' c \<le> b \<or> b + 16 * h_size s' b \<le> c" if "c \<in> L" for c
    using blocks_apart [OF bl, of b c] blocks_apart [OF bl, of c b] that b(2) by (cases "b < c") fastforce+
  moreover have "uheap_inv heap_brk heap_good heap_lo heap_limit base s' (insert b L)"
    using b ok by (auto simp: uheap_inv_def)
  moreover have "b mod 16 = 0" using bl by (simp add: blocks_ok_def)
  ultimately show ?thesis
    using b units_small(4) [OF n] blocks_okD [OF bl, of b] by (intro exI [of _ b]) auto
qed

text \<open>
  C23. \<open>free\<close> always finds the block's place: for every block in use the search ends, the other blocks keep
  their sizes, and the heap is in order with that block no longer in use. In particular no two free
  blocks touch: each release joins what can be joined.
\<close>

theorem free_user_releases:
  assumes inv: "uheap_inv heap_brk heap_good heap_lo heap_limit base s L" and b: "b \<in> L"
  shows "\<exists>s'. free_user (b + 16) s = Inr s' \<and> uheap_inv heap_brk heap_good heap_lo heap_limit base s' (L - {b}) \<and>
    (\<forall>c\<in>L - {b}. h_size s' c = h_size s c) \<and>
    (\<exists>R. uheap_ok base heap_lo (heap_brk (os s')) s' R (L - {b}) \<and> coalesced (R - {base}) (h_size s'))"
proof -
  have bL: "insert b (L - {b}) = L" using b by blast
  obtain R where ok: "uheap_ok base heap_lo (heap_brk (os s)) s R (insert b (L - {b}))" and g: "heap_good (os s)" "heap_brk (os s) \<le> heap_limit"
    using inv b unfolding uheap_inv_def bL by auto
  have "heap_brk (os s) < heap_lo + 2 ^ 36" using g(2) by (simp add: heap_limit_def)
  from free_user_ok [OF ok _ this] obtain s' R' where s': "free_user (b + 16) s = Inr s'"
    "uheap_ok base heap_lo (heap_brk (os s)) s' R' (L - {b})" "os s' = os s" "\<forall>c\<in>L - {b}. h_size s' c = h_size s c"
    by auto
  moreover have "coalesced (R' - {base}) (h_size s')" using s'(2) by (simp add: uheap_ok_def)
  ultimately show ?thesis using g unfolding uheap_inv_def by auto
qed

lemma malloc_user_total:
  assumes inv: "uheap_inv heap_brk heap_good heap_lo heap_limit base s L" and n: "unat nbytes < 2 ^ 31 - 32"
    and room: "heap_brk (os s) + 16 * max (units nbytes) 1024 + 4096 \<le> heap_limit"
    and pages: "pa_inv (os s)" "pt_tree (cur_root (os s)) (os s)"
    and frames: "4 * (16 * max (units nbytes) 1024 div 4096 + 1) \<le> card (free_pages (os s))"
  shows "\<exists>a s'. malloc_user base malloc nbytes s = Inr (a, s') \<and> 0 < a"
proof -
  let ?n = "16 * max (units nbytes) 1024"
  have g: "heap_good (os s)" using inv by (simp add: uheap_inv_def)
  have len: "2 \<le> length (t_vm (cur (os s)))" and al: "page_aligned (heap_end (os s))"
    using g by (auto simp: heap_good_def heap_brk_def page_aligned_unat)
  have le: "4096 * (?n div 4096 + 1) \<le> ?n + 4096" by simp
  have "unat (heap_end (os s)) + 4096 * (nat (int ?n) div 4096 + 1) \<le> 2 ^ 47"
    using room le unfolding nat_int heap_brk_def heap_limit_def heap_lo_def by simp
  note eff = malloc_effect [OF pages len _ al this]
  have "malloc (int ?n) (os s) \<noteq> Inl e" for e using eff frames unfolding nat_int by (auto split: sum.splits)
  then obtain out where out: "malloc_user base malloc nbytes s = Inr out" "kheap.served base (units nbytes) s L out"
    using kheap.malloc_served [OF inv n room] by blast
  then show ?thesis by (auto simp: kheap.served_def)
qed

text \<open>
  C24. \<open>malloc\<close> of the library returns a block whenever the kernel has the memory: its search never runs
  round the list for ever, and with four free page frames for each page of the request the kernel
  behind it does not fail either.
\<close>

theorem malloc_user_succeeds:
  assumes "uheap_inv heap_brk heap_good heap_lo heap_limit base s L" "unat nbytes < 2 ^ 31 - 32"
    and "heap_brk (os s) + 16 * max (units nbytes) 1024 + 4096 \<le> heap_limit"
    and "pa_inv (os s)" "pt_tree (cur_root (os s)) (os s)"
    and "4 * (16 * max (units nbytes) 1024 div 4096 + 1) \<le> card (free_pages (os s))"
  shows "\<exists>a s'. malloc_user base malloc nbytes s = Inr (a, s') \<and> 0 < a"
  by (rule malloc_user_total [OF assms])

section \<open>A program and its heap\<close>

text \<open>A program that asks for memory and gives back what it has.\<close>

type_synonym uprog = "kernel uheap \<times> nat set"

inductive ustep :: "nat \<Rightarrow> uprog \<Rightarrow> uprog \<Rightarrow> bool" for base where
  u_malloc: "unat nbytes < 2 ^ 31 - 32 \<Longrightarrow> heap_brk (os s) + 16 * max (units nbytes) 1024 + 4096 \<le> heap_limit \<Longrightarrow>
     malloc_user base malloc nbytes s = Inr (a, s') \<Longrightarrow> ustep base (s, L) (s', insert (a - 16) L)"
| u_free: "b \<in> L \<Longrightarrow> free_user (b + 16) s = Inr s' \<Longrightarrow> ustep base (s, L) (s', L - {b})"

inductive ustart :: "nat \<Rightarrow> uprog \<Rightarrow> bool" for base where
  "freep s = 0 \<Longrightarrow> heap_good (os s) \<Longrightarrow> heap_brk (os s) \<le> heap_limit \<Longrightarrow> 0 < base \<Longrightarrow> base < heap_lo \<Longrightarrow> ustart base (s, {})"

definition uprog_inv :: "nat \<Rightarrow> uprog \<Rightarrow> bool" where
  "uprog_inv base m \<longleftrightarrow> uheap_inv heap_brk heap_good heap_lo heap_limit base (fst m) (snd m)"

lemma uprog_step:
  assumes "uprog_inv base m" "ustep base m m'"
  shows "uprog_inv base m'"
  using assms(2,1)
proof (induction rule: ustep.induct)
  case (u_malloc nbytes s a s' L)
  from kheap.malloc_served [of base s L nbytes] u_malloc have "kheap.served base (units nbytes) s L (a, s')"
    by (auto simp: uprog_inv_def)
  then show ?case by (auto simp: kheap.served_def uprog_inv_def uheap_inv_def)
next
  case (u_free b L s s')
  have bL: "insert b (L - {b}) = L" using u_free by blast
  obtain R where ok: "uheap_ok base heap_lo (heap_brk (os s)) s R (insert b (L - {b}))" and g: "heap_good (os s)" "heap_brk (os s) \<le> heap_limit"
    using u_free unfolding uprog_inv_def uheap_inv_def bL by auto
  have "heap_brk (os s) < heap_lo + 2 ^ 36" using g(2) by (simp add: heap_limit_def)
  from free_user_ok [OF ok _ this] u_free(2) show ?case using g by (auto simp: uprog_inv_def uheap_inv_def)
qed

interpretation uprog: invariant_machine "ustart base" "ustep base" "uprog_inv base" for base
  by unfold_locales (erule ustart.cases, simp add: uprog_inv_def uheap_inv_def, rule uprog_step)


section \<open>An example\<close>

text \<open>A task with an empty heap, and a hundred free page frames.\<close>

definition big_heap :: kernel where
  "big_heap = example_heap\<lparr>
     pagelist := \<lambda>i. \<lparr>fl_address = page_addr i, fl_free = (if 100 \<le> i \<and> i < 200 then 1 else 0), fl_ref_count = 0,
       fl_next = (if i = 199 then None else Some (i + 1))\<rparr>,
     head := Some 100\<rparr>"

definition example_uheap :: "kernel uheap" where
  "example_uheap = \<lparr>h_ptr = \<lambda>_. 0, h_size = \<lambda>_. 0, freep = 0, os = big_heap\<rparr>"

lemma big_heap_chain: "100 \<le> i \<Longrightarrow> i < 200 \<Longrightarrow> chain (pagelist big_heap) (Some i) [i..<200]"
proof (induction "199 - i" arbitrary: i)
  case 0
  then have "i = 199" by simp
  then show ?case by (simp add: big_heap_def)
next
  case (Suc k)
  then have "chain (pagelist big_heap) (Some (Suc i)) [Suc i..<200]" by simp
  then show ?case using Suc by (simp add: upt_rec [of i] big_heap_def)
qed

lemma big_heap_free: "free_idx big_heap = {100..<200}" "card (free_pages big_heap) = 100"
proof -
  show f: "free_idx big_heap = {100..<200}" by (auto simp: free_idx_def big_heap_def)
  show "card (free_pages big_heap) = 100"
    unfolding free_pages_def f by (subst card_image) (auto simp: inj_on_def page_addr_inj)
qed

lemma big_heap_pages: "pa_inv big_heap" "pt_tree (cur_root big_heap) big_heap"
proof -
  have "chain (pagelist big_heap) (head big_heap) [100..<200]"
    using big_heap_chain [of 100] by (simp add: big_heap_def del: upt_Suc)
  then have "\<exists>xs. chain (pagelist big_heap) (head big_heap) xs \<and> set xs = free_idx big_heap"
    unfolding big_heap_free using set_upt by blast
  moreover have "fl_address (pagelist big_heap i) = page_addr i" for i by (simp add: big_heap_def)
  ultimately show "pa_inv big_heap" by (simp add: pa_inv_def)
  have "kmem big_heap = (\<lambda>_. 0)" by (simp add: big_heap_def example_heap_def example_kernel_def)
  moreover have "cur_root big_heap = KERNBASE + page_addr 7" by (simp add: big_heap_def example_heap_def add.commute)
  moreover have "page_addr 7 \<notin> free_pages big_heap" by (auto simp: free_pages_def big_heap_free page_addr_inj)
  moreover have "page_aligned (page_addr 7 + KERNBASE)"
    using page_aligned_KERNBASE [OF page_addr_aligned [of 7]] by (simp add: add.commute)
  ultimately show "pt_tree (cur_root big_heap) big_heap" by (auto simp: pt_tree_def table_at_zero split: if_splits)
qed

lemma example_uheap_start: "ustart 0x602000 (example_uheap, {})" "os example_uheap = big_heap"
  "heap_brk big_heap = heap_lo"
proof -
  show b: "heap_brk big_heap = heap_lo" by (simp add: heap_brk_def heap_lo_def big_heap_def example_heap_def)
  have "heap_good big_heap" unfolding heap_good_def b by (simp add: big_heap_def example_heap_def heap_lo_def)
  then show "ustart 0x602000 (example_uheap, {})"
    by (intro ustart.intros) (simp_all add: example_uheap_def b heap_limit_def heap_lo_def)
qed (simp add: example_uheap_def)

lemma example_uheap_inv: "uheap_inv heap_brk heap_good heap_lo heap_limit 0x602000 example_uheap {}"
  using uprog.invar_start [OF example_uheap_start(1)] by (simp add: uprog_inv_def)

lemma example_room: "unat (100 :: u64) < 2 ^ 31 - 32" "units 100 = 8"
  "heap_brk (os example_uheap) + 16 * max (units 100) 1024 + 4096 \<le> heap_limit"
  by (simp_all add: units_def example_uheap_start heap_limit_def heap_lo_def)

lemma example_malloc: "\<exists>a s'. malloc_user 0x602000 malloc 100 example_uheap = Inr (a, s')"
  using malloc_user_total [OF example_uheap_inv example_room(1,3)] big_heap_pages big_heap_free example_room(2)
  by (auto simp: example_uheap_start)

theorem malloc_user_succeeds_witness: "\<exists>a s'. malloc_user 0x602000 malloc 100 example_uheap = Inr (a, s') \<and> 0 < a"
  using malloc_user_succeeds [OF example_uheap_inv example_room(1,3)] big_heap_pages big_heap_free example_room(2)
  by (auto simp: example_uheap_start)

theorem malloc_user_fresh_witness:
  "\<exists>b s'. malloc_user 0x602000 malloc 100 example_uheap = Inr (b + 16, s') \<and> heap_lo \<le> b \<and>
     100 \<le> 16 * (h_size s' b - 1) \<and> b + 16 * h_size s' b \<le> heap_brk (os s')"
proof -
  obtain a s' where m: "malloc_user 0x602000 malloc 100 example_uheap = Inr (a, s')" using example_malloc by blast
  from malloc_user_fresh [OF example_uheap_inv example_room(1,3) m] m show ?thesis by auto
qed


theorem free_user_releases_witness:
  "\<exists>b s s'. malloc_user 0x602000 malloc 100 example_uheap = Inr (b + 16, s) \<and> free_user (b + 16) s = Inr s' \<and>
     uheap_inv heap_brk heap_good heap_lo heap_limit 0x602000 s' {}"
proof -
  obtain a s where m: "malloc_user 0x602000 malloc 100 example_uheap = Inr (a, s)" using example_malloc by blast
  have "uprog_inv 0x602000 (s, {a - 16})"
    using uprog.invar_step [OF uprog.invar_start [OF example_uheap_start(1)] ustep.u_malloc [OF example_room(1,3) m]] by simp
  then have inv: "uheap_inv heap_brk heap_good heap_lo heap_limit 0x602000 s {a - 16}" by (simp add: uprog_inv_def)
  have "16 \<le> a" using kheap.malloc_served [OF example_uheap_inv example_room(1,3)] m by (auto simp: kheap.served_def)
  then have a: "a - 16 + 16 = a" by simp
  from free_user_releases [OF inv singletonI] m show ?thesis unfolding a by (metis Diff_insert_absorb a empty_iff)
qed

end
