(* ===== verification/User_Start.thy ===== *)
theory User_Start
  imports Loader
begin

unbundle bit_operations_syntax

text \<open>
  The start of a program: \<^verbatim>\<open>_start\<close> of \<^verbatim>\<open>crt/crt1.c\<close>, which takes the arguments and the
  environment off the stack the loader made, and the environment of \<^verbatim>\<open>libc/env.c\<close>. The stack
  pointer that \<^verbatim>\<open>_start\<close> reads is its own: eight bytes below the one the program was entered
  with, since the compiled function makes room for one word first.
\<close>

section \<open>The start code\<close>

abbreviation n_argv :: nat where "n_argv \<equiv> 20"
abbreviation n_env :: nat where "n_env \<equiv> 100"

text \<open>An \<^verbatim>\<open>int\<close> in memory.\<close>

definition get_int :: "u64 \<Rightarrow> (u64 \<Rightarrow> u8) \<Rightarrow> int" where
  "get_int a m = sint (ucast (get_le 4 a m) :: u32)"

fun start_argv :: "(u64 \<Rightarrow> u8) \<Rightarrow> nat \<Rightarrow> nat \<Rightarrow> u64 \<Rightarrow> (u64 list \<times> u64) res" where
  "start_argv m k 0 adr2 = Inr ([], adr2)"
| "start_argv m k (Suc n) adr2 =
     (if k \<ge> n_argv then Inl OutOfBounds
      else rbind (start_argv m (k + 1) n (adr2 + 8)) (\<lambda>(ps, a). Inr (get_le 8 adr2 m # ps, a)))"

function start_env :: "(u64 \<Rightarrow> u8) \<Rightarrow> nat \<Rightarrow> u64 \<Rightarrow> u64 list res" where
  "start_env m k adr2 =
     (if get_le 8 adr2 m \<noteq> 0 then
        if k \<ge> n_env then Inl OutOfBounds
        else rbind (start_env m (k + 1) (adr2 + 8)) (\<lambda>es. Inr (get_le 8 adr2 m # es))
      else Inr [])"
  by pat_completeness auto
termination
  by (relation "measure (\<lambda>(m, k, a). n_env - k)") auto

declare start_env.simps [simp del]

text \<open>What \<^verbatim>\<open>main\<close> is called with: the count, the argument pointers and the environment pointers.\<close>

definition start_args :: "(u64 \<Rightarrow> u8) \<Rightarrow> u64 \<Rightarrow> (int \<times> u64 list \<times> u64 list) res" where
  "start_args m rsp =
     (let adr = rsp; adr2 = rsp + 16; argc = get_int (adr + 8) m in
      rbind (start_argv m 0 (nat argc) adr2) (\<lambda>(argv, adr2).
      rbind (start_env m 0 (adr2 + 8)) (\<lambda>env.
      Inr (argc, argv, env))))"

section \<open>The environment\<close>

text \<open>The rows of \<^verbatim>\<open>env_var\<close> in use, as strings.\<close>

type_synonym uenv = "string list"

abbreviation n_env_var :: nat where "n_env_var \<equiv> 1000"
abbreviation n_temp :: nat where "n_temp \<equiv> 50"

definition getvar :: "string \<Rightarrow> string res" where
  "getvar nm =
     (let v = takeWhile (\<lambda>c. c \<noteq> CHR ''='') nm in
      if CHR ''='' \<notin> set nm then Inl OutOfBounds
      else if length v \<ge> n_temp then Inl BufferOverflow
      else Inr v)"

definition getallenv :: "nat \<Rightarrow> uenv \<Rightarrow> string" where
  "getallenv i e = e ! i"

definition getenvlength :: "uenv \<Rightarrow> nat" where
  "getenvlength e = length e"

text \<open>\<^verbatim>\<open>getenv\<close>: \<open>None\<close> is \<^verbatim>\<open>NULL\<close>. The loop returns in its first round.\<close>

definition getenv :: "string \<Rightarrow> uenv \<Rightarrow> string option res" where
  "getenv nm e =
     (case e of
        [] \<Rightarrow> Inr None
      | row # _ \<Rightarrow> rbind (getvar row) (\<lambda>temp. Inr (Some (drop (length temp) row))))"

fun setenv :: "string \<Rightarrow> string \<Rightarrow> int \<Rightarrow> uenv \<Rightarrow> (int \<times> uenv) res" where
  "setenv nm val overwrite [] = Inr (0, [])"
| "setenv nm val overwrite (row # e) =
     rbind (getvar row) (\<lambda>temp.
     if nm = temp then
       if length temp + 1 + length val \<ge> n_env_var then Inl BufferOverflow
       else Inr (1, (take (length temp + 1) row @ val) # e)
     else rbind (setenv nm val overwrite e) (\<lambda>(n, e). Inr (n, row # e)))"

text \<open>The strings at the pointers of a vector that ends with \<^verbatim>\<open>NULL\<close>.\<close>

definition pushenvs :: "string list \<Rightarrow> uenv res" where
  "pushenvs envp =
     (if length envp > n_env_var \<or> (\<exists>v\<in>set envp. length v \<ge> n_env_var) then Inl BufferOverflow else Inr envp)"

section \<open>A program gets its arguments\<close>

lemma start_argv_map:
  "k + n \<le> n_argv \<Longrightarrow> start_argv m k n a = Inr (map (\<lambda>i. get_le 8 (a + of_nat (8 * i)) m) [0..<n], a + of_nat (8 * n))"
proof (induction n arbitrary: k a)
  case (Suc n)
  have "map (\<lambda>i. get_le 8 (a + of_nat (8 * i)) m) [0..<Suc n] =
    get_le 8 a m # map (\<lambda>i. get_le 8 (a + 8 + of_nat (8 * i)) m) [0..<n]"
    by (subst upt_conv_Cons) (simp_all add: map_Suc_upt [symmetric] comp_def ac_simps del: upt_Suc)
  then show ?case using Suc by (simp add: ac_simps del: upt_Suc)
qed simp

lemma start_env_map:
  assumes "k + n \<le> n_env" "\<forall>i<n. get_le 8 (a + of_nat (8 * i)) m \<noteq> 0" "get_le 8 (a + of_nat (8 * n)) m = 0"
  shows "start_env m k a = Inr (map (\<lambda>i. get_le 8 (a + of_nat (8 * i)) m) [0..<n])"
  using assms
proof (induction n arbitrary: k a)
  case 0
  then show ?case by (subst start_env.simps) simp
next
  case (Suc n)
  have "start_env m (k + 1) (a + 8) = Inr (map (\<lambda>i. get_le 8 (a + 8 + of_nat (8 * i)) m) [0..<n])"
    using Suc.prems(1,3) Suc.prems(2) [rule_format, of "Suc _"] by (intro Suc.IH) (auto simp: ac_simps)
  moreover have "map (\<lambda>i. get_le 8 (a + of_nat (8 * i)) m) [0..<Suc n] =
    get_le 8 a m # map (\<lambda>i. get_le 8 (a + 8 + of_nat (8 * i)) m) [0..<n]"
    by (subst upt_conv_Cons) (simp_all add: map_Suc_upt [symmetric] comp_def ac_simps del: upt_Suc)
  ultimately show ?case using Suc.prems(1) Suc.prems(2) [rule_format, of 0]
    by (subst start_env.simps) (simp del: upt_Suc)
qed

lemma get_le_low: "n \<le> n' \<Longrightarrow> n' \<le> 8 \<Longrightarrow> get_le n a m = take_bit (8 * n) (get_le n' a m)"
proof (induction n arbitrary: n' a)
  case (Suc n)
  then obtain k where k: "n' = Suc k" by (cases n') auto
  have "get_le n (a + 1) m = take_bit (8 * n) (get_le k (a + 1) m)" using Suc.IH [of k "a + 1"] Suc.prems k by simp
  then show ?case unfolding k by (simp, intro bit_word_eqI) (auto simp: bit_simps dest: bit_imp_le_length)
qed simp

lemma span_not_null:
  assumes "span p 1 \<subseteq> span (b - of_nat n) n" "n < unat b"
  shows "p \<noteq> 0"
proof
  assume "p = 0"
  then have "0 \<in> span (b - of_nat n) n" using assms(1) by (auto simp: span_def)
  then obtain j where j: "j < n" "b - of_nat n + of_nat j = 0" by (auto simp: span_def)
  then have "b = of_nat (n - j)" by (simp add: of_nat_diff algebra_simps)
  then have "unat b \<le> n - j" by (simp add: unat_of_nat)
  then show False using assms(2) by simp
qed



section \<open>The environment of a program\<close>

text \<open>An environment of entries with a name, a sign of equality and a value.\<close>

definition entry :: "string \<times> string \<Rightarrow> string" where
  "entry v = fst v @ CHR ''='' # snd v"

definition env_ok :: "(string \<times> string) list \<Rightarrow> bool" where
  "env_ok vs \<longleftrightarrow> (\<forall>(n, v)\<in>set vs. CHR ''='' \<notin> set n \<and> length n < n_temp)"

lemma takeWhile_entry: "CHR ''='' \<notin> set n \<Longrightarrow> takeWhile (\<lambda>c. c \<noteq> CHR ''='') (n @ CHR ''='' # v) = n"
  by (induction n) auto

lemma getvar_entry: "CHR ''='' \<notin> set n \<Longrightarrow> length n < n_temp \<Longrightarrow> getvar (entry (n, v)) = Inr n"
  by (simp add: getvar_def entry_def takeWhile_entry)

text \<open>
  \<open>setenv\<close> gives a variable that is in the environment its new value, in place and whatever the last
  argument says, and reports 1; a variable that is not there is not added, and the result is 0.
\<close>

theorem setenv_replaces:
  assumes "env_ok vs" "distinct (map fst vs)" "length nm + 1 + length val < n_env_var"
  shows "setenv nm val ov (map entry vs) =
    Inr (if nm \<in> fst ` set vs then 1 else 0, map entry (map (\<lambda>(n, v). (n, if n = nm then val else v)) vs))"
  using assms
proof (induction vs)
  case (Cons x vs)
  obtain n v where x: "x = (n, v)" by (cases x)
  have g: "getvar (entry (n, v)) = Inr n" using Cons.prems(1) by (intro getvar_entry) (auto simp: env_ok_def x)
  show ?case
  proof (cases "nm = n")
    case True
    then have "map (\<lambda>(n, v). (n, if n = nm then val else v)) vs = vs"
      using Cons.prems(2) by (intro map_idI) (auto simp: x image_iff)
    then show ?thesis using True g Cons.prems(3) by (simp add: x entry_def)
  next
    case False
    then show ?thesis using g Cons by (auto simp: x env_ok_def)
  qed
qed simp

theorem setenv_replaces_witness: "setenv ''PS1'' ''>'' 0 [''HOME=/'', ''PS1=$''] = Inr (1, [''HOME=/'', ''PS1=>''])"
  using setenv_replaces [of "[(''HOME'', ''/''), (''PS1'', ''$'')]" "''PS1''" "''>''" 0]
  by (simp add: entry_def env_ok_def)

text \<open>
  \<open>getenv\<close> does not look at the name it is asked for: it returns the first entry's text from its sign
  of equality on.
\<close>

lemma getenv_ignores_name:
  "env_ok ((n, v) # vs) \<Longrightarrow> getenv nm (map entry ((n, v) # vs)) = Inr (Some (CHR ''='' # v))"
  using getvar_entry [of n v] by (simp add: getenv_def env_ok_def) (simp add: entry_def)

end
