(* ===== verification/Shell.thy ===== *)
theory Shell
  imports User_Start
begin

text \<open>
  The shell \<^verbatim>\<open>bin/sbush/sbush.c\<close>: the tokenizer, the built-in commands, starting programs, the
  prompt, the interactive loop and scripts. The library calls of the shell are the fields of a record
  of functions over the state of the system, so that every answer of the system is covered; the two
  that do not return in a child, \<^verbatim>\<open>exit\<close> and a successful \<^verbatim>\<open>execvp\<close>, end the run.
\<close>

section \<open>The tokenizer\<close>

text \<open>
  Rows of 1000 characters and the pointers to them: \<open>live i\<close> when \<^verbatim>\<open>strs[i]\<close> is not \<^verbatim>\<open>NULL\<close>.
\<close>

record toks =
  rows :: "nat \<Rightarrow> nat \<Rightarrow> char"
  live_row :: "nat \<Rightarrow> bool"

abbreviation n_row :: nat where "n_row \<equiv> 1000"
abbreviation n_args :: nat where "n_args \<equiv> 1000"

definition row_str :: "(nat \<Rightarrow> char) \<Rightarrow> string" where
  "row_str f = takeWhile (\<lambda>c. c \<noteq> NUL) (map f [0..<n_row])"

text \<open>The string at \<^verbatim>\<open>strs[i]\<close>, or \<^verbatim>\<open>NULL\<close>.\<close>

definition tok :: "toks \<Rightarrow> nat \<Rightarrow> string option" where
  "tok t i = (if live_row t i then Some (row_str (rows t i)) else None)"

definition put_char :: "nat \<Rightarrow> nat \<Rightarrow> nat \<Rightarrow> char \<Rightarrow> toks \<Rightarrow> toks res" where
  "put_char n i j c t =
     (if n \<le> i then Inl OutOfBounds
      else if \<not> live_row t i then Inl NullDeref
      else if n_row \<le> j then Inl BufferOverflow
      else Inr (t\<lparr>rows := (rows t)(i := (rows t i)(j := c))\<rparr>))"

definition set_null :: "nat \<Rightarrow> nat \<Rightarrow> toks \<Rightarrow> toks res" where
  "set_null n i t = (if n \<le> i then Inl OutOfBounds else Inr (t\<lparr>live_row := (live_row t)(i := False)\<rparr>))"

text \<open>The end of a token: its zero byte, and the check for a lone ampersand.\<close>

definition end_token :: "nat \<Rightarrow> nat \<Rightarrow> nat \<Rightarrow> bool \<Rightarrow> toks \<Rightarrow> (bool \<times> toks) res" where
  "end_token n i j bg t =
     rbind (put_char n i j NUL t) (\<lambda>t.
     if row_str (rows t i) = ''&'' then rbind (set_null n i t) (\<lambda>t. Inr (True, t)) else Inr (bg, t))"

text \<open>
  The loop from position \<open>k\<close> of the string on: \<open>i\<close> is the row, \<open>j\<close> the place in it, \<open>bg\<close> the flag
  \<^verbatim>\<open>isBackground\<close>, \<open>first\<close> says that \<open>k\<close> is 0. The end of the list is the zero byte.
\<close>

fun token_loop :: "nat \<Rightarrow> char \<Rightarrow> bool \<Rightarrow> nat \<Rightarrow> nat \<Rightarrow> string \<Rightarrow> bool \<Rightarrow> toks \<Rightarrow> (bool \<times> toks) res" where
  "token_loop n delimiter first i j [] bg t =
     rbind (end_token n i j bg t) (\<lambda>(bg, t).
     rbind (if j = 0 then set_null n i t else Inr t) (\<lambda>t.
     rbind (set_null n (i + 1) t) (\<lambda>t.
     Inr (bg, t))))"
| "token_loop n delimiter first i j (c # cs) bg t =
     (if c = CHR 0x0A then Inr (bg, t)
      else if first \<and> c = CHR '' '' then token_loop n delimiter False i j cs bg t
      else if c = delimiter then
        rbind (end_token n i j bg t) (\<lambda>(bg, t). token_loop n delimiter False (i + 1) 0 cs bg t)
      else if c = CHR 0x22 \<and> delimiter = CHR ''='' then token_loop n delimiter False i j cs bg t
      else rbind (put_char n i j c t) (\<lambda>t. token_loop n delimiter False i (j + 1) cs bg t))"

definition setStringTokens :: "nat \<Rightarrow> string \<Rightarrow> char \<Rightarrow> bool \<Rightarrow> toks \<Rightarrow> (bool \<times> toks) res" where
  "setStringTokens n str delimiter bg t = token_loop n delimiter True 0 0 str bg t"

section \<open>The state of the shell\<close>

record shell =
  isBackground :: bool
  inp :: string
  pwd :: string
  prompt :: string
  prompt1 :: string
  args :: toks
  command :: "string option"
  envpe :: "string list"

definition clear_toks :: toks where
  "clear_toks = \<lparr>rows = \<lambda>_ _. NUL, live_row = \<lambda>_. True\<rparr>"

definition initargs :: "shell \<Rightarrow> shell" where
  "initargs s = s\<lparr>args := (args s)\<lparr>live_row := \<lambda>_. True\<rparr>\<rparr>"

definition clearArguments :: "shell \<Rightarrow> shell" where
  "clearArguments s = s\<lparr>args := clear_toks\<rparr>"

definition clearInput :: "shell \<Rightarrow> shell" where
  "clearInput s = s\<lparr>inp := ''''\<rparr>"

text \<open>The arguments up to the first \<^verbatim>\<open>NULL\<close>, as \<^verbatim>\<open>execvp\<close> reads them.\<close>

definition argv_of :: "toks \<Rightarrow> string list" where
  "argv_of t = map (\<lambda>i. row_str (rows t i)) (takeWhile (live_row t) [0..<n_args])"

definition getInputArgCounts :: "shell \<Rightarrow> nat" where
  "getInputArgCounts s = length (argv_of (args s))"

text \<open>The library below. \<open>None\<close> of \<open>execvp\<close> is a call that does not come back.\<close>

record 'o lib =
  lib_puts :: "string \<Rightarrow> 'o \<Rightarrow> 'o"
  lib_gets :: "'o \<Rightarrow> string \<times> 'o"
  lib_clrscr :: "'o \<Rightarrow> 'o"
  lib_getcwd :: "'o \<Rightarrow> string \<times> 'o"
  lib_chdir :: "string \<Rightarrow> 'o \<Rightarrow> int \<times> 'o"
  lib_fork :: "'o \<Rightarrow> int \<times> 'o"
  lib_execvp :: "string \<Rightarrow> string list \<Rightarrow> string list \<Rightarrow> 'o \<Rightarrow> int option \<times> 'o"
  lib_waitpid :: "int \<Rightarrow> 'o \<Rightarrow> 'o"
  lib_fopen :: "string \<Rightarrow> 'o \<Rightarrow> int \<times> 'o"
  lib_read :: "int \<Rightarrow> 'o \<Rightarrow> string \<times> 'o"

text \<open>The shell goes on, or the process that ran it ends or has become another program.\<close>

datatype outcome = Goes_on | Exited int | Became_program

abbreviation n_path :: nat where "n_path \<equiv> 100"

definition set_prompt :: "shell \<Rightarrow> shell res" where
  "set_prompt s =
     (let p = prompt s @ '':'' @ pwd s @ ''$'' in
      if length p \<ge> n_path then Inl BufferOverflow else Inr (s\<lparr>prompt1 := p\<rparr>))"

definition get_pwd :: "'o lib \<Rightarrow> shell \<Rightarrow> 'o \<Rightarrow> (shell \<times> 'o) res" where
  "get_pwd l s w = (let (d, w) = lib_getcwd l w in if length d \<ge> n_path then Inl BufferOverflow else Inr (s\<lparr>pwd := d\<rparr>, w))"

section \<open>Commands\<close>

definition chdir_1 :: "'o lib \<Rightarrow> shell \<Rightarrow> 'o \<Rightarrow> 'o" where
  "chdir_1 l s w =
     (case tok (args s) 1 of
        None \<Rightarrow> lib_puts l (''No argument passed'' @ [CHR 0x0A]) w
      | Some a \<Rightarrow>
          let (n, w) = lib_chdir l a w in
          if n \<noteq> 0 then lib_puts l ('': No such directory. '' @ [CHR 0x0A]) (lib_puts l a (lib_puts l ''-sbush: cd: '' w))
          else w)"

text \<open>\<^verbatim>\<open>export\<close>: three rows of its own, whose old contents \<open>garbage\<close> are what the stack holds.\<close>

definition setvar :: "(nat \<Rightarrow> nat \<Rightarrow> char) \<Rightarrow> shell \<Rightarrow> shell res" where
  "setvar garbage s =
     (case tok (args s) 1 of
        None \<Rightarrow> Inl NullDeref
      | Some v \<Rightarrow>
          rbind (setStringTokens 3 v (CHR ''='') (isBackground s) \<lparr>rows = garbage, live_row = \<lambda>i. i < 3\<rparr>) (\<lambda>(bg, a).
          let s = s\<lparr>isBackground := bg\<rparr> in
          case tok a 0 of
            None \<Rightarrow> Inl NullDeref
          | Some nm \<Rightarrow>
              if nm = ''PS1'' then
                (case tok a 1 of
                   None \<Rightarrow> Inl NullDeref
                 | Some p \<Rightarrow> if length p \<ge> n_path then Inl BufferOverflow else Inr (s\<lparr>prompt := p\<rparr>))
              else Inr s))"

definition forkandExec :: "'o lib \<Rightarrow> string \<Rightarrow> string list \<Rightarrow> shell \<Rightarrow> 'o \<Rightarrow> outcome \<times> 'o" where
  "forkandExec l cmd ag s w =
     (let (pid, w) = lib_fork l w in
      if pid = 0 then
        (case lib_execvp l cmd ag (envpe s) w of
           (None, w) \<Rightarrow> (Became_program, w)
         | (Some n, w) \<Rightarrow>
             let w = (if n = - 1
                      then lib_puts l ('': No such command. '' @ [CHR 0x0A]) (lib_puts l cmd (lib_puts l ''-sbush: '' w))
                      else w)
             in (Exited 1, w))
      else if pid < 0 then (Goes_on, lib_puts l (''Failed to fork'' @ [CHR 0x0A]) w)
      else if isBackground s then (Goes_on, w)
      else (Goes_on, lib_waitpid l pid w))"

definition execCommand :: "(nat \<Rightarrow> nat \<Rightarrow> char) \<Rightarrow> 'o lib \<Rightarrow> shell \<Rightarrow> 'o \<Rightarrow> (outcome \<times> shell \<times> 'o) res" where
  "execCommand garbage l s w =
     (case command s of
        None \<Rightarrow> Inl NullDeref
      | Some cmd \<Rightarrow>
          if cmd = ''cd'' then
            let w = chdir_1 l s w in
            rbind (get_pwd l s w) (\<lambda>(s, w).
            rbind (set_prompt s) (\<lambda>s. Inr (Goes_on, s, w)))
          else if cmd = ''export'' then
            rbind (setvar garbage s) (\<lambda>s. Inr (Goes_on, s, w))
          else if cmd = ''clear'' then Inr (Goes_on, s, lib_clrscr l w)
          else if cmd = ''pwd'' then
            rbind (get_pwd l s w) (\<lambda>(s, w).
            Inr (Goes_on, s, lib_puts l [CHR 0x0A] (lib_puts l (pwd s) w)))
          else let (out, w) = forkandExec l cmd (argv_of (args s)) s w in Inr (out, s, w))"

definition parseInput :: "(nat \<Rightarrow> nat \<Rightarrow> char) \<Rightarrow> 'o lib \<Rightarrow> shell \<Rightarrow> 'o \<Rightarrow> (outcome \<times> shell \<times> 'o) res" where
  "parseInput garbage l s w =
     rbind (setStringTokens n_args (inp s) (CHR ''|'') (isBackground s) (args s)) (\<lambda>(bg, t).
     let s = s\<lparr>isBackground := bg, args := t\<rparr> in
     if tok t 1 = None then
       let s = clearArguments s in
       rbind (setStringTokens n_args (inp s) (CHR '' '') (isBackground s) (args s)) (\<lambda>(bg, t).
       let s = s\<lparr>isBackground := bg, args := t, command := tok t 0\<rparr> in
       execCommand garbage l s w)
     else Inr (Goes_on, s, w))"

section \<open>The shell's loops\<close>

abbreviation n_input :: nat where "n_input \<equiv> 1025"

definition run_line :: "(nat \<Rightarrow> nat \<Rightarrow> char) \<Rightarrow> 'o lib \<Rightarrow> shell \<Rightarrow> 'o \<Rightarrow> (outcome \<times> shell \<times> 'o) res" where
  "run_line garbage l s w =
     rbind (parseInput garbage l s w) (\<lambda>(out, s, w). Inr (out, clearArguments (clearInput s), w))"

text \<open>One round of the interactive loop.\<close>

definition shell_round :: "(nat \<Rightarrow> nat \<Rightarrow> char) \<Rightarrow> 'o lib \<Rightarrow> shell \<Rightarrow> 'o \<Rightarrow> (outcome \<times> shell \<times> 'o) res" where
  "shell_round garbage l s w =
     (let w = lib_puts l (prompt1 s) w; (line, w) = lib_gets l w in
      if length line \<ge> n_input then Inl BufferOverflow
      else
        let s = s\<lparr>inp := line\<rparr> in
        if line = '''' then Inr (Goes_on, s, w)
        else if line = ''exit'' \<or> line = ''quit'' then Inr (Exited 0, s, w)
        else run_line garbage l s w)"

text \<open>
  The start of \<^verbatim>\<open>main\<close>: the first prompt, and the pointers to the variables of the environment
  \<open>e\<close> that the start code has stored (theory User_Start).
\<close>

abbreviation n_envpe :: nat where "n_envpe \<equiv> 100"

definition setenvs :: "uenv \<Rightarrow> shell \<Rightarrow> shell res" where
  "setenvs e s =
     (let i = getenvlength e in
      if i > n_envpe then Inl OutOfBounds else Inr (s\<lparr>envpe := map (\<lambda>j. getallenv j e) [0..<i]\<rparr>))"

definition shell_start :: "'o lib \<Rightarrow> uenv \<Rightarrow> shell \<Rightarrow> 'o \<Rightarrow> (shell \<times> 'o) res" where
  "shell_start l e s w =
     (let s = (initargs s)\<lparr>prompt := ''sbush''\<rparr> in
      rbind (get_pwd l s w) (\<lambda>(s, w).
      rbind (set_prompt s) (\<lambda>s.
      rbind (setenvs e s) (\<lambda>s. Inr (s, w)))))"

text \<open>
  A script: 20 lines of 100 characters. Only lines that end with a newline are run. The function has
  the finished lines, the current one and what is left of the file.
\<close>

abbreviation n_lines :: nat where "n_lines \<equiv> 20"
abbreviation n_line :: nat where "n_line \<equiv> 100"

fun script_loop :: "string list \<Rightarrow> string \<Rightarrow> string \<Rightarrow> string list res" where
  "script_loop ls row [] = Inr ls"
| "script_loop ls row (c # cs) =
     (if length ls \<ge> n_lines then Inl OutOfBounds
      else if length row \<ge> n_line then Inl BufferOverflow
      else if c = CHR 0x0A then script_loop (ls @ [row]) '''' cs
      else script_loop ls (row @ [c]) cs)"

definition script_lines :: "string \<Rightarrow> string list res" where
  "script_lines txt = script_loop [] '''' txt"

fun run_lines :: "(nat \<Rightarrow> nat \<Rightarrow> char) \<Rightarrow> 'o lib \<Rightarrow> string list \<Rightarrow> shell \<Rightarrow> 'o \<Rightarrow> (outcome \<times> shell \<times> 'o) res" where
  "run_lines garbage l [] s w = Inr (Exited 0, s, w)"
| "run_lines garbage l (line # ls) s w =
     rbind (run_line garbage l (s\<lparr>inp := line\<rparr>) w) (\<lambda>(out, s, w).
     if out = Goes_on then run_lines garbage l ls s w else Inr (out, s, w))"

definition shell_script :: "(nat \<Rightarrow> nat \<Rightarrow> char) \<Rightarrow> 'o lib \<Rightarrow> string \<Rightarrow> shell \<Rightarrow> 'o \<Rightarrow> (outcome \<times> shell \<times> 'o) res" where
  "shell_script garbage l file s w =
     (let (fp, w) = lib_fopen l file w in
      if fp = - 1 then Inr (Exited 0, s, lib_puts l ''File not found, Exiting!'' w)
      else
        let (txt, w) = lib_read l fp w in
        rbind (script_lines txt) (\<lambda>ls. run_lines garbage l ls s w))"

text \<open>
  \<^verbatim>\<open>main\<close>, with the number of rounds of its endless loop as an argument; \<open>argv\<close> are the arguments
  of the shell, its own name first.
\<close>

fun shell_rounds :: "nat \<Rightarrow> (nat \<Rightarrow> nat \<Rightarrow> char) \<Rightarrow> 'o lib \<Rightarrow> shell \<Rightarrow> 'o \<Rightarrow> (outcome \<times> shell \<times> 'o) res" where
  "shell_rounds 0 garbage l s w = Inr (Goes_on, s, w)"
| "shell_rounds (Suc n) garbage l s w =
     rbind (shell_round garbage l s w) (\<lambda>(out, s, w).
     if out = Goes_on then shell_rounds n garbage l s w else Inr (out, s, w))"

definition shell_main :: "nat \<Rightarrow> (nat \<Rightarrow> nat \<Rightarrow> char) \<Rightarrow> 'o lib \<Rightarrow> string list \<Rightarrow> uenv \<Rightarrow> shell \<Rightarrow> 'o \<Rightarrow> (outcome \<times> shell \<times> 'o) res" where
  "shell_main n garbage l argv e s w =
     rbind (shell_start l e s w) (\<lambda>(s, w).
     if length argv = 1 then shell_rounds n garbage l s (lib_clrscr l w)
     else if length argv = 0 then Inl NullDeref
     else shell_script garbage l (argv ! 1) s w)"

section \<open>Words\<close>

primrec write_row :: "(nat \<Rightarrow> char) \<Rightarrow> nat \<Rightarrow> string \<Rightarrow> (nat \<Rightarrow> char)" where
  "write_row f j [] = f"
| "write_row f j (c # w) = write_row (f(j := c)) (j + 1) w"

lemma write_row_at: "write_row f j w k = (if j \<le> k \<and> k < j + length w then w ! (k - j) else f k)"
  by (induction w arbitrary: f j) (auto simp: nth_Cons' Suc_le_eq le_less_Suc_eq not_less)

lemma row_str_eq:
  assumes "\<And>k. k < length w \<Longrightarrow> f k = w ! k" "f (length w) = NUL" "length w < n_row" "NUL \<notin> set w"
  shows "row_str f = w"
proof -
  have up: "[0..<n_row] = [0..<length w] @ length w # [Suc (length w)..<n_row]"
    using assms(3) upt_add_eq_append [of 0 "length w" "n_row - length w"] upt_conv_Cons [of "length w" n_row] by (simp del: upt_Suc upt_rec_numeral)
  have "map f [0..<length w] = w" using assms(1) by (intro nth_equalityI) auto
  then show ?thesis
    unfolding row_str_def up using assms(2,4) by (simp add: takeWhile_append)
qed

text \<open>A word: what may stand between two delimiters, and not a lone ampersand.\<close>

definition word_ok :: "char \<Rightarrow> string \<Rightarrow> bool" where
  "word_ok d w \<longleftrightarrow> w \<noteq> [] \<and> w \<noteq> ''&'' \<and> length w < n_row \<and>
     (\<forall>c\<in>set w. c \<noteq> d \<and> c \<noteq> NUL \<and> c \<noteq> CHR 0x0A \<and> \<not> (c = CHR 0x22 \<and> d = CHR ''=''))"

fun join_words :: "char \<Rightarrow> string list \<Rightarrow> string" where
  "join_words d [] = []"
| "join_words d [w] = w"
| "join_words d (w # v # ws) = w @ d # join_words d (v # ws)"

lemma token_word:
  assumes "i < n" "live_row t i" "j + length w < n_row" "\<forall>c\<in>set w. c \<noteq> d \<and> c \<noteq> CHR 0x0A \<and> \<not> (c = CHR 0x22 \<and> d = CHR ''='')"
    and "first \<Longrightarrow> w \<noteq> [] \<Longrightarrow> hd w \<noteq> CHR '' ''"
  shows "token_loop n d first i j (w @ cs) bg t =
    token_loop n d (first \<and> w = []) i (j + length w) cs bg (t\<lparr>rows := (rows t)(i := write_row (rows t i) j w)\<rparr>)"
  using assms
proof (induction w arbitrary: j t first)
  case (Cons c w)
  let ?t = "t\<lparr>rows := (rows t)(i := (rows t i)(j := c))\<rparr>"
  have "token_loop n d first i j ((c # w) @ cs) bg t = token_loop n d False i (j + 1) (w @ cs) bg ?t"
    using Cons.prems by (auto simp: put_char_def)
  also have "\<dots> = token_loop n d (False \<and> w = []) i (j + 1 + length w) cs bg (?t\<lparr>rows := (rows ?t)(i := write_row (rows ?t i) (j + 1) w)\<rparr>)"
    using Cons.prems by (intro Cons.IH) auto
  finally show ?case by (simp add: fun_upd_def cong: if_cong del: token_loop.simps)
qed simp

lemma end_token_word:
  assumes "i < n" "live_row t i" "word_ok d w"
  shows "\<exists>t'. end_token n i (length w) bg (t\<lparr>rows := (rows t)(i := write_row (rows t i) 0 w)\<rparr>) = Inr (bg, t') \<and>
    tok t' i = Some w \<and> live_row t' = live_row t \<and> (\<forall>k. k \<noteq> i \<longrightarrow> rows t' k = rows t k)"
proof -
  let ?row = "(write_row (rows t i) 0 w)(length w := NUL)"
  have "row_str ?row = w" using assms(3) by (intro row_str_eq) (auto simp: write_row_at word_ok_def)
  then show ?thesis using assms by (auto simp: end_token_def put_char_def word_ok_def tok_def)
qed

lemma token_words:
  assumes "ws \<noteq> []" "\<forall>w\<in>set ws. word_ok d w" "i + length ws < n" "\<forall>k\<ge>i. live_row t k" "first \<Longrightarrow> hd (hd ws) \<noteq> CHR '' ''"
    and d: "d \<noteq> CHR 0x0A"
  shows "\<exists>t'. token_loop n d first i 0 (join_words d ws) bg t = Inr (bg, t') \<and>
    (\<forall>k<length ws. tok t' (i + k) = Some (ws ! k)) \<and> tok t' (i + length ws) = None \<and> (\<forall>k<i. tok t' k = tok t k)"
  using assms(1-5)
proof (induction ws arbitrary: i t first)
  case (Cons w ws)
  have wok: "word_ok d w" using Cons.prems(2) by simp
  let ?t = "t\<lparr>rows := (rows t)(i := write_row (rows t i) 0 w)\<rparr>"
  have step: "token_loop n d first i 0 (w @ cs) bg t = token_loop n d False i (length w) cs bg ?t" for cs
    using token_word [of i n t 0 w d first cs bg] Cons.prems wok by (auto simp: word_ok_def)
  obtain t1 where t1: "end_token n i (length w) bg ?t = Inr (bg, t1)" "tok t1 i = Some w" "live_row t1 = live_row t"
    "\<forall>k. k \<noteq> i \<longrightarrow> rows t1 k = rows t k"
    using end_token_word [OF _ _ wok, of i n t bg] Cons.prems(3,4) by auto
  have old: "tok t1 k = tok t k" if "k < i" for k using t1(3,4) that by (simp add: tok_def)
  show ?case
  proof (cases ws)
    case Nil
    let ?t' = "t1\<lparr>live_row := (live_row t1)(i + 1 := False)\<rparr>"
    have "token_loop n d first i 0 (join_words d [w]) bg t = Inr (bg, ?t')"
      using step [of "[]"] t1(1) wok Cons.prems(3) Nil by (auto simp: word_ok_def set_null_def)
    moreover have "tok ?t' k = tok t1 k" if "k \<noteq> i + 1" for k using that by (simp add: tok_def)
    then have "tok ?t' i = Some w" "\<forall>k<i. tok ?t' k = tok t k" using t1(2) old by auto
    moreover have "tok ?t' (i + 1) = None" by (simp add: tok_def)
    ultimately show ?thesis using Nil by auto
  next
    case (Cons v vs)
    have "\<exists>t'. token_loop n d False (i + 1) 0 (join_words d ws) bg t1 = Inr (bg, t') \<and>
      (\<forall>k<length ws. tok t' (i + 1 + k) = Some (ws ! k)) \<and> tok t' (i + 1 + length ws) = None \<and> (\<forall>k<i + 1. tok t' k = tok t1 k)"
      using Cons.prems Cons t1(3) by (intro Cons.IH) auto
    then obtain t' where t': "token_loop n d False (i + 1) 0 (join_words d ws) bg t1 = Inr (bg, t')"
      "\<And>k. k < length ws \<Longrightarrow> tok t' (i + 1 + k) = Some (ws ! k)" "tok t' (i + 1 + length ws) = None"
      "\<And>k. k < i + 1 \<Longrightarrow> tok t' k = tok t1 k"
      by blast
    have "token_loop n d first i 0 (join_words d (w # ws)) bg t = Inr (bg, t')"
      using step [of "d # join_words d ws"] t1(1) t'(1) Cons d by simp
    moreover have "tok t' (i + k) = Some ((w # ws) ! k)" if "k < length (w # ws)" for k
      using t'(2) [of "k - 1"] t'(4) [of i] t1(2) that by (cases k) auto
    ultimately show ?thesis using t'(3,4) old by auto
  qed
qed simp

lemma setStringTokens_words:
  assumes "ws \<noteq> []" "\<forall>w\<in>set ws. word_ok d w" "length ws < n_args" "hd (hd ws) \<noteq> CHR '' ''" "d \<noteq> CHR 0x0A"
  shows "\<exists>t. setStringTokens n_args (join_words d ws) d bg clear_toks = Inr (bg, t) \<and>
    (\<forall>k<length ws. tok t k = Some (ws ! k)) \<and> tok t (length ws) = None"
  using token_words [of ws d 0 n_args clear_toks True bg] assms by (auto simp: setStringTokens_def clear_toks_def)

lemma argv_of_toks:
  assumes "\<And>k. k < length ws \<Longrightarrow> tok t k = Some (ws ! k)" "tok t (length ws) = None" "length ws < n_args"
  shows "argv_of t = ws"
proof -
  have live: "live_row t k" "row_str (rows t k) = ws ! k" if "k < length ws" for k
    using assms(1) [OF that] by (auto simp: tok_def split: if_splits)
  have "\<not> live_row t (length ws)" using assms(2) by (auto simp: tok_def split: if_splits)
  moreover have "[0..<n_args] = [0..<length ws] @ length ws # [Suc (length ws)..<n_args]"
    using assms(3) upt_add_eq_append [of 0 "length ws" "n_args - length ws"] upt_conv_Cons [of "length ws" n_args]
    by (simp del: upt_Suc upt_rec_numeral)
  ultimately have "takeWhile (live_row t) [0..<n_args] = [0..<length ws]" using live by (simp add: takeWhile_append)
  then show ?thesis using live by (simp add: argv_of_def) (intro nth_equalityI; simp)
qed

text \<open>
  Splitting a line gives back its words: a line of words with one blank between them leaves exactly
  these words in the argument vector, in their order and with a null pointer behind the last one, and
  does not touch the background flag.
\<close>

theorem tokens_of_line:
  assumes "ws \<noteq> []" "\<forall>w\<in>set ws. word_ok (CHR '' '') w" "length ws < n_args"
  shows "\<exists>t. setStringTokens n_args (join_words (CHR '' '') ws) (CHR '' '') bg clear_toks = Inr (bg, t) \<and> argv_of t = ws"
proof -
  have "hd (hd ws) \<noteq> CHR '' ''" using assms(1,2) by (cases ws; cases "hd ws") (auto simp: word_ok_def)
  then obtain t where "setStringTokens n_args (join_words (CHR '' '') ws) (CHR '' '') bg clear_toks = Inr (bg, t)"
    "\<forall>k<length ws. tok t k = Some (ws ! k)" "tok t (length ws) = None"
    using setStringTokens_words [OF assms, of bg] by auto
  then show ?thesis using argv_of_toks [OF _ _ assms(3)] by blast
qed

theorem tokens_of_line_witness:
  "\<exists>t. setStringTokens n_args ''ls -l /bin/'' (CHR '' '') False clear_toks = Inr (False, t) \<and> argv_of t = [''ls'', ''-l'', ''/bin/'']"
  using tokens_of_line [of "[''ls'', ''-l'', ''/bin/'']" False] by (simp add: word_ok_def)

text \<open>The commands the shell runs itself.\<close>

definition builtin :: "string \<Rightarrow> bool" where
  "builtin c \<longleftrightarrow> c \<in> {''cd'', ''export'', ''clear'', ''pwd''}"

lemma join_words_len: "w \<in> set ws \<Longrightarrow> length w \<le> length (join_words d ws)"
  by (induction d ws rule: join_words.induct) auto

lemma join_words_set: "set (join_words d ws) \<subseteq> insert d (\<Union>w\<in>set ws. set w)"
  by (induction d ws rule: join_words.induct) auto

lemma join_words_hd: "ws \<noteq> [] \<Longrightarrow> hd ws \<noteq> [] \<Longrightarrow> join_words d ws \<noteq> [] \<and> hd (join_words d ws) = hd (hd ws)"
  by (cases "(d, ws)" rule: join_words.cases) auto

lemma join_words_amp: "ws \<noteq> [] \<Longrightarrow> \<forall>w\<in>set ws. w \<noteq> [] \<and> w \<noteq> ''&'' \<Longrightarrow> join_words d ws \<noteq> ''&''"
  by (cases "(d, ws)" rule: join_words.cases) (auto simp: append_eq_Cons_conv)

text \<open>A line of words, tokenized: the rows hold the words, and the command is the first.\<close>

lemma parse_words:
  assumes ws: "ws \<noteq> []" "\<forall>w\<in>set ws. word_ok (CHR '' '') w \<and> CHR ''|'' \<notin> set w" "length (join_words (CHR '' '') ws) < n_row"
      "length ws < n_args"
    and s: "args s = clear_toks" "inp s = join_words (CHR '' '') ws"
  obtains t where "\<forall>k<length ws. tok t k = Some (ws ! k)" "tok t (length ws) = None" "argv_of t = ws"
    "parseInput garbage l s w = execCommand garbage l (s\<lparr>args := t, command := Some (hd ws)\<rparr>) w"
proof -
  let ?line = "join_words (CHR '' '') ws"
  have hd: "hd (hd ws) \<noteq> CHR '' ''" "hd ws \<noteq> []" using ws(1,2) by (cases ws; cases "hd ws"; auto simp: word_ok_def)+
  have "word_ok (CHR ''|'') ?line"
    using ws join_words_set [of "CHR '' ''" ws] join_words_hd [OF ws(1) hd(2)] join_words_amp [OF ws(1)]
    unfolding word_ok_def by fastforce
  moreover have "hd ?line \<noteq> CHR '' ''" using join_words_hd [OF ws(1) hd(2), of "CHR '' ''"] hd by simp
  ultimately obtain t1 where t1: "setStringTokens n_args ?line (CHR ''|'') (isBackground s) clear_toks = Inr (isBackground s, t1)"
    "tok t1 1 = None"
    using setStringTokens_words [of "[?line]" "CHR ''|''" "isBackground s"] by auto
  obtain t2 where t2: "setStringTokens n_args ?line (CHR '' '') (isBackground s) clear_toks = Inr (isBackground s, t2)"
    "\<forall>k<length ws. tok t2 k = Some (ws ! k)" "tok t2 (length ws) = None"
    using setStringTokens_words [OF ws(1) _ ws(4) hd(1), of "CHR '' ''" "isBackground s"] ws(2) by auto
  have "argv_of t2 = ws" using argv_of_toks t2 ws(4) by blast
  moreover have "tok t2 0 = Some (hd ws)" using t2(2) ws(1) by (simp add: hd_conv_nth)
  ultimately show ?thesis
    using t1 t2 s by (intro that [of t2]) (simp_all add: parseInput_def clearArguments_def Let_def)
qed


definition trace_lib :: "(string list) lib" where
  "trace_lib = \<lparr>lib_puts = \<lambda>t w. w @ [t], lib_gets = \<lambda>w. (''ls -l'', w), lib_clrscr = \<lambda>w. w, lib_getcwd = \<lambda>w. (''/'', w),
     lib_chdir = \<lambda>a w. (0, w @ [''chdir'', a]), lib_fork = \<lambda>w. (3, w @ [''fork'']), lib_execvp = \<lambda>c a e w. (None, w @ c # a),
     lib_waitpid = \<lambda>p w. w @ [''wait''], lib_fopen = \<lambda>f w. (3, w), lib_read = \<lambda>f w. (''pwd'' @ [CHR 0x0A], w)\<rparr>"

definition example_shell :: shell where
  "example_shell = \<lparr>isBackground = False, inp = ''ls -l'', pwd = '''', prompt = '''', prompt1 = '''', args = clear_toks, command = None,
     envpe = []\<rparr>"


section \<open>Background commands\<close>

lemma end_token_bg: "end_token n i j True t = Inr (bg, t') \<Longrightarrow> bg"
  by (auto simp: end_token_def res_simps split: if_splits)

lemma token_loop_bg: "token_loop n d first i j cs True t = Inr (bg, t') \<Longrightarrow> bg"
proof (induction cs arbitrary: first i j t)
  case Nil
  then show ?case by (auto simp: res_simps dest: end_token_bg)
next
  case (Cons c cs)
  have *: "bg" if "end_token n i j True t = Inr (b, t1)" "token_loop n d False (i + 1) 0 cs b t1 = Inr (bg, t')" for b t1
    using end_token_bg [OF that(1)] that(2) Cons.IH by simp
  show ?case using Cons.prems Cons.IH * by (auto simp: res_simps split: if_splits)
qed

lemma setStringTokens_bg: "setStringTokens n cs d True t = Inr (bg, t') \<Longrightarrow> bg"
  unfolding setStringTokens_def by (rule token_loop_bg)

lemma setvar_bg: "isBackground s \<Longrightarrow> setvar garbage s = Inr s' \<Longrightarrow> isBackground s'"
  by (auto simp: setvar_def Let_def res_simps split: option.splits if_splits dest!: setStringTokens_bg)

lemma execCommand_bg:
  "isBackground s \<Longrightarrow> execCommand garbage l s w = Inr (out, s', w') \<Longrightarrow> isBackground s'"
  by (auto simp: execCommand_def get_pwd_def set_prompt_def Let_def res_simps split: option.splits if_splits prod.splits dest: setvar_bg)

text \<open>The library with another \<^verbatim>\<open>waitpid\<close>.\<close>

lemma no_wait_simps:
  "chdir_1 (l\<lparr>lib_waitpid := f\<rparr>) s w = chdir_1 l s w" "get_pwd (l\<lparr>lib_waitpid := f\<rparr>) s w = get_pwd l s w"
  by (auto simp: chdir_1_def get_pwd_def split: option.splits prod.splits)

lemma forkandExec_no_wait: "isBackground s \<Longrightarrow> forkandExec (l\<lparr>lib_waitpid := f\<rparr>) c a s w = forkandExec l c a s w"
  by (auto simp: forkandExec_def Let_def split: prod.splits option.splits)

lemma execCommand_no_wait:
  "isBackground s \<Longrightarrow> execCommand garbage (l\<lparr>lib_waitpid := f\<rparr>) s w = execCommand garbage l s w"
  by (cases "command s") (simp_all add: execCommand_def no_wait_simps forkandExec_no_wait)

lemma parseInput_no_wait:
  assumes "isBackground s"
  shows "parseInput garbage (l\<lparr>lib_waitpid := f\<rparr>) s w = parseInput garbage l s w"
    "parseInput garbage l s w = Inr (out, s', w') \<Longrightarrow> isBackground s'"
proof -
  have b: "bg" if "setStringTokens n cs d b0 t = Inr (bg, t')" "b0" for n cs d b0 t bg t'
    using setStringTokens_bg [of n cs d t bg t'] that by simp
  show "parseInput garbage (l\<lparr>lib_waitpid := f\<rparr>) s w = parseInput garbage l s w"
    unfolding parseInput_def using assms
    by (auto simp: Let_def clearArguments_def execCommand_no_wait rbind_def split: sum.splits dest!: b)
  show "isBackground s'" if "parseInput garbage l s w = Inr (out, s', w')"
    using that assms unfolding parseInput_def
    by (auto simp: Let_def clearArguments_def res_simps split: if_splits dest!: b execCommand_bg [rotated])
qed

lemma run_lines_no_wait:
  "isBackground s \<Longrightarrow> run_lines garbage (l\<lparr>lib_waitpid := f\<rparr>) ls s w = run_lines garbage l ls s w"
proof (induction ls arbitrary: s w)
  case (Cons line ls)
  let ?s = "s\<lparr>inp := line\<rparr>"
  have bg: "isBackground ?s" using Cons.prems by simp
  note p = parseInput_no_wait(1) [OF bg, where garbage = garbage and l = l and f = f and w = w]
  show ?case
  proof (cases "parseInput garbage l ?s w")
    case (Inr x)
    obtain out s' w' where x: "x = (out, s', w')" by (cases x)
    have "isBackground s'" using parseInput_no_wait(2) [OF bg] Inr x by simp
    then show ?thesis using Cons.IH p Inr x by (simp add: run_line_def clearArguments_def clearInput_def)
  qed (simp add: run_line_def p)
qed simp

text \<open>
  The background flag is never cleared: once a line has set it, no later line waits for its program,
  whatever the lines are. Replacing \<open>waitpid\<close> by any other function changes nothing.
\<close>

theorem background_sticks:
  assumes "isBackground s"
  shows "run_lines garbage (l\<lparr>lib_waitpid := f\<rparr>) ls s w = run_lines garbage l ls s w \<and>
    (run_line garbage l s w = Inr (out, s', w') \<longrightarrow> isBackground s')"
  using run_lines_no_wait [OF assms] parseInput_no_wait(2) [OF assms]
  by (auto simp: run_line_def res_simps clearArguments_def clearInput_def)

theorem background_sticks_witness:
  "run_lines (\<lambda>_ _. NUL) (trace_lib\<lparr>lib_waitpid := \<lambda>p w. []\<rparr>) [''ls'', ''ps''] (example_shell\<lparr>isBackground := True\<rparr>) [] =
   run_lines (\<lambda>_ _. NUL) trace_lib [''ls'', ''ps''] (example_shell\<lparr>isBackground := True\<rparr>) []"
  by (rule background_sticks [THEN conjunct1]) simp

section \<open>Scripts, the prompt and empty commands\<close>

lemma script_loop_line:
  "CHR 0x0A \<notin> set line \<Longrightarrow> length ls < n_lines \<Longrightarrow> length row + length line < n_line \<Longrightarrow>
     script_loop ls row (line @ CHR 0x0A # cs) = script_loop (ls @ [row @ line]) '''' cs"
  by (induction line arbitrary: row) auto

lemma script_loop_lines:
  "\<forall>line\<in>set ls'. CHR 0x0A \<notin> set line \<and> length line < n_line \<Longrightarrow> length ls + length ls' \<le> n_lines \<Longrightarrow>
     script_loop ls '''' (concat (map (\<lambda>line. line @ [CHR 0x0A]) ls')) = Inr (ls @ ls')"
  by (induction ls' arbitrary: ls) (auto simp: script_loop_line)

text \<open>
  A script runs its lines: a file of at most 20 lines, each shorter than 100 characters and ended by a
  newline, is run line by line in order, as if each had been typed.
\<close>

theorem script_runs_lines:
  assumes "\<forall>line\<in>set ls. CHR 0x0A \<notin> set line \<and> length line < n_line" "length ls \<le> n_lines"
    and "lib_fopen l file w = (fp, w1)" "fp \<noteq> - 1" "lib_read l fp w1 = (concat (map (\<lambda>line. line @ [CHR 0x0A]) ls), w2)"
  shows "shell_script garbage l file s w = run_lines garbage l ls s w2"
  using assms script_loop_lines [of ls "[]"] by (simp add: shell_script_def script_lines_def)

theorem script_runs_lines_witness:
  "shell_script (\<lambda>_ _. NUL) trace_lib ''rc'' example_shell [] = run_lines (\<lambda>_ _. NUL) trace_lib [''pwd''] example_shell []"
  using script_runs_lines [of "[''pwd'']" trace_lib "''rc''" "[]" 3 "[]" "[]"] by (simp add: trace_lib_def)

text \<open>
  After \<open>cd\<close> the prompt names the working directory the system then has, whether the change of
  directory succeeded or not.
\<close>

theorem cd_updates_prompt:
  assumes "command s = Some ''cd''" "execCommand garbage l s w = Inr (out, s', w')"
  shows "out = Goes_on \<and> (\<exists>d w1. w1 = chdir_1 l s w \<and> lib_getcwd l w1 = (d, w') \<and> prompt1 s' = prompt s @ '':'' @ d @ ''$'' \<and> pwd s' = d)"
  using assms by (auto simp: execCommand_def get_pwd_def set_prompt_def Let_def res_simps split: prod.splits if_splits)

theorem cd_updates_prompt_witness:
  "\<exists>s' w'. execCommand (\<lambda>_ _. NUL) trace_lib (example_shell\<lparr>command := Some ''cd'', prompt := ''sbush''\<rparr>) [] = Inr (Goes_on, s', w') \<and>
     prompt1 s' = ''sbush:/$''"
proof -
  let ?s = "example_shell\<lparr>command := Some ''cd'', prompt := ''sbush''\<rparr>"
  obtain s' w' where e: "execCommand (\<lambda>_ _. NUL) trace_lib ?s [] = Inr (Goes_on, s', w')"
    by (simp add: execCommand_def get_pwd_def set_prompt_def trace_lib_def example_shell_def Let_def)
  from cd_updates_prompt [OF _ e] e show ?thesis by (auto simp: trace_lib_def example_shell_def)
qed

text \<open>A line with nothing but a blank makes the shell compare a null pointer.\<close>

lemma blank_line_faults:
  assumes "args s = clear_toks" "inp s = '' ''"
  shows "parseInput garbage l s w = Inl NullDeref"
proof -
  have "setStringTokens n_args '' '' d bg clear_toks =
      Inr (bg, clear_toks\<lparr>rows := (rows clear_toks)(0 := (rows clear_toks 0)(0 := NUL)), live_row := (\<lambda>_. True)(0 := False, 1 := False)\<rparr>)"
    if "d = CHR ''|'' \<or> d = CHR '' ''" for d bg
  proof -
    have "row_str (\<lambda>_. NUL) = ''''" by (rule row_str_eq) simp_all
    then show ?thesis using that by (auto simp: setStringTokens_def end_token_def put_char_def set_null_def clear_toks_def fun_upd_def cong: if_cong)
  qed
  then show ?thesis using assms by (simp add: parseInput_def clearArguments_def execCommand_def tok_def Let_def)
qed

end
