(* ===== verification/User_Lib.thy ===== *)
theory User_Lib
  imports Kernel
begin

text \<open>
  The C library's system calls (\<^verbatim>\<open>include/syscall.h\<close> and the small files of \<^verbatim>\<open>libc\<close>) on top of
  the kernel's dispatcher, and the programs \<^verbatim>\<open>cat\<close>, \<^verbatim>\<open>echo\<close>, \<^verbatim>\<open>ls\<close>, \<^verbatim>\<open>kill\<close>,
  \<^verbatim>\<open>ps\<close> and \<^verbatim>\<open>sleep\<close>. A program's call is an interrupt 0x80 of the running task: the model
  runs \<open>isr128\<close> on the registers the macro loads. A string argument is the string that lies behind the
  pointer; the kernel's stores through pointers come back as a list.
\<close>

section \<open>The system call macros\<close>

text \<open>The handler looks at \<open>rbx\<close>, \<open>rcx\<close> and \<open>rdx\<close> only.\<close>

definition regs :: "u64 \<Rightarrow> u64 \<Rightarrow> u64 \<Rightarrow> registers_t" where
  "regs b c d = \<lparr>r15 = 0, r14 = 0, r13 = 0, r12 = 0, r11 = 0, r10 = 0, r9 = 0, r8 = 0, rbp = 0, rdi = 0, rsi = 0,
     rdx = d, rcx = c, rbx = b\<rparr>"

abbreviation no_strs :: "u64 \<Rightarrow> string list" where "no_strs \<equiv> \<lambda>_. []"

definition syscall0 :: "u64 \<Rightarrow> 'a fskernel_scheme \<Rightarrow> (sysres \<times> uwrites \<times> 'a fskernel_scheme) res" where
  "syscall0 nr s = isr128 (\<lambda>_. []) no_strs nr (regs 0 0 0) s"

definition syscall1 :: "(u64 \<Rightarrow> string) \<Rightarrow> u64 \<Rightarrow> u64 \<Rightarrow> 'a fskernel_scheme \<Rightarrow> (sysres \<times> uwrites \<times> 'a fskernel_scheme) res" where
  "syscall1 ustr nr a s = isr128 ustr no_strs nr (regs a 0 0) s"

definition syscall2 :: "(u64 \<Rightarrow> string) \<Rightarrow> u64 \<Rightarrow> u64 \<Rightarrow> u64 \<Rightarrow> 'a fskernel_scheme \<Rightarrow> (sysres \<times> uwrites \<times> 'a fskernel_scheme) res" where
  "syscall2 ustr nr a b s = isr128 ustr no_strs nr (regs a b 0) s"

definition syscall3 :: "(u64 \<Rightarrow> string) \<Rightarrow> (u64 \<Rightarrow> string list) \<Rightarrow> u64 \<Rightarrow> u64 \<Rightarrow> u64 \<Rightarrow> u64 \<Rightarrow> 'a fskernel_scheme \<Rightarrow>
    (sysres \<times> uwrites \<times> 'a fskernel_scheme) res" where
  "syscall3 ustr uvec nr a b c s = isr128 ustr uvec nr (regs a b c) s"

text \<open>The value of a call that returns at once. The calls the programs below make are of this kind.\<close>

definition value_of :: "(sysres \<times> uwrites \<times> 's) res \<Rightarrow> (int \<times> uwrites \<times> 's) res" where
  "value_of x = rbind x (\<lambda>(res, out, s). case res of Ret v \<Rightarrow> Inr (as_int v, out, s) | _ \<Rightarrow> Inl Hang)"

section \<open>The library\<close>

text \<open>\<^verbatim>\<open>puts\<close>, and \<^verbatim>\<open>fputs\<close> which ignores its file.\<close>

definition puts :: "string \<Rightarrow> 'a fskernel_scheme \<Rightarrow> 'a fskernel_scheme res" where
  "puts t s = rbind (value_of (syscall3 (\<lambda>_. t) no_strs 1 1 0 (of_nat (length t)) s)) (\<lambda>(_, _, s). Inr s)"

definition open_call :: "string \<Rightarrow> int \<Rightarrow> 'a fskernel_scheme \<Rightarrow> (int \<times> 'a fskernel_scheme) res" where
  "open_call path flags s = rbind (value_of (syscall2 (\<lambda>_. path) 2 0 (word_of_int flags) s)) (\<lambda>(fd, _, s). Inr (fd, s))"

text \<open>\<^verbatim>\<open>fopen(name, "r")\<close>, the only mode the programs use.\<close>

definition fopen :: "string \<Rightarrow> 'a fskernel_scheme \<Rightarrow> (int \<times> 'a fskernel_scheme) res" where
  "fopen nm s = open_call nm 0 s"

definition close_call :: "int \<Rightarrow> 'a fskernel_scheme \<Rightarrow> (int \<times> 'a fskernel_scheme) res" where
  "close_call fd s = rbind (value_of (syscall1 (\<lambda>_. []) 3 (word_of_int fd) s)) (\<lambda>(v, _, s). Inr (v, s))"

definition clrscr_call :: "'a fskernel_scheme \<Rightarrow> 'a fskernel_scheme res" where
  "clrscr_call s = rbind (value_of (syscall0 7 s)) (\<lambda>(_, _, s). Inr s)"

definition ps_call :: "'a fskernel_scheme \<Rightarrow> 'a fskernel_scheme res" where
  "ps_call s = rbind (value_of (syscall0 299 s)) (\<lambda>(_, _, s). Inr s)"

definition kill_call :: "int \<Rightarrow> 'a fskernel_scheme \<Rightarrow> (int \<times> 'a fskernel_scheme) res" where
  "kill_call pid s = rbind (value_of (syscall1 (\<lambda>_. []) 62 (word_of_int pid) s)) (\<lambda>(v, _, s). Inr (v, s))"

text \<open>
  The strings the kernel stores at a buffer of \<open>n\<close> bytes, which held \<open>old\<close>: the first zero byte ends the
  result.
\<close>

definition into_buffer :: "nat \<Rightarrow> string \<Rightarrow> uwrites \<Rightarrow> string res" where
  "into_buffer n old out =
     (case out of
        [] \<Rightarrow> Inr (takeWhile (\<lambda>c. c \<noteq> CHR 0x00) old)
      | (_, b) # _ \<Rightarrow>
          if length b > n then Inl BufferOverflow else Inr (takeWhile (\<lambda>c. c \<noteq> CHR 0x00) (b @ drop (length b) old)))"

definition readstring :: "int \<Rightarrow> nat \<Rightarrow> string \<Rightarrow> 'a fskernel_scheme \<Rightarrow> (int \<times> string \<times> 'a fskernel_scheme) res" where
  "readstring fd n old s =
     rbind (value_of (syscall3 (\<lambda>_. []) no_strs 0 (word_of_int fd) 0 (of_nat n) s)) (\<lambda>(v, out, s).
     rbind (into_buffer n old out) (\<lambda>b. Inr (v, b, s)))"

text \<open>
  \<^verbatim>\<open>getcwd\<close> into a buffer of \<open>n\<close> bytes, and \<^verbatim>\<open>chdir\<close>, which puts a slash behind the path in
  a buffer of 40.
\<close>

definition getcwd_call :: "nat \<Rightarrow> string \<Rightarrow> 'a fskernel_scheme \<Rightarrow> (string \<times> 'a fskernel_scheme) res" where
  "getcwd_call n old s =
     rbind (value_of (syscall2 (\<lambda>_. []) 79 0 (- 1) s)) (\<lambda>(_, out, s).
     rbind (into_buffer n old out) (\<lambda>b. Inr (b, s)))"

definition chdir_call :: "string \<Rightarrow> 'a fskernel_scheme \<Rightarrow> (int \<times> 'a fskernel_scheme) res" where
  "chdir_call path s =
     (if path = [] then Inl OutOfBounds
      else
        let a = (if last path \<noteq> CHR ''/'' then path @ ''/'' else path) in
        if length a \<ge> 40 then Inl BufferOverflow
        else rbind (value_of (syscall1 (\<lambda>_. a) 80 0 s)) (\<lambda>(v, _, s). Inr (v, s)))"

text \<open>
  Directories: a \<open>DIR\<close> is the index of its entry in the static table, whose field \<open>fd\<close> is the same
  number, or the failure \<open>-1\<close>; the name kept there is never read.
\<close>

abbreviation n_dirs :: int where "n_dirs \<equiv> 100"
abbreviation NAME_MAX :: nat where "NAME_MAX \<equiv> 255"

definition opendir :: "string \<Rightarrow> 'a fskernel_scheme \<Rightarrow> (int \<times> 'a fskernel_scheme) res" where
  "opendir nm s =
     rbind (value_of (syscall1 (\<lambda>_. nm) 16 0 s)) (\<lambda>(l, _, s).
     if l = - 1 then Inr (- 1, s)
     else if l < 0 \<or> l \<ge> n_dirs then Inl OutOfBounds
     else if length nm > NAME_MAX then Inl BufferOverflow
     else Inr (l, s))"

text \<open>\<^verbatim>\<open>readdir\<close>: \<open>None\<close> is \<^verbatim>\<open>NULL\<close>.\<close>

definition readdir :: "int \<Rightarrow> 'a fskernel_scheme \<Rightarrow> (string option \<times> 'a fskernel_scheme) res" where
  "readdir fd s =
     (if fd < 0 \<or> fd \<ge> n_dirs then Inl OutOfBounds
      else
        rbind (value_of (syscall3 (\<lambda>_. []) no_strs 78 (word_of_int fd) 0 4096 s)) (\<lambda>(v, out, s).
        if v = 0 then Inr (None, s)
        else rbind (into_buffer (NAME_MAX + 1) [] out) (\<lambda>b. Inr (Some b, s))))"

section \<open>Programs\<close>

text \<open>
  \<open>argv\<close> with the program's name first. The result of \<^verbatim>\<open>main\<close> and the state it leaves;
  a \<^verbatim>\<open>main\<close> that ends without a return gives 0.
\<close>

definition cat :: "string list \<Rightarrow> 'a fskernel_scheme \<Rightarrow> (int \<times> 'a fskernel_scheme) res" where
  "cat argv s =
     (if length argv < 2 then
        rbind (puts (''-cat: No file name given'' @ [CHR 0x0A]) s) (\<lambda>s. Inr (- 1, s))
      else
        rbind (fopen (argv ! 1) s) (\<lambda>(fp, s).
        if fp < 0 then
          rbind (puts ''cat: '' s) (\<lambda>s. rbind (puts (argv ! 1) s) (\<lambda>s.
          rbind (puts ('': No such file'' @ [CHR 0x0A]) s) (\<lambda>s. Inr (- 1, s))))
        else
          rbind (readstring fp 4096 [] s) (\<lambda>(_, txt, s).
          rbind (puts txt s) (\<lambda>s.
          rbind (close_call fp s) (\<lambda>(_, s). Inr (0, s))))))"

definition echo :: "string list \<Rightarrow> 'a fskernel_scheme \<Rightarrow> (int \<times> 'a fskernel_scheme) res" where
  "echo argv s =
     rbind (rfold (\<lambda>a s. rbind (puts a s) (puts ''   '')) (tl argv) s) (\<lambda>s.
     rbind (puts [CHR 0x0A] s) (\<lambda>s. Inr (0, s)))"

text \<open>The loop of \<^verbatim>\<open>ls\<close>, which ends at the first \<^verbatim>\<open>NULL\<close>.\<close>

partial_function (option) ls_loop :: "int \<Rightarrow> 'a fskernel_scheme \<Rightarrow> 'a fskernel_scheme res option" where
  "ls_loop fd s =
     (case readdir fd s of
        Inl e \<Rightarrow> Some (Inl e)
      | Inr (None, s) \<Rightarrow> Some (Inr s)
      | Inr (Some nm, s) \<Rightarrow>
          (case rbind (puts nm s) (puts ''     '') of
             Inl e \<Rightarrow> Some (Inl e)
           | Inr s \<Rightarrow> ls_loop fd s))"

abbreviation n_dir :: nat where "n_dir \<equiv> 50"

definition ls :: "string list \<Rightarrow> 'a fskernel_scheme \<Rightarrow> (int \<times> 'a fskernel_scheme) res" where
  "ls argv s =
     rbind (if length argv = 1 then
              rbind (getcwd_call n_dir [] s) (\<lambda>(dir, s).
              Inr (if length dir > 1 then dir @ ''/'' else dir, s))
            else if argv = [] then Inl NullDeref
            else if argv ! 1 = [] then Inl OutOfBounds
            else Inr (if last (argv ! 1) \<noteq> CHR ''/'' then argv ! 1 @ ''/'' else argv ! 1, s)) (\<lambda>(dir, s).
     if length dir \<ge> n_dir then Inl BufferOverflow
     else
       rbind (opendir dir s) (\<lambda>(fd, s).
       if fd = - 1 then
         rbind (puts (''Unknown file path passed'' @ [CHR 0x0A]) s) (\<lambda>s. rbind (puts dir s) (\<lambda>s. Inr (0, s)))
       else
         case ls_loop fd s of
           None \<Rightarrow> Inl Hang
         | Some res \<Rightarrow>
             rbind res (\<lambda>s. rbind (puts [CHR 0x0A] s) (\<lambda>s. rbind (close_call fd s) (\<lambda>(_, s). Inr (0, s))))))"

text \<open>\<^verbatim>\<open>strtoInt\<close> of \<^verbatim>\<open>kill\<close> and \<^verbatim>\<open>sleep\<close>, with the overflow of \<^verbatim>\<open>int\<close> as a fault.\<close>

fun strtoInt_loop :: "int \<Rightarrow> string \<Rightarrow> int res" where
  "strtoInt_loop dec [] = Inr dec"
| "strtoInt_loop dec (c # cs) =
     (let d = dec * 10 + (schar c - 48) in
      if int32 (dec * 10) \<and> int32 d then strtoInt_loop d cs else Inl SignedOverflow)"

definition strtoInt :: "string \<Rightarrow> int res" where
  "strtoInt num = strtoInt_loop 0 num"

definition kill_prog :: "string list \<Rightarrow> 'a fskernel_scheme \<Rightarrow> 'a fskernel_scheme res" where
  "kill_prog argv s =
     rbind (if length argv < 3 then puts ''kill: usage: kill -9 pid'' s else Inr s) (\<lambda>s.
     if length argv < 3 then Inl NullDeref
     else
       rbind (strtoInt (argv ! 2)) (\<lambda>pid.
       rbind (if pid < 0 then puts ''kill: usage: kill -9 pid'' s else Inr s) (\<lambda>s.
       rbind (kill_call pid s) (\<lambda>(_, s). Inr s))))"

text \<open>The call \<^verbatim>\<open>sleep\<close> makes: it is continued when the time is over.\<close>

definition sleep_prog :: "string list \<Rightarrow> 'a fskernel_scheme \<Rightarrow> (sysres \<times> uwrites \<times> 'a fskernel_scheme) res" where
  "sleep_prog argv s =
     (if length argv < 2 then Inl NullDeref
      else rbind (strtoInt (argv ! 1)) (\<lambda>k. syscall1 (\<lambda>_. []) 35 (word_of_int k) s))"

definition ps_prog :: "'a fskernel_scheme \<Rightarrow> (int \<times> 'a fskernel_scheme) res" where
  "ps_prog s = rbind (ps_call s) (\<lambda>s. Inr (0, s))"

section \<open>What the calls reach\<close>

lemma puts_eq: "puts t s = Inr (s\<lparr>scr := fold put_to_screen t (scr s)\<rparr>)"
  by (simp add: puts_def value_of_def syscall3_def isr128_def regs_def kprintf_def)

lemma as_int_word_of_int: "int32 k \<Longrightarrow> as_int (word_of_int k) = k"
proof -
  assume k: "int32 k"
  have "ucast (word_of_int k :: u64) = (word_of_int k :: u32)"
    by (rule bit_word_eqI) (simp add: bit_simps)
  then have "as_int (word_of_int k) = signed_take_bit 31 k" by (simp add: sint_uint uint_word_of_int_eq signed_take_bit_take_bit)
  then show ?thesis using k by (simp add: int32_def signed_take_bit_int_eq_self)
qed

lemma fopen_eq:
  "open_tarfs nm 0 s = Inr (fd, s') \<Longrightarrow> int32 fd \<Longrightarrow> fopen nm s = Inr (fd, s')"
  by (simp add: fopen_def open_call_def value_of_def syscall2_def isr128_def regs_def as_int_word_of_int)

lemma readstring_eq:
  assumes "read_tarfs fd (int n) s = Inr (v, b)" "0 < fd" "int32 fd" "int32 (int n)" "int32 v"
  shows "readstring fd n old s = rbind (into_buffer n old [(0, b)]) (\<lambda>b. Inr (v, b, s))"
proof -
  have "(word_of_int fd :: u64) \<noteq> 0"
  proof
    assume "(word_of_int fd :: u64) = 0"
    then have "as_int (word_of_int fd) = 0" by simp
    then show False using assms(2) as_int_word_of_int [OF assms(3)] by simp
  qed
  moreover have "as_int (of_nat n) = int n" using as_int_word_of_int [OF assms(4)] by simp
  ultimately show ?thesis
    using assms(1) as_int_word_of_int [OF assms(3)] as_int_word_of_int [OF assms(5)]
    by (simp add: readstring_def value_of_def syscall3_def isr128_def regs_def)
qed

lemma close_call_eq: "close_tarfs fd s = Inr v \<Longrightarrow> int32 fd \<Longrightarrow> close_call fd s = Inr (as_int (word_of_int v), s)"
  by (simp add: close_call_def value_of_def syscall1_def isr128_def regs_def as_int_word_of_int)

lemma close_call_total: "fd_ok fd \<Longrightarrow> \<exists>v. close_call fd s = Inr (v, s)"
  using close_call_eq [of fd s] by (auto simp: close_tarfs_def fd_ok_def int32_def Let_def)

section \<open>Files\<close>

text \<open>What \<open>open_tarfs\<close> leaves in the new descriptor.\<close>

lemma open_tarfs_effect:
  assumes cd: "t_curr_dir (cur s) = ''/'' @ render ds"
    and path: "\<forall>c\<in>set (ds @ cs). component c" "tail_name f" "length (render (ds @ cs) @ f) < 50"
    and hdr: "k < 32" "k < length (headers s)" "h_name s (headers s ! k) = render (resolve [] (ds @ cs)) @ f"
      "\<forall>j<k. h_name s (headers s ! j) \<noteq> render (resolve [] (ds @ cs)) @ f"
    and fdc: "0 \<le> t_fd_c (cur s)" "t_fd_c (cur s) < 22"
    and sz: "octal_to_binary (h_size s (headers s ! k)) = Inr sz"
  shows "\<exists>s'. open_tarfs (render cs @ f) fl s = Inr (t_fd_c (cur s) + 3, s') \<and>
    (let d = t_fd (cur s') (nat (t_fd_c (cur s) + 3)) in
       f_aval d = 1 \<and> f_size d = sz \<and> f_address d = tar_base s + of_nat (headers s ! k) \<and> f_fd d = t_fd_c (cur s) + 3) \<and>
    tar_base s' = tar_base s \<and> tar_img s' = tar_img s \<and> scr s' = scr s"
proof -
  let ?t = "render (resolve [] (ds @ cs)) @ f"
  obtain m where m: "setTruePath (t_curr_dir (cur s)) (render cs @ f) = Inr m" "buf_str m 100 0 = ?t"
    using setTruePath_relative [OF path] cd by auto
  have len: "length ?t < 50" using length_resolve [of "[]" "ds @ cs"] path(3) by simp
  have ex: "isfileexists (render cs @ f) s = Inr (Some k)"
    using isfileexists_first [OF m(1), of k] hdr path(3) unfolding m(2) by simp
  show ?thesis
    using ex fdc sz len hdr(3)
    by (simp add: open_tarfs_def new_fd_def set_fd_def set_task_def Let_def h_name_def str_at_def h_size_def)
qed

text \<open>A read of a whole file: the recorded size many bytes, and the end-of-string.\<close>

lemma read_tarfs_all:
  assumes "fd_ok fd" "f_aval (t_fd (cur s) (nat fd)) = 1" "f_size (t_fd (cur s) (nat fd)) = sz" "unat sz < 4096"
    and "f_address (t_fd (cur s) (nat fd)) = tar_base s + of_nat h" "h < 2 ^ 64"
  shows "read_tarfs fd 4096 s = Inr (int (unat sz), map (\<lambda>i. tar_img s (h + 512 + i)) [0..<unat sz] @ [CHR 0x00])"
proof -
  have "sz < 4096" using assms(4) by (simp add: word_less_nat_alt)
  moreover have "unat (ucast sz :: u32) = unat sz" using assms(4) by (intro unat_ucast_small) simp
  then have "sint (ucast sz :: u32) = int (unat sz)" using assms(4) sint_small [of "ucast sz :: u32"] by simp
  moreover have "unat (of_nat h :: u64) = h" using assms(6) by (simp add: unat_of_nat_lt)
  ultimately show ?thesis using assms by (simp add: read_tarfs_def Let_def)
qed

lemma takeWhile_text:
  assumes "CHR 0x00 \<notin> set t" "length t \<le> n" "\<And>i. i < length t \<Longrightarrow> g i = t ! i" "length t < n \<Longrightarrow> g (length t) = CHR 0x00"
  shows "takeWhile (\<lambda>c. c \<noteq> CHR 0x00) (map g [0..<n] @ [CHR 0x00]) = t"
proof -
  have "[0..<n] = [0..<length t] @ [length t..<n]" using assms(2) upt_add_eq_append [of 0 "length t" "n - length t"] by simp
  moreover have "map g [0..<length t] = t" using assms(3) by (intro nth_equalityI) auto
  ultimately have "map g [0..<n] @ [CHR 0x00] = t @ map g [length t..<n] @ [CHR 0x00]" by simp
  moreover have "takeWhile (\<lambda>c. c \<noteq> CHR 0x00) (map g [length t..<n] @ [CHR 0x00]) = []"
    using assms(4) by (cases "length t < n") (simp_all add: upt_conv_Cons)
  moreover have "\<forall>c\<in>set t. c \<noteq> CHR 0x00" using assms(1) by auto
  ultimately show ?thesis by (simp add: takeWhile_append)
qed


lemma example_fs_text:
  "example_img 1024 = CHR ''a''" "example_img 1025 = CHR ''b''" "example_img 1026 = CHR ''c''" "example_img 1027 = CHR 0x00"
  by code_simp+


section \<open>Directories\<close>

text \<open>
  The entries \<open>readdir_tarfs\<close> runs through for the directory name \<open>dir\<close>: of the archive names that share
  more than one character with it (all names, for the root) what is behind the common part.
\<close>

definition dir_entries :: "string \<Rightarrow> string list \<Rightarrow> string list" where
  "dir_entries dir nms =
     map (\<lambda>nm. substring nm (starts_with nm dir)) (filter (\<lambda>nm. starts_with nm dir > 0 \<or> dir = ''/'') nms)"

lemma readdir_loop_from:
  "1 \<le> c \<Longrightarrow> c \<le> e \<Longrightarrow> readdir_loop dir nms c e =
     (if nat (e - c) < length (dir_entries dir nms) then (Some (dir_entries dir nms ! nat (e - c)), e + 1) else (None, e))"
proof (induction nms arbitrary: c)
  case (Cons nm nms)
  show ?case
  proof (cases "starts_with nm dir > 0 \<or> dir = ''/''")
    case True
    then have m: "dir_entries dir (nm # nms) = substring nm (starts_with nm dir) # dir_entries dir nms" by (auto simp: dir_entries_def)
    show ?thesis
    proof (cases "c = e")
      case False
      then have "nat (e - c) = Suc (nat (e - (c + 1)))" using Cons.prems by linarith
      then show ?thesis using True m False Cons.prems Cons.IH [of "c + 1"] by (simp add: Let_def)
    qed (use True m Cons.prems in \<open>simp add: Let_def\<close>)
  next
    case False
    then have "dir_entries dir (nm # nms) = dir_entries dir nms" by (simp add: dir_entries_def)
    then show ?thesis using False Cons by (simp add: Let_def)
  qed
qed (simp add: dir_entries_def)

text \<open>The first entry is passed over.\<close>

lemma readdir_loop_start:
  "0 \<le> e \<Longrightarrow> readdir_loop dir nms 0 e =
     (let M = dir_entries dir nms; e1 = (if M = [] then e else max 1 e) in
      if nat (max 1 e) < length M then (Some (M ! nat (max 1 e)), max 1 e + 1) else (None, e1))"
proof (induction nms)
  case (Cons nm nms)
  show ?case
  proof (cases "starts_with nm dir > 0 \<or> dir = ''/''")
    case True
    then have m: "dir_entries dir (nm # nms) = substring nm (starts_with nm dir) # dir_entries dir nms" by (auto simp: dir_entries_def)
    have e: "(if e = 0 then e + 1 else e) = max 1 e" using Cons.prems by auto
    have "nat (max 1 e) = Suc (nat (max 1 e - 1))" by auto
    then show ?thesis
      using True m Cons.prems readdir_loop_from [of 1 "max 1 e" dir nms] by (simp add: Let_def e nth_Cons' split del: if_split) simp
  next
    case False
    then have "dir_entries dir (nm # nms) = dir_entries dir nms" by (simp add: dir_entries_def)
    then show ?thesis using False Cons by (simp add: Let_def)
  qed
qed (simp add: dir_entries_def)

text \<open>An open directory: descriptor \<open>fd\<close> of the running task, for the name \<open>dir\<close>, at entry \<open>e\<close>.\<close>

definition dir_open :: "int \<Rightarrow> string \<Rightarrow> int \<Rightarrow> string list \<Rightarrow> 'a fskernel_scheme \<Rightarrow> bool" where
  "dir_open fd dir e nms s \<longleftrightarrow> fd_ok fd \<and> 0 \<le> e \<and> f_name (t_fd (cur s) (nat fd)) = dir \<and> f_entry (t_fd (cur s) (nat fd)) = e \<and>
     map (h_name s) (take 32 (headers s)) = nms"

lemma h_name_frame [simp]: "h_name (s\<lparr>q := x\<rparr>) = h_name s" "h_name (s\<lparr>scr := v\<rparr>) = h_name s"
  by (auto simp: h_name_def str_at_def fun_eq_iff)

lemma h_name_no_nul: "CHR 0x00 \<notin> set (h_name s h)"
  by (auto simp: h_name_def str_at_def dest: set_takeWhileD)

lemma dir_entries_no_nul:
  "x \<in> set (dir_entries dir (map (h_name s) hs)) \<Longrightarrow> CHR 0x00 \<notin> set x"
  using h_name_no_nul by (fastforce simp: dir_entries_def substring_def dest: in_set_dropD)

lemma takeWhile_zero: "CHR 0x00 \<notin> set x \<Longrightarrow> takeWhile (\<lambda>c. c \<noteq> CHR 0x00) (x @ [CHR 0x00]) = x"
  by (induction x) auto

lemma readdir_step:
  assumes o: "dir_open fd dir e nms s" and len: "\<forall>x\<in>set (dir_entries dir nms). length x \<le> NAME_MAX"
  shows "\<exists>s' e'. readdir fd s =
      Inr (if nat (max 1 e) < length (dir_entries dir nms) then Some (dir_entries dir nms ! nat (max 1 e)) else None, s') \<and>
    dir_open fd dir e' nms s' \<and> scr s' = scr s \<and> (nat (max 1 e) < length (dir_entries dir nms) \<longrightarrow> e' = max 1 e + 1)"
proof -
  let ?M = "dir_entries dir nms" and ?f = "t_fd (cur s) (nat fd)"
  have fd: "fd_ok fd" "0 \<le> e" "f_name ?f = dir" "f_entry ?f = e" and nms: "map (h_name s) (take 32 (headers s)) = nms"
    using o by (auto simp: dir_open_def)
  then have i: "int32 fd" "0 \<le> fd" "fd < n_dirs" by (auto simp: fd_ok_def int32_def)
  obtain res e' where l: "readdir_loop dir nms 0 e = (res, e')"
    and re: "res = (if nat (max 1 e) < length ?M then Some (?M ! nat (max 1 e)) else None)"
      "nat (max 1 e) < length ?M \<longrightarrow> e' = max 1 e + 1" "0 \<le> e'"
    using readdir_loop_start [OF fd(2), of dir nms] fd(2) by (cases "readdir_loop dir nms 0 e") (auto simp: Let_def split: if_splits)
  let ?s = "set_fd (nat fd) (?f\<lparr>f_entry := e'\<rparr>) s"
  have t: "readdir_tarfs fd s = Inr (res, ?s)" using fd nms l by (simp add: readdir_tarfs_def Let_def)
  have "dir_open fd dir e' nms ?s"
    using fd(1,3) nms re(3) by (simp add: dir_open_def set_fd_def set_task_def)
  moreover have "scr ?s = scr s" by (simp add: set_fd_def set_task_def)
  moreover have "readdir fd s = Inr (res, ?s)"
  proof (cases res)
    case None
    then show ?thesis using t i as_int_word_of_int [OF i(1)]
      by (simp add: readdir_def value_of_def syscall3_def isr128_def regs_def)
  next
    case (Some x)
    then have x: "x \<in> set ?M" using re(1) by (auto split: if_splits intro: nth_mem)
    then have "CHR 0x00 \<notin> set x" using dir_entries_no_nul [of x dir s "take 32 (headers s)"] nms by simp
    moreover have "\<not> NAME_MAX < length x" using len x by auto
    ultimately show ?thesis using t i as_int_word_of_int [OF i(1)] Some takeWhile_zero [of x]
      by (simp add: readdir_def value_of_def syscall3_def isr128_def regs_def into_buffer_def)
  qed
  ultimately show ?thesis using re(2) unfolding re(1) by blast
qed

text \<open>What \<^verbatim>\<open>ls\<close> prints for a list of entries.\<close>

definition listing :: "string list \<Rightarrow> string" where
  "listing xs = concat (map (\<lambda>x. x @ ''     '') xs)"

lemma ls_loop_runs:
  assumes "dir_open fd dir e nms s" "\<forall>x\<in>set (dir_entries dir nms). length x \<le> NAME_MAX"
  shows "\<exists>s' e'. ls_loop fd s = Some (Inr s') \<and> dir_open fd dir e' nms s' \<and>
    scr s' = fold put_to_screen (listing (drop (nat (max 1 e)) (dir_entries dir nms))) (scr s)"
  using assms(1)
proof (induction "length (dir_entries dir nms) - nat (max 1 e)" arbitrary: e s rule: less_induct)
  case less
  let ?M = "dir_entries dir nms" and ?n = "nat (max 1 e)"
  obtain s1 e1 where r: "readdir fd s = Inr (if ?n < length ?M then Some (?M ! ?n) else None, s1)"
      "dir_open fd dir e1 nms s1" "scr s1 = scr s" "?n < length ?M \<longrightarrow> e1 = max 1 e + 1"
    using readdir_step [OF less.prems assms(2)] by blast
  show ?case
  proof (cases "?n < length ?M")
    case True
    let ?s = "s1\<lparr>scr := fold put_to_screen ''     '' (fold put_to_screen (?M ! ?n) (scr s))\<rparr>"
    have e: "nat (max 1 e1) = Suc ?n" using r(4) True by auto
    have o: "dir_open fd dir e1 nms ?s" using r(2) by (simp add: dir_open_def)
    obtain s' e' where ih: "ls_loop fd ?s = Some (Inr s')" "dir_open fd dir e' nms s'"
        "scr s' = fold put_to_screen (listing (drop (Suc ?n) ?M)) (scr ?s)"
      using less.hyps [OF _ o, unfolded e, OF diff_less_mono2 [OF lessI True]] by (elim exE conjE)
    have "listing (drop ?n ?M) = ?M ! ?n @ ''     '' @ listing (drop (Suc ?n) ?M)"
      using Cons_nth_drop_Suc [OF True] by (metis append.assoc concat.simps(2) list.simps(9) listing_def)
    then have "scr s' = fold put_to_screen (listing (drop ?n ?M)) (scr s)" using ih(3) by simp
    then show ?thesis using ih(1,2) r(1,3) True by (subst ls_loop.simps) (auto simp: puts_eq)
  next
    case False
    then show ?thesis using r(1,2,3) by (subst ls_loop.simps) (auto simp: listing_def)
  qed
qed

lemma open_dir_effect:
  assumes cd: "t_curr_dir (cur s) = ''/'' @ render ds"
    and path: "\<forall>c\<in>set (ds @ cs). component c" "length (render (ds @ cs)) < 50" "cs \<noteq> []" "resolve [] (ds @ cs) \<noteq> []"
    and hdr: "k < 32" "k < length (headers s)" "h_name s (headers s ! k) = render (resolve [] (ds @ cs))"
      "\<forall>j<k. h_name s (headers s ! j) \<noteq> render (resolve [] (ds @ cs))"
    and fdc: "0 \<le> t_fd_c (cur s)" "t_fd_c (cur s) < 22"
    and sz: "octal_to_binary (h_size s (headers s ! k)) = Inr sz"
  shows "\<exists>s'. open_dir (render cs) s = Inr (t_fd_c (cur s) + 3, s') \<and> scr s' = scr s \<and>
    dir_open (t_fd_c (cur s) + 3) (render (resolve [] (ds @ cs))) 0 (map (h_name s) (take 32 (headers s))) s'"
proof -
  let ?t = "render (resolve [] (ds @ cs))"
  have p: "\<forall>c\<in>set (ds @ cs). component c" "tail_name ''''" "length (render (ds @ cs) @ '''') < 50" using path by (simp_all add: tail_name_def)
  obtain m where m: "setTruePath (t_curr_dir (cur s)) (render cs) = Inr m" "buf_str m 100 0 = ?t"
    using setTruePath_relative [OF p] cd by auto
  have len: "length ?t < 50" using length_resolve [of "[]" "ds @ cs"] path(2) by simp
  have ex: "isfileexists (render cs) s = Inr (Some k)"
    using isfileexists_first [OF m(1), of k] hdr path(2) unfolding m(2) by simp
  obtain u where u: "?t = u @ ''/''" using render_last [OF path(4)] by blast
  have "render cs \<noteq> ''/''" using path(1,3) by (cases cs) (auto simp: component_def plain_def up_dir_def append_eq_Cons_conv)
  moreover have "isValidDirectory (render cs) s = Inr (Some k)" using ex hdr(3) u by (simp add: isValidDirectory_def)
  moreover have "fd_ok (t_fd_c (cur s) + 3)" using fdc by (simp add: fd_ok_def)
  ultimately show ?thesis
    using fdc sz len hdr(3)
    by (simp add: open_dir_def new_fd_def set_fd_def set_task_def Let_def dir_open_def h_size_def str_at_def)
qed


lemma listing_example: "listing (tl (dir_entries ''etc/'' [''etc/'', ''etc/rc''])) @ [CHR 0x0A] = ''rc     '' @ [CHR 0x0A]"
  by (simp add: listing_def dir_entries_def substring_def)

lemma example_fs_dir:
  "octal_to_binary (h_size (example_fs\<lparr>headers := [0, 512]\<rparr>) 0) = Inr 0"
proof -
  have "octal_to_binary ''00000000000'' = Inr 0"
    using oct_number_octs [of 0 11] oct_loop_small [of 0] by (simp add: octal_to_binary_def octs_examples oct_dec.simps misread_def)
  moreover have "h_size (example_fs\<lparr>headers := [0, 512]\<rparr>) 0 = ''00000000000''"
    by (auto simp: h_size_def holds_def example_img_def place_def nth_Cons' less_Suc_eq_0_disj intro!: str_atI)
  ultimately show ?thesis by simp
qed


section \<open>The working directory\<close>

lemma isValidDirectory_dir:
  assumes "setTruePath (t_curr_dir (cur s)) p = Inr m" "buf_str m 100 0 = render st" "st \<noteq> []" "length p < 100"
    and "k < 32" "k < length (headers s)" "h_name s (headers s ! k) = render st" "\<forall>j<k. h_name s (headers s ! j) \<noteq> render st"
  shows "isValidDirectory p s = Inr (Some k)"
proof -
  have "isfileexists p s = Inr (Some k)" using isfileexists_first [OF assms(1), of k] assms(2,4-8) by simp
  moreover obtain u where "render st = u @ ''/''" using render_last [OF assms(3)] by blast
  ultimately show ?thesis using assms(7) by (simp add: isValidDirectory_def)
qed

lemma chdir_getcwd_effect:
  assumes cd: "t_curr_dir (cur s) = ''/'' @ render ds"
    and path: "\<forall>c\<in>set (ds @ cs). component c" "length (render (ds @ cs)) < 49" "cs \<noteq> []" "resolve [] (ds @ cs) \<noteq> []"
    and p: "p \<in> {render cs, butlast (render cs)}" "p \<noteq> []" "length (render cs) < 40" "\<forall>c\<in>set cs. CHR ''/'' \<notin> set c"
    and hdr: "k < 32" "k < length (headers s)" "h_name s (headers s ! k) = render (resolve [] (ds @ cs))"
      "\<forall>j<k. h_name s (headers s ! j) \<noteq> render (resolve [] (ds @ cs))"
    and n: "50 \<le> n"
  shows "\<exists>s'. chdir_call p s = Inr (0, s') \<and> t_curr_dir (cur s') = ''/'' @ render (resolve [] (ds @ cs)) \<and>
    getcwd_call n old s' = Inr (''/'' @ butlast (render (resolve [] (ds @ cs))), s')"
proof -
  let ?D = "render (resolve [] (ds @ cs))"
  have q: "\<forall>c\<in>set (ds @ cs). component c" "tail_name ''''" "length (render (ds @ cs) @ '''') < 50" using path by (simp_all add: tail_name_def)
  obtain m where m: "setTruePath (t_curr_dir (cur s)) (render cs) = Inr m" "buf_str m 100 0 = ?D"
    using setTruePath_relative [OF q] cd by auto
  obtain u where u: "?D = u @ ''/''" using render_last [OF path(4)] by blast
  have len: "length ?D < 49" using length_resolve [of "[]" "ds @ cs"] path(2) by simp
  have v: "isValidDirectory (render cs) s = Inr (Some k)"
    using isValidDirectory_dir [OF m path(4) _ hdr] p(3) by simp
  let ?s = "set_task (r s) ((cur s)\<lparr>t_curr_dir := ''/'' @ ?D\<rparr>) s"
  have k: "chdir (render cs) s = Inr (0, ?s)"
  proof (cases "render cs = ''../''")
    case True
    have "setTruePath (t_curr_dir (cur s)) ''../'' = Inr m" "isValidDirectory ''../'' s = Inr (Some k)"
      using m(1) v unfolding True by blast+
    then show ?thesis unfolding True using m(2) len u by (simp add: chdir_def Let_def)
  qed (use v m len in \<open>simp add: chdir_def Let_def\<close>)
  have "(if last p \<noteq> CHR ''/'' then p @ ''/'' else p) = render cs"
  proof (cases "p = render cs")
    case True
    then show ?thesis using render_last [OF path(3)] by auto
  next
    case False
    have "render cs = render (butlast cs) @ last cs @ ''/''"
      using path(3) by (cases cs rule: rev_cases) (simp_all add: render_def)
    then have b: "p = render (butlast cs) @ last cs" "render cs = p @ ''/''" using False p(1) by (auto simp: butlast_append)
    have "component (last cs)" using path(1,3) by simp
    then have "last cs \<noteq> []" "CHR ''/'' \<notin> set (last cs)" using p(4) path(3) by (auto simp: component_def plain_def)
    then have "last p \<noteq> CHR ''/''" unfolding b(1) by (metis last_appendR last_in_set)
    then show ?thesis using b(2) by simp
  qed
  then have c: "chdir_call p s = Inr (0, ?s)"
    using k p(2,3) by (simp add: chdir_call_def value_of_def syscall1_def isr128_def regs_def)
  have nul: "CHR 0x00 \<notin> set ?D"
    using resolve_plain [of "[]" "ds @ cs"] path(1) by (intro render_no_nul) auto
  have g: "getcwd ?s = Inr (''/'' @ u)" using u by (simp add: getcwd_def set_task_def butlast_append)
  have "CHR 0x00 \<notin> set (''/'' @ u)" using nul u by auto
  then have "takeWhile (\<lambda>c. c \<noteq> CHR 0x00) ((''/'' @ u @ [CHR 0x00]) @ rest) = ''/'' @ u" for rest
    by (induction u) (auto simp: takeWhile_append)
  then have "getcwd_call n old ?s = Inr (''/'' @ u, ?s)"
    using g n len u by (simp add: getcwd_call_def value_of_def syscall2_def isr128_def regs_def into_buffer_def)
  then show ?thesis using c u by (simp add: set_task_def)
qed

text \<open>
  Changing the working directory: \<open>chdir\<close> of the library with a path, with or without a slash at its
  end, that leads to a directory of the archive returns 0, and \<open>getcwd\<close> then gives the absolute path of that
  directory without the slash at its end.
\<close>

theorem chdir_then_getcwd:
  assumes cd: "t_curr_dir (cur s) = ''/'' @ render ds"
    and path: "\<forall>c\<in>set (ds @ cs). component c" "length (render (ds @ cs)) < 49" "cs \<noteq> []" "resolve [] (ds @ cs) \<noteq> []"
    and p: "p \<in> {render cs, butlast (render cs)}" "p \<noteq> []" "length (render cs) < 40" "\<forall>c\<in>set cs. CHR ''/'' \<notin> set c"
    and hdr: "k < 32" "k < length (headers s)" "h_name s (headers s ! k) = render (resolve [] (ds @ cs))"
      "\<forall>j<k. h_name s (headers s ! j) \<noteq> render (resolve [] (ds @ cs))"
    and n: "50 \<le> n"
  shows "\<exists>s'. chdir_call p s = Inr (0, s') \<and>
    getcwd_call n old s' = Inr (''/'' @ butlast (render (resolve [] (ds @ cs))), s')"
  using chdir_getcwd_effect [OF assms, of old] by blast

theorem chdir_then_getcwd_witness:
  "\<exists>s'. chdir_call ''etc'' (example_fs\<lparr>headers := [0, 512]\<rparr>) = Inr (0, s') \<and> getcwd_call 100 [] s' = Inr (''/etc'', s')"
proof -
  let ?s = "example_fs\<lparr>headers := [0, 512]\<rparr>"
  have "\<exists>s'. chdir_call ''etc'' ?s = Inr (0, s') \<and>
    getcwd_call 100 [] s' = Inr (''/'' @ butlast (render (resolve [] ([] @ [''etc'']))), s')"
    by (rule chdir_then_getcwd [where k = 0]) (simp_all add: example_names component_def plain_def)
  then show ?thesis by simp
qed

section \<open>Numbers as arguments\<close>

lemma strtoInt_append: "strtoInt_loop d (xs @ ys) = rbind (strtoInt_loop d xs) (\<lambda>d. strtoInt_loop d ys)"
  by (induction xs arbitrary: d) (simp_all add: Let_def)

lemma schar_decimal: "d < 10 \<Longrightarrow> schar (digit d) - 48 = int d"
proof -
  assume "d < 10"
  then have "d \<in> set [0..<10]" by simp
  moreover have "\<forall>d \<in> set [0..<10]. schar (digit d) - 48 = int d" by code_simp
  ultimately show ?thesis by blast
qed

lemma strtoInt_loop_decimal:
  "strtoInt_loop 0 (decimal n) = (if n \<le> 2147483647 then Inr (int n) else Inl SignedOverflow)"
proof (induction n rule: decimal.induct)
  case (1 n)
  show ?case
  proof (cases "n < 10")
    case True
    then show ?thesis by (subst decimal.simps) (simp add: schar_decimal int32_def)
  next
    case False
    have "n div 10 * 10 + n mod 10 = n" by (rule div_mult_mod_eq)
    then have m: "int (n div 10) * 10 + int (n mod 10) = int n" by (metis of_nat_add of_nat_mult of_nat_numeral)
    have s: "schar (digit (n mod 10)) - 48 = int (n mod 10)" by (rule schar_decimal) simp
    have "strtoInt_loop 0 (decimal n) = rbind (strtoInt_loop 0 (decimal (n div 10))) (\<lambda>d. strtoInt_loop d [digit (n mod 10)])"
      using False by (subst decimal.simps) (simp add: strtoInt_append)
    also have "\<dots> = (if n div 10 \<le> 2147483647 then strtoInt_loop (int (n div 10)) [digit (n mod 10)] else Inl SignedOverflow)"
      using 1 False by simp
    also have "strtoInt_loop (int (n div 10)) [digit (n mod 10)] = (if n \<le> 2147483647 then Inr (int n) else Inl SignedOverflow)"
      unfolding strtoInt_loop.simps s m Let_def int32_def using m by auto
    also have "n div 10 \<le> 2147483647 \<or> 2147483647 < n" by auto
    ultimately show ?thesis by auto
  qed
qed

text \<open>
  C37. Numbers on the command line: \<open>kill\<close> and \<open>sleep\<close> read back exactly what a decimal notation of an
  \<open>int\<close> says, and call the kernel with that number: \<open>kill\<close> ends the task with that pid, \<open>sleep\<close> asks for
  that many seconds. A number that is no \<open>int\<close> overflows.
\<close>

theorem number_arguments:
  "(n \<le> 2147483647 \<longrightarrow>
      kill_prog [a, b, decimal n] s = rbind (kill (int n) s) Inr \<and>
      sleep_prog [a, decimal n] s =
        rbind (sleep (of_nat n) s) (\<lambda>s. Inr (if n = 0 then Ret 0 else Later K_sleep, [], s))) \<and>
   (2147483647 < n \<longrightarrow> kill_prog [a, b, decimal n] s = Inl SignedOverflow \<and> sleep_prog [a, decimal n] s = Inl SignedOverflow)"
proof -
  have p: "strtoInt (decimal n) = (if n \<le> 2147483647 then Inr (int n) else Inl SignedOverflow)"
    by (simp add: strtoInt_def strtoInt_loop_decimal)
  have i: "as_int (of_nat n) = int n" "ucast (of_nat n :: u64) = (of_nat n :: u32)" "(of_nat n :: u32) = 0 \<longleftrightarrow> n = 0" if "n \<le> 2147483647"
  proof -
    show "as_int (of_nat n) = int n" using as_int_word_of_int [of "int n"] that by (simp add: int32_def)
    show "ucast (of_nat n :: u64) = (of_nat n :: u32)" by (rule bit_word_eqI) (simp add: bit_simps)
    show "(of_nat n :: u32) = 0 \<longleftrightarrow> n = 0" using of_nat_word_inj [where ?'a = 32, of n 0] that by auto
  qed
  have "kill_call (int n) s = rbind (kill (int n) s) (\<lambda>s. Inr (1, s))" if "n \<le> 2147483647"
    using i [OF that] by (simp add: kill_call_def value_of_def syscall1_def isr128_def regs_def rbind_assoc)
  then show ?thesis using p i
    by (auto simp: kill_prog_def sleep_prog_def syscall1_def isr128_def regs_def rbind_assoc)
qed

theorem number_arguments_witness:
  "sleep_prog [''sleep'', ''42''] example_fs = rbind (sleep 42 example_fs) (\<lambda>s. Inr (Later K_sleep, [], s))"
proof -
  have "decimal 42 = ''42''" by code_simp
  then show ?thesis using number_arguments [of 42 "''sleep''" "''''" example_fs] by simp
qed

text \<open>\<open>echo\<close> prints its arguments, each followed by three blanks, and a newline.\<close>

lemma echo_prints:
  "echo (nm # as) s = Inr (0, s\<lparr>scr := fold put_to_screen (concat (map (\<lambda>a. a @ ''   '') as) @ [CHR 0x0A]) (scr s)\<rparr>)"
proof -
  have "rfold (\<lambda>a s. rbind (puts a s) (puts ''   '')) as s =
      Inr (s\<lparr>scr := fold put_to_screen (concat (map (\<lambda>a. a @ ''   '') as)) (scr s)\<rparr>)" for s :: "'a fskernel_scheme"
    by (induction as arbitrary: s) (simp_all add: puts_eq)
  then show ?thesis by (simp add: echo_def puts_eq)
qed

text \<open>
  Calls the library makes and the kernel does not know: \<open>lseek\<close>, \<open>pipe\<close>, \<open>dup2\<close> and \<open>wait\<close> return 0 at
  once.
\<close>

lemma unknown_calls: "nr \<in> {8, 22, 33, 61} \<Longrightarrow> isr128 ustr uvec nr y s = Inr (Ret 0, [], s)"
  by (elim insertE emptyE) (simp_all add: isr128_def)

end
