(* ===== verification/Shell_Kernel.thy ===== *)
theory Shell_Kernel
  imports Shell User_Lib
begin

text \<open>
  The shell on the kernel: the library calls of the shell that return at once, filled in with the
  library of theory User_Lib, which runs the kernel's system call handler. The state of the system is the
  kernel's, or the fault it ran into. The calls that give up the processor (\<^verbatim>\<open>gets\<close>, \<^verbatim>\<open>fork\<close>,
  \<^verbatim>\<open>execvp\<close>, \<^verbatim>\<open>waitpid\<close>) stay as they are in the record \<open>b\<close>.
\<close>

section \<open>The library over the kernel\<close>

definition on_sys :: "'x \<Rightarrow> ('s \<Rightarrow> ('x \<times> 's) res) \<Rightarrow> 's res \<Rightarrow> 'x \<times> 's res" where
  "on_sys d f w = (case rbind w f of Inr (x, s) \<Rightarrow> (x, Inr s) | Inl e \<Rightarrow> (d, Inl e))"

definition kernel_lib :: "('a fskernel_scheme res) lib \<Rightarrow> ('a fskernel_scheme res) lib" where
  "kernel_lib b = b\<lparr>
     lib_puts := \<lambda>t w. rbind w (puts t),
     lib_clrscr := \<lambda>w. rbind w clrscr_call,
     lib_getcwd := on_sys [] (getcwd_call n_path []),
     lib_chdir := \<lambda>p. on_sys (- 1) (chdir_call p),
     lib_fopen := \<lambda>p. on_sys (- 1) (fopen p),
     lib_read := \<lambda>fd. on_sys [] (\<lambda>s. rbind (readstring fd 4096 [] s) (\<lambda>(_, t, s). Inr (t, s)))\<rparr>"

lemma kernel_lib_sel [simp]:
  "lib_getcwd (kernel_lib b) = on_sys [] (getcwd_call n_path [])" "lib_chdir (kernel_lib b) = (\<lambda>p. on_sys (- 1) (chdir_call p))"
  by (simp_all add: kernel_lib_def)

section \<open>Changing the directory\<close>


definition no_lib :: "(fskernel res) lib" where
  "no_lib = \<lparr>lib_puts = \<lambda>t w. w, lib_gets = \<lambda>w. ([], w), lib_clrscr = \<lambda>w. w, lib_getcwd = \<lambda>w. ([], w), lib_chdir = \<lambda>a w. (0, w),
     lib_fork = \<lambda>w. (3, w), lib_execvp = \<lambda>c a e w. (None, w), lib_waitpid = \<lambda>p w. w, lib_fopen = \<lambda>f w. (3, w),
     lib_read = \<lambda>f w. ([], w)\<rparr>"


end
