(* ===== verification/Ide.thy ===== *)
theory Ide
  imports Screen
begin

unbundle bit_operations_syntax

text \<open>
  The programmed I/O half of the disk driver \<^verbatim>\<open>sys/ide.c\<close>: register access, polling, error
  reports and the transfer of sectors. The controller is a parameter: a record of functions that read and
  write its ports and change its state, so that the theorems hold for whatever the hardware answers. The last
  one tells whether an interrupt arrives while the driver waits for it.
\<close>

section \<open>State\<close>

record 'd bus =
  p_inb :: "u16 \<Rightarrow> 'd \<Rightarrow> u8 \<times> 'd"
  p_outb :: "u16 \<Rightarrow> u8 \<Rightarrow> 'd \<Rightarrow> 'd"
  p_inw :: "u16 \<Rightarrow> 'd \<Rightarrow> u16 \<times> 'd"
  p_outw :: "u16 \<Rightarrow> u16 \<Rightarrow> 'd \<Rightarrow> 'd"
  p_inl :: "u16 \<Rightarrow> 'd \<Rightarrow> u32 \<times> 'd"
  p_irq :: "'d \<Rightarrow> bool \<times> 'd"

record ide_channel =
  io_base :: u16
  io_ctrl :: u16
  io_bmide :: u16
  nIEN :: u8

record ide_device =
  d_reserved :: u8
  d_channel :: u8
  d_drive :: u8
  d_type :: u16
  d_signature :: u16
  d_capabilities :: u16
  d_commandsets :: u32
  d_size :: u32
  d_model :: string

text \<open>The driver's variables, the bytes of the kernel's memory, the console and the controller.\<close>

record 'd ide =
  channels :: "nat \<Rightarrow> ide_channel"
  ide_devices :: "nat \<Rightarrow> ide_device"
  package0 :: u8
  ide_irq_invoked :: u8
  ide_buf :: "nat \<Rightarrow> u8"
  atapi_packet :: "u8 list"
  bytes :: "u64 \<Rightarrow> u8"
  console :: screen
  hw :: 'd

abbreviation n_channels :: nat where "n_channels \<equiv> 2"
abbreviation n_devices :: nat where "n_devices \<equiv> 4"

section \<open>Registers\<close>

text \<open>The port of a register of a channel; registers from 22 on have none.\<close>

definition reg_port :: "ide_channel \<Rightarrow> nat \<Rightarrow> u16 option" where
  "reg_port ch reg =
     (if reg < 0x08 then Some (io_base ch + of_nat reg)
      else if reg < 0x0C then Some (io_base ch + of_nat reg - 0x06)
      else if reg < 0x0E then Some (io_ctrl ch + of_nat reg - 0x0A)
      else if reg < 0x16 then Some (io_bmide ch + of_nat reg - 0x0E)
      else None)"

definition port_write :: "'d bus \<Rightarrow> nat \<Rightarrow> nat \<Rightarrow> u8 \<Rightarrow> 'd ide \<Rightarrow> 'd ide" where
  "port_write b c reg data s =
     (case reg_port (channels s c) reg of None \<Rightarrow> s | Some p \<Rightarrow> s\<lparr>hw := p_outb b p data (hw s)\<rparr>)"

text \<open>
  The high bytes of the registers 2 to 5 are reached with bit 7 of the control register set. The calls
  of \<^verbatim>\<open>ide_write\<close> inside \<^verbatim>\<open>ide_write\<close> are for the control register, which needs no such bit.
\<close>

definition high_byte :: "nat \<Rightarrow> bool" where "high_byte reg \<longleftrightarrow> reg > 0x07 \<and> reg < 0x0C"

abbreviation ATA_REG_CONTROL :: nat where "ATA_REG_CONTROL \<equiv> 0x0C"

definition ide_write :: "'d bus \<Rightarrow> nat \<Rightarrow> nat \<Rightarrow> u8 \<Rightarrow> 'd ide \<Rightarrow> 'd ide" where
  "ide_write b c reg data s =
     (let s = (if high_byte reg then port_write b c ATA_REG_CONTROL (0x80 OR nIEN (channels s c)) s else s);
          s = port_write b c reg data s
      in if high_byte reg then port_write b c ATA_REG_CONTROL (nIEN (channels s c)) s else s)"

definition ide_read :: "'d bus \<Rightarrow> nat \<Rightarrow> nat \<Rightarrow> 'd ide \<Rightarrow> u8 \<times> 'd ide" where
  "ide_read b c reg s =
     (let s = (if high_byte reg then port_write b c ATA_REG_CONTROL (0x80 OR nIEN (channels s c)) s else s);
          (result, s) = (case reg_port (channels s c) reg of
                           None \<Rightarrow> (0x41, s)
                         | Some p \<Rightarrow> (let (v, d) = p_inb b p (hw s) in (v, s\<lparr>hw := d\<rparr>)));
          s = (if high_byte reg then port_write b c ATA_REG_CONTROL (nIEN (channels s c)) s else s)
      in (result, s))"

section \<open>Polling\<close>

abbreviation ATA_REG_STATUS :: nat where "ATA_REG_STATUS \<equiv> 0x07"
abbreviation ATA_REG_ALTSTATUS :: nat where "ATA_REG_ALTSTATUS \<equiv> 0x0C"
abbreviation ATA_SR_BSY :: u8 where "ATA_SR_BSY \<equiv> 0x80"
abbreviation ATA_SR_DF :: u8 where "ATA_SR_DF \<equiv> 0x20"
abbreviation ATA_SR_DRQ :: u8 where "ATA_SR_DRQ \<equiv> 0x08"
abbreviation ATA_SR_ERR :: u8 where "ATA_SR_ERR \<equiv> 0x01"

text \<open>\<^verbatim>\<open>while (ide_read(channel, ATA_REG_STATUS) & ATA_SR_BSY);\<close>\<close>

partial_function (option) busy_loop :: "'d bus \<Rightarrow> nat \<Rightarrow> 'd ide \<Rightarrow> 'd ide option" where
  "busy_loop b c s =
     (let (st, s) = ide_read b c ATA_REG_STATUS s in
      if st AND ATA_SR_BSY \<noteq> 0 then busy_loop b c s else Some s)"

definition wait_not_busy :: "'d bus \<Rightarrow> nat \<Rightarrow> 'd ide \<Rightarrow> 'd ide res" where
  "wait_not_busy b c s = (case busy_loop b c s of None \<Rightarrow> Inl Hang | Some s \<Rightarrow> Inr s)"

definition ide_polling :: "'d bus \<Rightarrow> nat \<Rightarrow> bool \<Rightarrow> 'd ide \<Rightarrow> (u8 \<times> 'd ide) res" where
  "ide_polling b c advanced_check s =
     (let s = fold (\<lambda>_ s. snd (ide_read b c ATA_REG_ALTSTATUS s)) [0..<4] s in
      rbind (wait_not_busy b c s) (\<lambda>s.
      if advanced_check then
        let (st, s) = ide_read b c ATA_REG_STATUS s in
        if st AND ATA_SR_ERR \<noteq> 0 then Inr (2, s)
        else if st AND ATA_SR_DF \<noteq> 0 then Inr (1, s)
        else if st AND ATA_SR_DRQ = 0 then Inr (3, s)
        else Inr (0, s)
      else Inr (0, s)))"

section \<open>Errors\<close>

abbreviation msg :: "string \<Rightarrow> 'd ide \<Rightarrow> 'd ide res" where
  "msg t s \<equiv> rbind (kprintf t [] (console s)) (\<lambda>v. Inr (s\<lparr>console := v\<rparr>))"

text \<open>The bits of the error register, lowest first: the message and the code; the last one that is set counts.\<close>

definition error_bits :: "(u8 \<times> string \<times> u8) list" where
  "error_bits =
     [(0x01, ''- No Address Mark Found'', 7), (0x02, ''- No Media or Media Error'', 3), (0x04, ''- Command Aborted'', 20),
      (0x08, ''- No Media or Media Error'', 3), (0x10, ''- ID mark not Found'', 21), (0x20, ''- No Media or Media Error'', 3),
      (0x40, ''- Uncorrectable Data Error'', 22), (0x80, ''- Bad Sectors'', 13)]"

definition error_line :: "string \<Rightarrow> string" where
  "error_line t = t @ [CHR 0x0A] @ ''     ''"

definition report_bits :: "u8 \<Rightarrow> u8 \<Rightarrow> 'd ide \<Rightarrow> (u8 \<times> 'd ide) res" where
  "report_bits st err s = rfold (\<lambda>(bt, t, code) (err, s).
     if st AND bt \<noteq> 0 then rbind (msg (error_line t) s) (\<lambda>s. Inr (code, s)) else Inr (err, s)) error_bits (err, s)"

definition ide_print_error :: "'d bus \<Rightarrow> nat \<Rightarrow> u8 \<Rightarrow> 'd ide \<Rightarrow> (u8 \<times> 'd ide) res" where
  "ide_print_error b drive err s =
     (if err = 0 then Inr (err, s)
      else if drive \<ge> n_devices then Inl OutOfBounds
      else
        let dv = ide_devices s drive; c = unat (d_channel dv) in
        rbind (msg ''IDE:'' s) (\<lambda>s.
        rbind (if err = 1 then rbind (msg (error_line ''- Device Fault'') s) (\<lambda>s. Inr (19, s))
               else if err = 2 then
                 (if c \<ge> n_channels then Inl OutOfBounds
                  else let (st, s) = ide_read b c 0x01 s in report_bits st err s)
               else if err = 3 then rbind (msg (error_line ''- Reads Nothing'') s) (\<lambda>s. Inr (23, s))
               else if err = 4 then rbind (msg (error_line ''- Write Protected'') s) (\<lambda>s. Inr (8, s))
               else Inr (err, s)) (\<lambda>(err, s).
        if c \<ge> 2 \<or> unat (d_drive dv) \<ge> 2 then Inl OutOfBounds
        else
          rbind (kprintf (''- [%s %s] %s'' @ [CHR 0x0A])
            [VStr ([''Primary'', ''Secondary''] ! c), VStr ([''Master'', ''Slave''] ! unat (d_drive dv)), VStr (d_model dv)] (console s)) (\<lambda>v.
          Inr (err, s\<lparr>console := v\<rparr>)))))"

section \<open>Transfers\<close>

text \<open>Words and bytes, and the string instructions for the 16-bit data port.\<close>

definition word_of :: "u8 \<Rightarrow> u8 \<Rightarrow> u16" where
  "word_of lo hi = ucast lo OR push_bit 8 (ucast hi)"

definition put_word :: "u64 \<Rightarrow> u16 \<Rightarrow> (u64 \<Rightarrow> u8) \<Rightarrow> (u64 \<Rightarrow> u8)" where
  "put_word a w m = m(a := ucast w, a + 1 := ucast (drop_bit 8 w))"

primrec insw :: "'d bus \<Rightarrow> u16 \<Rightarrow> nat \<Rightarrow> u64 \<Rightarrow> 'd ide \<Rightarrow> 'd ide" where
  "insw b p 0 a s = s"
| "insw b p (Suc n) a s =
     (let (w, d) = p_inw b p (hw s) in
      insw b p n (a + 2) (s\<lparr>hw := d, bytes := put_word a w (bytes s)\<rparr>))"

primrec outsw :: "'d bus \<Rightarrow> u16 \<Rightarrow> nat \<Rightarrow> u64 \<Rightarrow> 'd ide \<Rightarrow> 'd ide" where
  "outsw b p 0 a s = s"
| "outsw b p (Suc n) a s = outsw b p n (a + 2) (s\<lparr>hw := p_outw b p (word_of (bytes s a) (bytes s (a + 1))) (hw s)\<rparr>)"

text \<open>
  How a sector is addressed: the mode (0 for cylinder, head and sector, 1 for 28 bits, 2 for 48 bits), the
  bytes for the address registers and the lower half of the drive register.
\<close>

definition ata_address :: "u32 \<Rightarrow> u16 \<Rightarrow> nat \<times> u8 list \<times> u8" where
  "ata_address lba capabilities =
     (if lba \<ge> 0x10000000 then
        (2, [ucast (lba AND 0x000000FF), ucast (drop_bit 8 (lba AND 0x0000FF00)), ucast (drop_bit 16 (lba AND 0x00FF0000)),
             ucast (drop_bit 24 (lba AND 0xFF000000)), 0, 0], 0)
      else if capabilities AND 0x200 \<noteq> 0 then
        (1, [ucast (lba AND 0x00000FF), ucast (drop_bit 8 (lba AND 0x000FF00)), ucast (drop_bit 16 (lba AND 0x0FF0000)), 0, 0, 0],
         ucast (drop_bit 24 (lba AND 0xF000000)))
      else
        let sect = (ucast (lba mod 63 + 1) :: u8);
            cyl = (ucast ((lba + 1 - ucast sect) div (16 * 63)) :: u16) in
        (0, [sect, ucast (cyl AND 0xFF), ucast (drop_bit 8 cyl AND 0xFF), 0, 0, 0],
         ucast ((lba + 1 - ucast sect) mod (16 * 63) div 63)))"

abbreviation ATA_REG_SECCOUNT0 :: nat where "ATA_REG_SECCOUNT0 \<equiv> 0x02"
abbreviation ATA_REG_HDDEVSEL :: nat where "ATA_REG_HDDEVSEL \<equiv> 0x06"
abbreviation ATA_REG_COMMAND :: nat where "ATA_REG_COMMAND \<equiv> 0x07"

text \<open>The registers of a command; the address registers have the numbers 3, 4, 5 and 9, 10, 11.\<close>

definition ata_setup :: "'d bus \<Rightarrow> nat \<Rightarrow> u8 \<Rightarrow> nat \<times> u8 list \<times> u8 \<Rightarrow> u8 \<Rightarrow> 'd ide \<Rightarrow> 'd ide" where
  "ata_setup b c slavebit = (\<lambda>(mode, io, hd) numsects s.
     let s = ide_write b c ATA_REG_HDDEVSEL ((if mode = 0 then 0xA0 else 0xE0) OR push_bit 4 slavebit OR hd) s;
         s = (if mode = 2 then
                let s = ide_write b c 0x08 0 s;
                    s = ide_write b c 0x09 (io ! 3) s;
                    s = ide_write b c 0x0A (io ! 4) s
                in ide_write b c 0x0B (io ! 5) s
              else s);
         s = ide_write b c ATA_REG_SECCOUNT0 numsects s;
         s = ide_write b c 0x03 (io ! 0) s;
         s = ide_write b c 0x04 (io ! 1) s
     in ide_write b c 0x05 (io ! 2) s)"

text \<open>The loops over the sectors, from sector \<open>i\<close> of the transfer on.\<close>

primrec read_loop :: "'d bus \<Rightarrow> nat \<Rightarrow> nat \<Rightarrow> u64 \<Rightarrow> 'd ide \<Rightarrow> (u8 \<times> 'd ide) res" where
  "read_loop b c 0 a s = Inr (0, s)"
| "read_loop b c (Suc n) a s =
     rbind (ide_polling b c True s) (\<lambda>(err, s).
     if err \<noteq> 0 then Inr (err, s) else read_loop b c n (a + 512) (insw b (io_base (channels s c)) 256 a s))"

primrec write_loop :: "'d bus \<Rightarrow> nat \<Rightarrow> nat \<Rightarrow> u64 \<Rightarrow> 'd ide \<Rightarrow> 'd ide res" where
  "write_loop b c 0 a s = Inr s"
| "write_loop b c (Suc n) a s =
     rbind (ide_polling b c False s) (\<lambda>(_, s). write_loop b c n (a + 512) (outsw b (io_base (channels s c)) 256 a s))"

definition ide_ata_access :: "'d bus \<Rightarrow> bool \<Rightarrow> nat \<Rightarrow> u32 \<Rightarrow> u8 \<Rightarrow> u64 \<Rightarrow> 'd ide \<Rightarrow> (u8 \<times> 'd ide) res" where
  "ide_ata_access b writing drive lba numsects a s =
     (let dv = ide_devices s drive; c = unat (d_channel dv) in
      if c \<ge> n_channels then Inl OutOfBounds
      else
        let s = s\<lparr>ide_irq_invoked := 0, channels := (channels s)(c := (channels s c)\<lparr>nIEN := 2\<rparr>)\<rparr>;
            s = ide_write b c ATA_REG_CONTROL 2 s;
            addr = ata_address lba (d_capabilities dv); mode = fst addr in
        rbind (wait_not_busy b c s) (\<lambda>s.
        let s = ata_setup b c (d_drive dv) addr numsects s in
        if \<not> writing then
          read_loop b c (unat numsects) a (ide_write b c ATA_REG_COMMAND (if mode = 2 then 0x24 else 0x20) s)
        else
          rbind (write_loop b c (unat numsects) a (ide_write b c ATA_REG_COMMAND (if mode = 2 then 0x34 else 0x30) s)) (\<lambda>s.
          rbind (ide_polling b c False (ide_write b c ATA_REG_COMMAND (if mode = 2 then 0xEA else 0xE7) s)) (\<lambda>(_, s).
          Inr (0, s)))))"

abbreviation IDE_ATA :: u16 where "IDE_ATA \<equiv> 0"
abbreviation IDE_ATAPI :: u16 where "IDE_ATAPI \<equiv> 1"

definition ide_read_sectors :: "'d bus \<Rightarrow> nat \<Rightarrow> u8 \<Rightarrow> u32 \<Rightarrow> u64 \<Rightarrow> 'd ide \<Rightarrow> 'd ide res" where
  "ide_read_sectors b drive numsects lba a s =
     (if drive > 3 \<or> d_reserved (ide_devices s drive) = 0 then Inr (s\<lparr>package0 := 1\<rparr>)
      else
        let dv = ide_devices s drive in
        if lba + ucast numsects > d_size dv \<and> d_type dv = IDE_ATA then Inr (s\<lparr>package0 := 2\<rparr>)
        else
          rbind (if d_type dv = IDE_ATA then ide_ata_access b False drive lba numsects a s else Inr (0, s)) (\<lambda>(err, s).
          rbind (ide_print_error b drive err s) (\<lambda>(err, s). Inr (s\<lparr>package0 := err\<rparr>))))"

definition ide_write_sectors :: "'d bus \<Rightarrow> nat \<Rightarrow> u8 \<Rightarrow> u32 \<Rightarrow> u64 \<Rightarrow> 'd ide \<Rightarrow> 'd ide res" where
  "ide_write_sectors b drive numsects lba a s =
     (if drive > 3 \<or> d_reserved (ide_devices s drive) = 0 then Inr (s\<lparr>package0 := 1\<rparr>)
      else
        let dv = ide_devices s drive in
        if lba + ucast numsects > d_size dv \<and> d_type dv = IDE_ATA then Inr (s\<lparr>package0 := 2\<rparr>)
        else
          rbind (if d_type dv = IDE_ATA then ide_ata_access b True drive lba numsects a s
                 else if d_type dv = IDE_ATAPI then Inr (4, s)
                 else Inr (0, s)) (\<lambda>(err, s).
          rbind (ide_print_error b drive err s) (\<lambda>(err, s). Inr (s\<lparr>package0 := err\<rparr>))))"

section \<open>Addresses\<close>

text \<open>The sector a drive finds with an address in its registers.\<close>

definition ata_sector :: "nat \<times> u8 list \<times> u8 \<Rightarrow> nat" where
  "ata_sector = (\<lambda>(mode, io, hd).
     if mode = 0 then ((unat (io ! 1) + 256 * unat (io ! 2)) * 16 + unat hd) * 63 + unat (io ! 0) - 1
     else if mode = 1 then unat (io ! 0) + 256 * unat (io ! 1) + 65536 * unat (io ! 2) + 16777216 * unat hd
     else unat (io ! 0) + 256 * unat (io ! 1) + 65536 * unat (io ! 2) + 16777216 * unat (io ! 3))"

lemma unat_byte: "unat (ucast (drop_bit n (x :: u32)) :: u8) = unat x div 2 ^ n mod 256"
proof -
  have "unat (ucast (drop_bit n x) :: u8) = take_bit 8 (unat (drop_bit n x))" by (simp add: unsigned_ucast_eq)
  also have "unat (drop_bit n x) = drop_bit n (unat x)" by (rule unat_drop_bit_eq)
  finally show ?thesis by (simp add: take_bit_eq_mod drop_bit_eq_div)
qed

lemma unat_bytes:
  fixes x :: u32
  shows "unat (ucast (drop_bit 0 x) :: u8) = unat x mod 256" "unat (ucast (drop_bit 8 x) :: u8) = unat x div 256 mod 256"
    "unat (ucast (drop_bit 16 x) :: u8) = unat x div 65536 mod 256" "unat (ucast (drop_bit 24 x) :: u8) = unat x div 16777216 mod 256"
  by (subst unat_byte, simp)+

lemma masked_bytes:
  fixes x :: u32
  shows "(ucast (x AND 0xFF) :: u8) = ucast (drop_bit 0 x)" "(ucast (drop_bit 8 (x AND 0xFF00)) :: u8) = ucast (drop_bit 8 x)"
    "(ucast (drop_bit 16 (x AND 0xFF0000)) :: u8) = ucast (drop_bit 16 x)"
    "(ucast (drop_bit 24 (x AND 0xFF000000)) :: u8) = ucast (drop_bit 24 x)"
proof -
  have m: "(0xFF :: u32) = mask 8" "(0xFF00 :: u32) = push_bit 8 (mask 8)" "(0xFF0000 :: u32) = push_bit 16 (mask 8)"
    "(0xFF000000 :: u32) = push_bit 24 (mask 8)" by (simp_all add: mask_eq_exp_minus_1 push_bit_eq_mult)
  show "(ucast (x AND 0xFF) :: u8) = ucast (drop_bit 0 x)" "(ucast (drop_bit 8 (x AND 0xFF00)) :: u8) = ucast (drop_bit 8 x)"
    "(ucast (drop_bit 16 (x AND 0xFF0000)) :: u8) = ucast (drop_bit 16 x)"
    "(ucast (drop_bit 24 (x AND 0xFF000000)) :: u8) = ucast (drop_bit 24 x)"
    unfolding m by (rule bit_word_eqI; auto simp: bit_simps)+
qed

lemma head_bits: "unat (x :: u32) < 2 ^ 28 \<Longrightarrow> (ucast (drop_bit 24 (x AND 0xF000000)) :: u8) = ucast (drop_bit 24 x)"
proof -
  assume "unat x < 2 ^ 28"
  then have "take_bit 28 (unat x) = unat x" by (simp add: take_bit_nat_eq_self)
  then have "take_bit 28 x = x" by (metis unsigned_take_bit_eq word_unat_eq_iff)
  moreover have e: "(0xF000000 :: u32) = push_bit 24 (mask 4)" by (simp add: mask_eq_exp_minus_1 push_bit_eq_mult)
  have "(ucast (drop_bit 24 (take_bit 28 x AND 0xF000000)) :: u8) = ucast (drop_bit 24 (take_bit 28 x))"
    unfolding e by (rule bit_word_eqI) (auto simp: bit_simps)
  ultimately show ?thesis by simp
qed

lemma nat_of_bytes: "(n :: nat) < 4294967296 \<Longrightarrow> n mod 256 + 256 * (n div 256 mod 256) + 65536 * (n div 65536 mod 256) + 16777216 * (n div 16777216 mod 256) = n"
proof -
  assume "n < 4294967296"
  then have "n div 16777216 mod 256 = n div 16777216" by simp
  moreover have "n div 65536 = n div 256 div 256" "n div 16777216 = n div 65536 div 256" by (simp_all add: div_mult2_eq [symmetric])
  moreover have "256 * (n div 256) + n mod 256 = n" "256 * (n div 256 div 256) + n div 256 mod 256 = n div 256"
    "256 * (n div 65536 div 256) + n div 65536 mod 256 = n div 65536" by simp_all
  ultimately show ?thesis by linarith
qed

lemma sector_modes:
  "ata_sector (2, [b0, b1, b2, b3, x, y], h) = unat b0 + 256 * unat b1 + 65536 * unat b2 + 16777216 * unat b3"
  "ata_sector (1, [b0, b1, b2, x, y, z], h) = unat b0 + 256 * unat b1 + 65536 * unat b2 + 16777216 * unat h"
  "ata_sector (0, [b0, b1, b2, x, y, z], h) = ((unat b1 + 256 * unat b2) * 16 + unat h) * 63 + unat b0 - 1"
  by (simp_all add: ata_sector_def)

lemma cylinder_bytes: "unat (ucast (c AND 0xFF) :: u8) + 256 * unat (ucast (drop_bit 8 c AND 0xFF) :: u8) = unat (c :: u16)"
proof -
  have m: "(0xFF :: u16) = mask 8" by (simp add: mask_eq_exp_minus_1)
  have "(ucast (c AND 0xFF) :: u8) = ucast c" "(ucast (drop_bit 8 c AND 0xFF) :: u8) = ucast (drop_bit 8 c)"
    unfolding m by (rule bit_word_eqI; auto simp: bit_simps)+
  moreover have "unat (ucast c :: u8) = unat c mod 256" by (simp add: unsigned_ucast_eq take_bit_eq_mod)
  moreover have "unat (ucast (drop_bit 8 c) :: u8) = take_bit 8 (unat (drop_bit 8 c))" by (simp add: unsigned_ucast_eq)
  moreover have "unat (drop_bit 8 c) = unat c div 256" unfolding unat_drop_bit_eq by (simp add: drop_bit_eq_div)
  moreover have "unat c < 65536" using unsigned_less [of c] by simp
  ultimately show ?thesis by (simp add: take_bit_eq_mod)
qed

lemma chs_parts:
  fixes lba :: u32
  defines "sect \<equiv> (ucast (lba mod 63 + 1) :: u8)"
  shows "unat sect = unat lba mod 63 + 1" "unat (lba + 1 - ucast sect) = 63 * (unat lba div 63)"
proof -
  have m: "unat (lba mod 63) = unat lba mod 63" by (simp add: unat_mod)
  have lt: "unat lba mod 63 < 63" by simp
  then have u: "unat (lba mod 63 + 1) = unat lba mod 63 + 1" by (simp add: unat_word_ariths m)
  then show s: "unat sect = unat lba mod 63 + 1"
    using lt unat_ucast_small [of "lba mod 63 + 1", where ?'b = 8] by (simp add: sect_def)
  then have us: "unat (ucast sect :: u32) = unat lba mod 63 + 1"
    using lt unat_ucast_small [of sect, where ?'b = 32] by simp
  then have c: "ucast sect = lba mod 63 + 1" using u by (metis word_unat_eq_iff)
  have "lba + 1 - ucast sect = lba - lba mod 63" unfolding c by simp
  moreover have "lba mod 63 \<le> lba" by (simp add: word_le_nat_alt m)
  ultimately have "unat (lba + 1 - ucast sect) = unat lba - unat lba mod 63" by (simp only: unat_sub m)
  then show "unat (lba + 1 - ucast sect) = 63 * (unat lba div 63)" using minus_mod_eq_mult_div [of "unat lba" 63] by simp
qed

lemma ata_address_sector:
  assumes "lba \<ge> 0x10000000 \<or> caps AND 0x200 \<noteq> 0 \<or> unat lba < 65536 * 16 * 63"
  shows "ata_sector (ata_address lba caps) = unat lba"
proof -
  have lt: "unat lba < 4294967296" using unsigned_less [of lba] by simp
  consider (big) "lba \<ge> 0x10000000" | (l28) "\<not> lba \<ge> 0x10000000" "caps AND 0x200 \<noteq> 0" | (chs) "\<not> lba \<ge> 0x10000000" "caps AND 0x200 = 0" "unat lba < 65536 * 16 * 63"
    using assms by blast
  then show ?thesis
  proof cases
    case big
    then have "ata_address lba caps = (2, [ucast (drop_bit 0 lba), ucast (drop_bit 8 lba), ucast (drop_bit 16 lba), ucast (drop_bit 24 lba), 0, 0], 0)"
      unfolding ata_address_def masked_bytes by simp
    then show ?thesis using nat_of_bytes [OF lt] by (simp only: sector_modes unat_bytes)
  next
    case l28
    then have "unat lba < 2 ^ 28" by (simp add: word_le_nat_alt)
    then have "ata_address lba caps = (1, [ucast (drop_bit 0 lba), ucast (drop_bit 8 lba), ucast (drop_bit 16 lba), 0, 0, 0], ucast (drop_bit 24 lba))"
      using l28 head_bits [of lba] unfolding ata_address_def masked_bytes by simp
    then show ?thesis using nat_of_bytes [OF lt] by (simp only: sector_modes unat_bytes)
  next
    case chs
    let ?s = "ucast (lba mod 63 + 1) :: u8" and ?q = "unat lba div 63"
    let ?c = "ucast ((lba + 1 - ucast ?s) div (16 * 63)) :: u16"
    note parts = chs_parts [of lba]
    have d: "unat ((lba + 1 - ucast ?s) div (16 * 63)) = ?q div 16" using parts(2) by (simp add: unat_div div_mult2_eq [of _ 63 16, simplified])
    have "?q div 16 < 65536" using chs(3) by (simp add: div_mult2_eq [symmetric])
    then have c: "unat ?c = ?q div 16" using d unat_ucast_small [of "(lba + 1 - ucast ?s) div (16 * 63)", where ?'b = 16] by simp
    have h: "unat (ucast ((lba + 1 - ucast ?s) mod (16 * 63) div 63) :: u8) = ?q mod 16"
    proof -
      have "unat ((lba + 1 - ucast ?s) mod (16 * 63) div 63) = 63 * ?q mod (63 * 16) div 63" using parts(2) by (simp add: unat_div unat_mod)
      also have "\<dots> = ?q mod 16" unfolding mult_mod_right [symmetric] by (rule nonzero_mult_div_cancel_left) simp
      finally show ?thesis using unat_ucast_small [of "(lba + 1 - ucast ?s) mod (16 * 63) div 63", where ?'b = 8] by simp
    qed
    have "ata_address lba caps = (0, [?s, ucast (?c AND 0xFF), ucast (drop_bit 8 ?c AND 0xFF), 0, 0, 0], ucast ((lba + 1 - ucast ?s) mod (16 * 63) div 63))"
      using chs(1,2) by (simp add: ata_address_def Let_def)
    then have "ata_sector (ata_address lba caps) = (?q div 16 * 16 + ?q mod 16) * 63 + (unat lba mod 63 + 1) - 1"
      by (simp only: sector_modes cylinder_bytes c h parts(1))
    also have "\<dots> = unat lba" by simp
    finally show ?thesis .
  qed
qed

text \<open>
  C39. Sector addresses: in each of the three modes the driver chooses from, the registers it loads lead a
  drive to the sector asked for. By cylinder, head and sector this holds up to the 65536 cylinders the
  registers can count.
\<close>

theorem ata_address_finds_sector:
  assumes "lba \<ge> 0x10000000 \<or> caps AND 0x200 \<noteq> 0 \<or> unat lba < 65536 * 16 * 63"
  shows "ata_sector (ata_address lba caps) = unat lba"
  by (rule ata_address_sector [OF assms])

theorem ata_address_finds_sector_witness: "ata_sector (ata_address 100000 0) = 100000"
  using ata_address_finds_sector [of 100000 0] by simp

section \<open>What a drive does\<close>

text \<open>
  The part of the ATA standard the driver relies on, for a drive in 28-bit mode that is never busy and has
  no errors: the task file registers, the words it has to deliver, the sector it writes next, how many it
  still expects and what it has got of the next one, and its contents.
\<close>

record ata =
  a_regs :: "nat \<Rightarrow> u8"
  a_send :: "u16 list"
  a_next :: nat
  a_left :: nat
  a_got :: "u16 list"
  a_disk :: "nat \<Rightarrow> u16 list"

definition a_lba :: "ata \<Rightarrow> nat" where
  "a_lba a = ata_sector (1, [a_regs a 3, a_regs a 4, a_regs a 5, 0, 0, 0], a_regs a 6 AND 0x0F)"

definition a_count :: "ata \<Rightarrow> nat" where
  "a_count a = (if a_regs a 2 = 0 then 256 else unat (a_regs a 2))"

definition ata_command :: "u8 \<Rightarrow> ata \<Rightarrow> ata" where
  "ata_command v a =
     (if v = 0x20 then a\<lparr>a_send := concat (map (a_disk a) [a_lba a..<a_lba a + a_count a]), a_left := 0\<rparr>
      else if v = 0x30 then a\<lparr>a_send := [], a_next := a_lba a, a_left := a_count a, a_got := []\<rparr>
      else a)"

definition ata_out :: "nat \<Rightarrow> u8 \<Rightarrow> ata \<Rightarrow> ata" where
  "ata_out rg v a =
     (if 2 \<le> rg \<and> rg \<le> 6 then a\<lparr>a_regs := (a_regs a)(rg := v)\<rparr> else if rg = 7 then ata_command v a else a)"

definition ata_take :: "u16 \<Rightarrow> ata \<Rightarrow> ata" where
  "ata_take w a =
     (if a_left a = 0 then a
      else
        let g = a_got a @ [w] in
        if length g = 256 then a\<lparr>a_disk := (a_disk a)(a_next a := g), a_next := a_next a + 1, a_left := a_left a - 1, a_got := []\<rparr>
        else a\<lparr>a_got := g\<rparr>)"

definition ata_status :: "ata \<Rightarrow> u8" where
  "ata_status a = (if a_send a \<noteq> [] \<or> a_left a \<noteq> 0 then 0x48 else 0x40)"

text \<open>
  A controller whose ports \<open>base\<close> to \<open>base + 7\<close> and \<open>ctrl + 2\<close> lead to such a drive; \<open>ab\<close> gives the
  drive's state.
\<close>

definition compliant :: "'d bus \<Rightarrow> u16 \<Rightarrow> u16 \<Rightarrow> ('d \<Rightarrow> ata) \<Rightarrow> bool" where
  "compliant b base ct ab \<longleftrightarrow> (\<forall>d.
     (\<forall>v. \<forall>rg<8. ab (p_outb b (base + of_nat rg) v d) = ata_out rg v (ab d)) \<and>
     (\<forall>v. ab (p_outb b (ct + 2) v d) = ab d) \<and>
     ab (snd (p_inb b (ct + 2) d)) = ab d \<and>
     p_inb b (base + 7) d = (ata_status (ab d), snd (p_inb b (base + 7) d)) \<and> ab (snd (p_inb b (base + 7) d)) = ab d \<and>
     (a_send (ab d) \<noteq> [] \<longrightarrow> fst (p_inw b base d) = hd (a_send (ab d)) \<and>
        ab (snd (p_inw b base d)) = (ab d)\<lparr>a_send := tl (a_send (ab d))\<rparr>) \<and>
     (\<forall>w. ab (p_outw b base w d) = ata_take w (ab d)))"

definition wired :: "'d bus \<Rightarrow> ('d \<Rightarrow> ata) \<Rightarrow> nat \<Rightarrow> 'd ide \<Rightarrow> bool" where
  "wired b ab c s \<longleftrightarrow> compliant b (io_base (channels s c)) (io_ctrl (channels s c)) ab"

lemma wired_upd [simp]: "wired b ab c (s\<lparr>hw := d\<rparr>) = wired b ab c s" "wired b ab c (s\<lparr>bytes := m\<rparr>) = wired b ab c s"
  by (simp_all add: wired_def)

text \<open>A state that differs in the controller only, in a way that \<open>f\<close> tells of the drive.\<close>

definition drive_step :: "('d \<Rightarrow> ata) \<Rightarrow> (ata \<Rightarrow> ata) \<Rightarrow> 'd ide \<Rightarrow> 'd ide \<Rightarrow> bool" where
  "drive_step ab f s s' \<longleftrightarrow> (\<exists>d. s' = s\<lparr>hw := d\<rparr> \<and> ab d = f (ab (hw s)))"

lemma drive_step_refl: "drive_step ab id s s"
  unfolding drive_step_def by (rule exI [of _ "hw s"]) simp

lemma drive_step_trans: "drive_step ab f s s1 \<Longrightarrow> drive_step ab g s1 s2 \<Longrightarrow> drive_step ab (g \<circ> f) s s2"
  by (auto simp: drive_step_def)

lemma drive_step_wired: "drive_step ab f s s' \<Longrightarrow> wired b ab c s' = wired b ab c s"
  by (auto simp: drive_step_def)

text \<open>The port accesses of the registers in use.\<close>

lemma ide_ports:
  "rg < 8 \<Longrightarrow> ide_write b c rg v s = s\<lparr>hw := p_outb b (io_base (channels s c) + of_nat rg) v (hw s)\<rparr>"
  "ide_write b c ATA_REG_CONTROL v s = s\<lparr>hw := p_outb b (io_ctrl (channels s c) + 2) v (hw s)\<rparr>"
  "ide_read b c ATA_REG_STATUS s = (fst (p_inb b (io_base (channels s c) + 7) (hw s)), s\<lparr>hw := snd (p_inb b (io_base (channels s c) + 7) (hw s))\<rparr>)"
  "ide_read b c ATA_REG_ALTSTATUS s = (fst (p_inb b (io_ctrl (channels s c) + 2) (hw s)), s\<lparr>hw := snd (p_inb b (io_ctrl (channels s c) + 2) (hw s))\<rparr>)"
  by (simp_all add: ide_write_def ide_read_def high_byte_def port_write_def reg_port_def Let_def add.commute split: prod.splits)

lemma compliantD:
  assumes "compliant b base ct ab"
  shows "rg < 8 \<Longrightarrow> ab (p_outb b (base + of_nat rg) v d) = ata_out rg v (ab d)" "ab (p_outb b (ct + 2) v d) = ab d"
    "ab (snd (p_inb b (ct + 2) d)) = ab d" "fst (p_inb b (base + 7) d) = ata_status (ab d)" "ab (snd (p_inb b (base + 7) d)) = ab d"
    "a_send (ab d) \<noteq> [] \<Longrightarrow> fst (p_inw b base d) = hd (a_send (ab d)) \<and> ab (snd (p_inw b base d)) = (ab d)\<lparr>a_send := tl (a_send (ab d))\<rparr>"
    "ab (p_outw b base w d) = ata_take w (ab d)"
proof -
  note c = assms [unfolded compliant_def, rule_format]
  show "rg < 8 \<Longrightarrow> ab (p_outb b (base + of_nat rg) v d) = ata_out rg v (ab d)" "ab (p_outb b (ct + 2) v d) = ab d"
    "ab (snd (p_inb b (ct + 2) d)) = ab d" "ab (snd (p_inb b (base + 7) d)) = ab d" "ab (p_outw b base w d) = ata_take w (ab d)"
    "a_send (ab d) \<noteq> [] \<Longrightarrow> fst (p_inw b base d) = hd (a_send (ab d)) \<and> ab (snd (p_inw b base d)) = (ab d)\<lparr>a_send := tl (a_send (ab d))\<rparr>"
    using c by blast+
  show "fst (p_inb b (base + 7) d) = ata_status (ab d)" using c [of d] by (metis fst_conv)
qed

lemma write_task_file: "wired b ab c s \<Longrightarrow> rg < 8 \<Longrightarrow> drive_step ab (ata_out rg v) s (ide_write b c rg v s)"
  by (auto simp: wired_def drive_step_def ide_ports(1) compliantD(1))

lemma write_control: "wired b ab c s \<Longrightarrow> drive_step ab id s (ide_write b c ATA_REG_CONTROL v s)"
  unfolding wired_def drive_step_def ide_ports(2) using compliantD(2) by fastforce

lemma read_status: "wired b ab c s \<Longrightarrow> \<exists>s'. ide_read b c ATA_REG_STATUS s = (ata_status (ab (hw s)), s') \<and> drive_step ab id s s'"
  unfolding wired_def drive_step_def ide_ports(3) using compliantD(4,5) by fastforce

lemma read_altstatus: "wired b ab c s \<Longrightarrow> drive_step ab id s (snd (ide_read b c ATA_REG_ALTSTATUS s))"
  unfolding wired_def drive_step_def ide_ports(4) using compliantD(3) by fastforce

lemma status_bits: "ata_status a AND ATA_SR_BSY = 0" "ata_status a AND ATA_SR_ERR = 0" "ata_status a AND ATA_SR_DF = 0"
  "ata_status a AND ATA_SR_DRQ = 0 \<longleftrightarrow> a_send a = [] \<and> a_left a = 0"
  by (simp_all add: ata_status_def)

lemma busy_loop_ends: "wired b ab c s \<Longrightarrow> \<exists>s'. wait_not_busy b c s = Inr s' \<and> drive_step ab id s s'"
  using read_status [of b ab c s] by (auto simp: wait_not_busy_def busy_loop.simps [of b c s] status_bits)

lemma polling_ends:
  assumes w: "wired b ab c s" and adv: "adv \<Longrightarrow> a_send (ab (hw s)) \<noteq> [] \<or> a_left (ab (hw s)) \<noteq> 0"
  shows "\<exists>s'. ide_polling b c adv s = Inr (0, s') \<and> drive_step ab id s s'"
proof -
  have "drive_step ab id s (fold (\<lambda>_ s. snd (ide_read b c ATA_REG_ALTSTATUS s)) xs s)" for xs :: "nat list"
    using w
  proof (induction xs arbitrary: s)
    case (Cons x xs)
    note st = read_altstatus [OF Cons.prems]
    from drive_step_trans [OF st Cons.IH] drive_step_wired [OF st] Cons.prems show ?case by simp
  qed (simp add: drive_step_refl)
  then have s1: "drive_step ab id s (fold (\<lambda>_ s. snd (ide_read b c ATA_REG_ALTSTATUS s)) [0..<4] s)" .
  let ?s1 = "fold (\<lambda>_ s. snd (ide_read b c ATA_REG_ALTSTATUS s)) [0..<4] s"
  have w1: "wired b ab c ?s1" using drive_step_wired [OF s1] w by blast
  then obtain s2 where s2: "wait_not_busy b c ?s1 = Inr s2" "drive_step ab id ?s1 s2" using busy_loop_ends by blast
  have w2: "wired b ab c s2" using drive_step_wired [OF s2(2)] w1 by blast
  then obtain s3 where s3: "ide_read b c ATA_REG_STATUS s2 = (ata_status (ab (hw s2)), s3)" "drive_step ab id s2 s3" using read_status by blast
  note s2 = s2(1) drive_step_trans [OF s1 s2(2), unfolded comp_id]
  note s3 = s3(1) drive_step_trans [OF s2(2) s3(2), unfolded comp_id]
  have "ab (hw s2) = ab (hw s)" using s2(2) by (auto simp: drive_step_def)
  then show ?thesis using s2 s3 adv status_bits [of "ab (hw s)"] by (cases adv) (simp_all add: ide_polling_def del: upt_rec_numeral upt_Suc)
qed

section \<open>Transfers of sectors\<close>

text \<open>The words in memory from an address on, and memory with words stored.\<close>

definition get_words :: "u64 \<Rightarrow> nat \<Rightarrow> (u64 \<Rightarrow> u8) \<Rightarrow> u16 list" where
  "get_words a n m = map (\<lambda>k. word_of (m (a + of_nat (2 * k))) (m (a + of_nat (2 * k) + 1))) [0..<n]"

primrec put_words :: "u64 \<Rightarrow> u16 list \<Rightarrow> (u64 \<Rightarrow> u8) \<Rightarrow> (u64 \<Rightarrow> u8)" where
  "put_words a [] m = m"
| "put_words a (w # ws) m = put_words (a + 2) ws (put_word a w m)"

lemma get_words_Suc: "get_words a (Suc n) m = word_of (m a) (m (a + 1)) # get_words (a + 2) n m"
  unfolding get_words_def upt_conv_Cons [OF zero_less_Suc] map_Suc_upt [symmetric] by (simp add: algebra_simps)

lemma get_words_append: "get_words a (j + n) m = get_words a j m @ get_words (a + of_nat (2 * j)) n m"
proof (induction j arbitrary: a)
  case (Suc j)
  show ?case using Suc [of "a + 2"] by (simp add: get_words_Suc algebra_simps)
qed (simp add: get_words_def)

lemma put_words_append: "put_words a (xs @ ys) m = put_words (a + of_nat (2 * length xs)) ys (put_words a xs m)"
  by (induction xs arbitrary: a m) (simp_all add: algebra_simps)

lemma length_get_words [simp]: "length (get_words a n m) = n"
  by (simp add: get_words_def)

lemma word_of_bytes: "ucast (word_of x y) = (x :: u8)" "ucast (drop_bit 8 (word_of x y)) = (y :: u8)"
  by (rule bit_word_eqI; auto simp: word_of_def bit_simps dest: bit_imp_le_length)+

lemma put_words_outside:
  "\<forall>k<2 * length ws. x \<noteq> a + of_nat k \<Longrightarrow> put_words a ws m x = m x"
proof (induction ws arbitrary: a m)
  case (Cons w ws)
  have "x \<noteq> a" "x \<noteq> a + 1" using Cons.prems [rule_format, of 0] Cons.prems [rule_format, of 1] by simp_all
  moreover have "\<forall>k<2 * length ws. x \<noteq> a + 2 + of_nat k" using Cons.prems [rule_format, of "_ + 2"] by (auto simp: algebra_simps)
  ultimately show ?case using Cons.IH by (simp add: put_word_def)
qed simp

text \<open>Storing what was read somewhere else copies the bytes.\<close>

lemma put_get_words:
  assumes "2 * n \<le> 2 ^ 64" "i < 2 * n"
  shows "put_words a (get_words c n m) m' (a + of_nat i) = m (c + of_nat i)"
  using assms
proof (induction n arbitrary: a c i m')
  case (Suc n)
  let ?m = "put_word a (word_of (m c) (m (c + 1))) m'"
  show ?case
  proof (cases "i < 2")
    case True
    have o: "\<forall>k<2 * length (get_words (c + 2) n m). a + of_nat i \<noteq> a + 2 + of_nat k"
    proof (intro allI impI notI)
      fix k assume k: "k < 2 * length (get_words (c + 2) n m)" "a + of_nat i = a + 2 + of_nat k"
      then have "(of_nat i :: u64) = of_nat (k + 2)" by (simp add: algebra_simps)
      then have "i = k + 2" using of_nat_word_inj [where ?'a = 64, of i "k + 2"] k(1) True Suc.prems(1) by simp
      then show False using True by simp
    qed
    have "i = 0 \<or> i = 1" using True by auto
    then show ?thesis using put_words_outside [OF o, of ?m] by (auto simp: get_words_Suc word_of_bytes put_word_def)
  next
    case False
    then obtain j where j: "i = j + 2" by (metis add.commute le_Suc_ex not_less)
    have "put_words (a + 2) (get_words (c + 2) n m) ?m (a + 2 + of_nat j) = m (c + 2 + of_nat j)"
      by (rule Suc.IH) (use Suc.prems j in simp_all)
    then show ?thesis by (simp add: get_words_Suc j algebra_simps)
  qed
qed simp

lemma insw_words:
  assumes "wired b ab c s" "n \<le> length (a_send (ab (hw s)))"
  shows "\<exists>d. insw b (io_base (channels s c)) n a s = s\<lparr>hw := d, bytes := put_words a (take n (a_send (ab (hw s)))) (bytes s)\<rparr> \<and>
    ab d = (ab (hw s))\<lparr>a_send := drop n (a_send (ab (hw s)))\<rparr>"
  using assms
proof (induction n arbitrary: a s)
  case 0
  show ?case by (rule exI [of _ "hw s"]) simp
next
  case (Suc n)
  let ?p = "io_base (channels s c)" and ?q = "a_send (ab (hw s))"
  obtain w d where wd: "p_inw b ?p (hw s) = (w, d)" by fastforce
  obtain ws where q: "?q = w # ws" and d: "ab d = (ab (hw s))\<lparr>a_send := ws\<rparr>"
    using Suc.prems compliantD(6) [of b ?p _ ab "hw s"] wd by (cases ?q) (auto simp: wired_def)
  let ?s = "s\<lparr>hw := d, bytes := put_word a w (bytes s)\<rparr>"
  have "wired b ab c ?s" "n \<le> length (a_send (ab (hw ?s)))" using Suc.prems q d by simp_all
  from Suc.IH [OF this, of "a + 2"] q d wd show ?case by auto
qed

lemma outsw_words:
  assumes "wired b ab c s"
  shows "\<exists>d. outsw b (io_base (channels s c)) n a s = s\<lparr>hw := d\<rparr> \<and> ab d = fold ata_take (get_words a n (bytes s)) (ab (hw s))"
  using assms
proof (induction n arbitrary: a s)
  case 0
  show ?case by (rule exI [of _ "hw s"]) (simp add: get_words_def)
next
  case (Suc n)
  let ?s = "s\<lparr>hw := p_outw b (io_base (channels s c)) (word_of (bytes s a) (bytes s (a + 1))) (hw s)\<rparr>"
  have "wired b ab c ?s" using Suc.prems by simp
  from Suc.IH [OF this, of "a + 2"] show ?case
    using Suc.prems by (auto simp: get_words_Suc wired_def compliantD(7))
qed

text \<open>A whole sector of words goes to the disk.\<close>

lemma take_words:
  "a_left a \<noteq> 0 \<Longrightarrow> length (a_got a) + length ws < 256 \<Longrightarrow> fold ata_take ws a = a\<lparr>a_got := a_got a @ ws\<rparr>"
  by (induction ws arbitrary: a) (simp_all add: ata_take_def)

lemma take_sector:
  assumes "a_left a \<noteq> 0" "a_got a = []" "length ws = 256"
  shows "fold ata_take ws a = a\<lparr>a_disk := (a_disk a)(a_next a := ws), a_next := a_next a + 1, a_left := a_left a - 1\<rparr>"
proof -
  obtain us w where ws: "ws = us @ [w]" "length us = 255" using assms(3) by (cases ws rule: rev_cases) auto
  have "fold ata_take us a = a\<lparr>a_got := us\<rparr>" using take_words [of a us] assms ws(2) by simp
  then show ?thesis using assms ws by (simp add: ata_take_def)
qed

lemma read_loop_runs:
  assumes "wired b ab c s" "a_send (ab (hw s)) = concat wss" "\<forall>ws\<in>set wss. length ws = 256"
  shows "\<exists>d. read_loop b c (length wss) a s = Inr (0, s\<lparr>hw := d, bytes := put_words a (concat wss) (bytes s)\<rparr>) \<and>
    ab d = (ab (hw s))\<lparr>a_send := []\<rparr>"
  using assms
proof (induction wss arbitrary: a s)
  case Nil
  show ?case by (rule exI [of _ "hw s"]) (use Nil in simp)
next
  case (Cons ws wss)
  then have "a_send (ab (hw s)) \<noteq> []" by auto
  then obtain s1 where s1: "ide_polling b c True s = Inr (0, s1)" "drive_step ab id s s1" using polling_ends [OF Cons.prems(1)] by blast
  then obtain d1 where d1: "s1 = s\<lparr>hw := d1\<rparr>" "ab d1 = ab (hw s)" by (auto simp: drive_step_def)
  have "wired b ab c s1" "256 \<le> length (a_send (ab (hw s1)))" using Cons.prems d1 by simp_all
  from insw_words [OF this, of a] obtain d2 where d2: "insw b (io_base (channels s1 c)) 256 a s1 = s1\<lparr>hw := d2, bytes := put_words a ws (bytes s)\<rparr>"
      "ab d2 = (ab (hw s))\<lparr>a_send := concat wss\<rparr>"
    using Cons.prems d1 by auto
  let ?s = "s1\<lparr>hw := d2, bytes := put_words a ws (bytes s)\<rparr>"
  have "wired b ab c ?s" "a_send (ab (hw ?s)) = concat wss" "\<forall>ws\<in>set wss. length ws = 256" using Cons.prems d1 d2(2) by simp_all
  from Cons.IH [OF this, of "a + 512"] show ?case
    using s1(1) d1 d2 Cons.prems(3) by (auto simp: put_words_append simp del: insw.simps)
qed

lemma write_loop_runs:
  assumes "wired b ab c s" "a_left (ab (hw s)) = n" "a_got (ab (hw s)) = []"
  shows "\<exists>d. write_loop b c n a s = Inr (s\<lparr>hw := d\<rparr>) \<and> a_left (ab d) = 0 \<and> a_send (ab d) = a_send (ab (hw s)) \<and>
    (\<forall>k<n. a_disk (ab d) (a_next (ab (hw s)) + k) = get_words (a + of_nat (512 * k)) 256 (bytes s)) \<and>
    (\<forall>j<a_next (ab (hw s)). a_disk (ab d) j = a_disk (ab (hw s)) j)"
  using assms
proof (induction n arbitrary: a s)
  case 0
  show ?case by (rule exI [of _ "hw s"]) (use 0 in simp)
next
  case (Suc n)
  then obtain s1 where s1: "ide_polling b c False s = Inr (0, s1)" "drive_step ab id s s1" using polling_ends [OF Suc.prems(1), of False] by blast
  then obtain d1 where d1: "s1 = s\<lparr>hw := d1\<rparr>" "ab d1 = ab (hw s)" by (auto simp: drive_step_def)
  obtain d2 where d2: "outsw b (io_base (channels s1 c)) 256 a s1 = s1\<lparr>hw := d2\<rparr>" "ab d2 = fold ata_take (get_words a 256 (bytes s)) (ab (hw s))"
    using outsw_words [of b ab c s1 256 a] Suc.prems(1) d1 by auto
  have d2': "ab d2 = (ab (hw s))\<lparr>a_disk := (a_disk (ab (hw s)))(a_next (ab (hw s)) := get_words a 256 (bytes s)),
      a_next := a_next (ab (hw s)) + 1, a_left := n\<rparr>"
    using take_sector [of "ab (hw s)" "get_words a 256 (bytes s)"] Suc.prems d2(2) by simp
  let ?s = "s1\<lparr>hw := d2\<rparr>"
  have "wired b ab c ?s" "a_left (ab (hw ?s)) = n" "a_got (ab (hw ?s)) = []" using Suc.prems d1 d2' by simp_all
  from Suc.IH [OF this, of "a + 512"] obtain d where d: "write_loop b c n (a + 512) ?s = Inr (?s\<lparr>hw := d\<rparr>)" "a_left (ab d) = 0"
      "a_send (ab d) = a_send (ab d2)"
      "\<forall>k<n. a_disk (ab d) (a_next (ab d2) + k) = get_words (a + 512 + of_nat (512 * k)) 256 (bytes s)"
      "\<forall>j<a_next (ab d2). a_disk (ab d) j = a_disk (ab d2) j"
    using d1 by auto
  have "a_disk (ab d) (a_next (ab (hw s)) + k) = get_words (a + of_nat (512 * k)) 256 (bytes s)" if "k < Suc n" for k
  proof (cases k)
    case 0
    then show ?thesis using d(5) d2' by simp
  next
    case (Suc j)
    then show ?thesis using d(4) [rule_format, of j] d2' that by (simp add: algebra_simps)
  qed
  moreover have "\<forall>j<a_next (ab (hw s)). a_disk (ab d) j = a_disk (ab (hw s)) j" using d(5) d2' by simp
  ultimately show ?case using s1(1) d1(1) d2(1) d(1,2,3) d2' by (auto simp del: outsw.simps)
qed

section \<open>Reading what was written\<close>

lemma drive_register:
  assumes "h < 16"
  shows "(0xE0 OR push_bit 4 sl OR h) AND 0x0F = (h :: u8)"
proof -
  have "unat h < 2 ^ 4" using assms by (simp add: word_less_nat_alt)
  then have "take_bit 4 (unat h) = unat h" by (simp add: take_bit_nat_eq_self)
  then have "take_bit 4 h = h" by (metis unsigned_take_bit_eq word_unat_eq_iff)
  moreover have m: "(0x0F :: u8) = mask 4" by (simp add: mask_eq_exp_minus_1)
  have z: "\<not> bit (0xE0 :: u8) n" if "n < 4" for n
  proof -
    have "n = 0 \<or> n = 1 \<or> n = 2 \<or> n = 3" using that by auto
    then show ?thesis by auto
  qed
  have "(0xE0 OR push_bit 4 sl OR take_bit 4 h) AND 0x0F = take_bit 4 h"
  proof (rule bit_word_eqI)
    fix n
    show "bit ((0xE0 OR push_bit 4 sl OR take_bit 4 h) AND 0x0F) n = bit (take_bit 4 h) n"
      unfolding m using z [of n] by (cases "n < 4") (simp_all only: bit_and_iff bit_or_iff bit_mask_iff bit_take_bit_iff bit_push_bit_iff, simp_all)
  qed
  ultimately show ?thesis by simp
qed

text \<open>The drive after its registers have been loaded for a transfer.\<close>

definition loaded :: "u32 \<Rightarrow> u8 \<Rightarrow> ata \<Rightarrow> ata \<Rightarrow> bool" where
  "loaded lba n a a' \<longleftrightarrow> a_lba a' = unat lba \<and> a_count a' = unat n \<and> a_disk a' = a_disk a"

lemma setup_loads:
  assumes w: "wired b ab c s" and lba: "unat lba < 2 ^ 28" "caps AND 0x200 \<noteq> 0" and n: "n \<noteq> 0"
  shows "\<exists>d. ata_setup b c sl (ata_address lba caps) n s = s\<lparr>hw := d\<rparr> \<and> loaded lba n (ab (hw s)) (ab d)"
proof -
  let ?h = "ucast (drop_bit 24 lba) :: u8"
  let ?io = "[ucast (drop_bit 0 lba), ucast (drop_bit 8 lba), ucast (drop_bit 16 lba), 0, 0, 0] :: u8 list"
  have ad: "ata_address lba caps = (1, ?io, ?h)"
    using lba head_bits [OF lba(1)] unfolding ata_address_def masked_bytes by (simp add: word_le_nat_alt)
  have "unat ?h < 16" using lba(1) unat_byte [of 24 lba] by simp
  then have h: "?h < 16" by (simp add: word_less_nat_alt)
  define dr where "dr = (0xE0 OR push_bit 4 sl OR ?h)"
  let ?s1 = "ide_write b c 0x06 dr s" and ?s2 = "\<lambda>s. ide_write b c 0x02 n s" and ?s3 = "\<lambda>s. ide_write b c 0x03 (?io ! 0) s"
  let ?s4 = "\<lambda>s. ide_write b c 0x04 (?io ! 1) s" and ?s5 = "\<lambda>s. ide_write b c 0x05 (?io ! 2) s"
  have e: "ata_setup b c sl (ata_address lba caps) n s = ?s5 (?s4 (?s3 (?s2 ?s1)))" by (simp add: ata_setup_def ad Let_def dr_def)
  have st: "drive_step ab (ata_out rg v) t (ide_write b c rg v t)" "wired b ab c (ide_write b c rg v t)" if "wired b ab c t" "rg < 8" for t rg v
    using write_task_file [OF that] drive_step_wired [OF write_task_file [OF that]] that by simp_all
  note d = drive_step_trans [OF drive_step_trans [OF drive_step_trans [OF drive_step_trans [OF st(1) st(1)] st(1)] st(1)] st(1)]
  have "drive_step ab (ata_out 5 (?io ! 2) \<circ> (ata_out 4 (?io ! 1) \<circ> (ata_out 3 (?io ! 0) \<circ> (ata_out 2 n \<circ> ata_out 6 dr)))) s (?s5 (?s4 (?s3 (?s2 ?s1))))"
    using w st(2) by (intro d) simp_all
  then obtain d where d: "?s5 (?s4 (?s3 (?s2 ?s1))) = s\<lparr>hw := d\<rparr>" "ab d = ata_out 5 (?io ! 2) (ata_out 4 (?io ! 1) (ata_out 3 (?io ! 0) (ata_out 2 n (ata_out 6 dr (ab (hw s))))))"
    by (auto simp: drive_step_def)
  have "a_lba (ab d) = ata_sector (1, ?io, ?h)"
    using drive_register [OF h, of sl] by (simp add: d(2) a_lba_def ata_out_def dr_def sector_modes)
  then have "a_lba (ab d) = unat lba" using ata_address_sector [of lba caps] lba(2) by (simp only: ad) simp
  moreover have "a_count (ab d) = unat n" "a_disk (ab d) = a_disk (ab (hw s))" using n by (simp_all add: d(2) a_count_def ata_out_def)
  ultimately show ?thesis using e d(1) by (auto simp: loaded_def)
qed

text \<open>An ATA drive with 28-bit addresses behind slot \<open>drive\<close>, on a channel wired to it.\<close>

definition present :: "'d bus \<Rightarrow> ('d \<Rightarrow> ata) \<Rightarrow> nat \<Rightarrow> 'd ide \<Rightarrow> bool" where
  "present b ab drive s \<longleftrightarrow> drive \<le> 3 \<and> (let dv = ide_devices s drive in
     d_reserved dv \<noteq> 0 \<and> d_type dv = IDE_ATA \<and> d_capabilities dv AND 0x200 \<noteq> 0 \<and> unat (d_channel dv) < n_channels \<and>
     wired b ab (unat (d_channel dv)) s)"

text \<open>The start of an access, up to the command byte.\<close>

lemma access_start:
  assumes p: "present b ab drive s" and lba: "unat lba < 2 ^ 28" and n: "n \<noteq> 0"
  shows "\<exists>s1. ide_ata_access b wr drive lba n a s =
      (let c = unat (d_channel (ide_devices s drive)) in
       if \<not> wr then read_loop b c (unat n) a (ide_write b c ATA_REG_COMMAND 0x20 s1)
       else rbind (write_loop b c (unat n) a (ide_write b c ATA_REG_COMMAND 0x30 s1)) (\<lambda>s.
         rbind (ide_polling b c False (ide_write b c ATA_REG_COMMAND 0xE7 s)) (\<lambda>(_, s). Inr (0, s)))) \<and>
    wired b ab (unat (d_channel (ide_devices s drive))) s1 \<and> loaded lba n (ab (hw s)) (ab (hw s1)) \<and>
    bytes s1 = bytes s \<and> ide_devices s1 = ide_devices s"
proof -
  let ?dv = "ide_devices s drive" let ?c = "unat (d_channel ?dv)"
  have c: "?c < n_channels" "d_capabilities ?dv AND 0x200 \<noteq> 0" and w: "wired b ab ?c s" using p by (auto simp: present_def Let_def)
  let ?s = "s\<lparr>ide_irq_invoked := 0, channels := (channels s)(?c := (channels s ?c)\<lparr>nIEN := 2\<rparr>)\<rparr>"
  have w0: "wired b ab ?c ?s" using w by (simp add: wired_def)
  obtain d0 where d0: "ide_write b ?c ATA_REG_CONTROL 2 ?s = ?s\<lparr>hw := d0\<rparr>" "ab d0 = ab (hw s)"
    using write_control [OF w0, of 2] by (auto simp: drive_step_def)
  have w1: "wired b ab ?c (?s\<lparr>hw := d0\<rparr>)" using w0 by simp
  obtain d2 where d2: "wait_not_busy b ?c (?s\<lparr>hw := d0\<rparr>) = Inr (?s\<lparr>hw := d2\<rparr>)" "ab d2 = ab (hw s)"
    using busy_loop_ends [OF w1] d0(2) by (auto simp: drive_step_def)
  have w2: "wired b ab ?c (?s\<lparr>hw := d2\<rparr>)" using w0 by simp
  obtain d3 where d3: "ata_setup b ?c (d_drive ?dv) (ata_address lba (d_capabilities ?dv)) n (?s\<lparr>hw := d2\<rparr>) = ?s\<lparr>hw := d3\<rparr>"
      "loaded lba n (ab (hw s)) (ab d3)"
    using setup_loads [OF w2 lba c(2) n, of "d_drive ?dv"] d2(2) by auto
  have "fst (ata_address lba (d_capabilities ?dv)) \<noteq> 2" using lba c(2) by (simp add: ata_address_def word_le_nat_alt)
  then show ?thesis
    using c(1) d0(1) d2(1) d3 w0 by (intro exI [of _ "?s\<lparr>hw := d3\<rparr>"]) (simp add: ide_ata_access_def Let_def not_le)
qed

lemma access_read:
  assumes p: "present b ab drive s" and lba: "unat lba < 2 ^ 28" and n: "n \<noteq> 0"
    and disk: "\<forall>j<unat n. length (a_disk (ab (hw s)) (unat lba + j)) = 256"
  shows "\<exists>s'. ide_ata_access b False drive lba n a s = Inr (0, s') \<and>
    bytes s' = put_words a (concat (map (\<lambda>j. a_disk (ab (hw s)) (unat lba + j)) [0..<unat n])) (bytes s)"
proof -
  let ?c = "unat (d_channel (ide_devices s drive))" and ?A = "ab (hw s)"
  obtain s1 where e: "ide_ata_access b False drive lba n a s = read_loop b ?c (unat n) a (ide_write b ?c ATA_REG_COMMAND 0x20 s1)"
    and w: "wired b ab ?c s1" and ld: "loaded lba n ?A (ab (hw s1))" and by1: "bytes s1 = bytes s"
    using access_start [OF p lba n, of False a] by (auto simp: Let_def)
  obtain d where d: "ide_write b ?c ATA_REG_COMMAND 0x20 s1 = s1\<lparr>hw := d\<rparr>" "ab d = ata_out 7 0x20 (ab (hw s1))"
    using write_task_file [OF w, of 7 "0x20"] by (auto simp: drive_step_def)
  let ?W = "map (\<lambda>j. a_disk ?A (unat lba + j)) [0..<unat n]"
  have "map (a_disk ?A) [unat lba..<unat lba + unat n] = ?W" by (rule nth_equalityI) simp_all
  then have "a_send (ab d) = concat ?W" using ld by (simp add: d(2) ata_out_def ata_command_def loaded_def)
  moreover have "wired b ab ?c (s1\<lparr>hw := d\<rparr>)" using w by simp
  moreover have "\<forall>ws\<in>set ?W. length ws = 256" using disk by auto
  ultimately obtain d2 where "read_loop b ?c (length ?W) a (s1\<lparr>hw := d\<rparr>) = Inr (0, s1\<lparr>hw := d2, bytes := put_words a (concat ?W) (bytes s)\<rparr>)"
    using read_loop_runs [of b ab ?c "s1\<lparr>hw := d\<rparr>" ?W a] by1 by auto
  then show ?thesis using e d(1) by simp
qed

lemma access_write:
  assumes p: "present b ab drive s" and lba: "unat lba < 2 ^ 28" and n: "n \<noteq> 0"
  shows "\<exists>s'. ide_ata_access b True drive lba n a s = Inr (0, s') \<and> bytes s' = bytes s \<and>
    present b ab drive s' \<and> d_size (ide_devices s' drive) = d_size (ide_devices s drive) \<and>
    (\<forall>k<unat n. a_disk (ab (hw s')) (unat lba + k) = get_words (a + of_nat (512 * k)) 256 (bytes s))"
proof -
  let ?c = "unat (d_channel (ide_devices s drive))" and ?A = "ab (hw s)"
  obtain s1 where e: "ide_ata_access b True drive lba n a s =
        rbind (write_loop b ?c (unat n) a (ide_write b ?c ATA_REG_COMMAND 0x30 s1)) (\<lambda>s.
         rbind (ide_polling b ?c False (ide_write b ?c ATA_REG_COMMAND 0xE7 s)) (\<lambda>(_, s). Inr (0, s)))"
    and w: "wired b ab ?c s1" and ld: "loaded lba n ?A (ab (hw s1))" and same: "bytes s1 = bytes s" "ide_devices s1 = ide_devices s"
    using access_start [OF p lba n, of True a] by (auto simp: Let_def)
  obtain d where d: "ide_write b ?c ATA_REG_COMMAND 0x30 s1 = s1\<lparr>hw := d\<rparr>" "ab d = ata_out 7 0x30 (ab (hw s1))"
    using write_task_file [OF w, of 7 "0x30"] by (auto simp: drive_step_def)
  have a: "a_left (ab d) = unat n" "a_got (ab d) = []" "a_next (ab d) = unat lba"
    using ld by (simp_all add: d(2) ata_out_def ata_command_def loaded_def)
  have w1: "wired b ab ?c (s1\<lparr>hw := d\<rparr>)" using w by simp
  obtain d2 where d2: "write_loop b ?c (unat n) a (s1\<lparr>hw := d\<rparr>) = Inr (s1\<lparr>hw := d2\<rparr>)"
      "\<forall>k<unat n. a_disk (ab d2) (unat lba + k) = get_words (a + of_nat (512 * k)) 256 (bytes s)"
    using write_loop_runs [OF w1, of "unat n" a] a same(1) by auto
  have w2: "wired b ab ?c (s1\<lparr>hw := d2\<rparr>)" using w by simp
  obtain d3 where d3: "ide_write b ?c ATA_REG_COMMAND 0xE7 (s1\<lparr>hw := d2\<rparr>) = s1\<lparr>hw := d3\<rparr>" "ab d3 = ata_out 7 0xE7 (ab d2)"
    using write_task_file [OF w2, of 7 "0xE7"] by (auto simp: drive_step_def)
  have w3: "wired b ab ?c (s1\<lparr>hw := d3\<rparr>)" using w by simp
  obtain d4 where d4: "ide_polling b ?c False (s1\<lparr>hw := d3\<rparr>) = Inr (0, s1\<lparr>hw := d4\<rparr>)" "ab d4 = ab d3"
    using polling_ends [OF w3, of False] by (auto simp: drive_step_def)
  have "a_disk (ab d4) = a_disk (ab d2)" by (simp add: d4(2) d3(2) ata_out_def ata_command_def)
  moreover have "present b ab drive (s1\<lparr>hw := d4\<rparr>)" using p w by (simp add: present_def same(2) Let_def)
  ultimately show ?thesis using e d(1) d2 d3(1) d4(1) same by simp
qed

lemma get_sectors: "concat (map (\<lambda>k. get_words (a + of_nat (512 * k)) 256 m) [0..<n]) = get_words a (256 * n) m"
proof (induction n)
  case (Suc n)
  have "256 * Suc n = 256 * n + 256" "2 * (256 * n) = 512 * n" by simp_all
  then show ?case using Suc get_words_append [of a "256 * n" 256 m] by (simp add: add.commute del: of_nat_mult)
qed (simp add: get_words_def)

lemma size_check:
  assumes "unat lba + unat n \<le> unat (sz :: u32)"
  shows "\<not> lba + ucast (n :: u8) > sz"
proof -
  have "unat sz < 2 ^ 32" using unsigned_less [of sz] by simp
  moreover have "unat n < 2 ^ LENGTH(8)" by (rule unsigned_less)
  then have "unat (ucast n :: u32) = unat n" by (intro unat_ucast_small) simp
  ultimately have "unat (lba + ucast n) = unat lba + unat n" using assms by (simp add: unat_word_ariths)
  then show ?thesis using assms by (simp add: word_less_nat_alt)
qed


text \<open>A drive at the usual ports of the first channel.\<close>

definition ata_bus :: "ata bus" where
  "ata_bus = \<lparr>
     p_inb = \<lambda>p a. (if p = 0x1F7 then ata_status a else 0, a),
     p_outb = \<lambda>p v a. if 0x1F0 \<le> p \<and> p < 0x1F8 then ata_out (unat (p - 0x1F0)) v a else a,
     p_inw = \<lambda>p a. if p = 0x1F0 \<and> a_send a \<noteq> [] then (hd (a_send a), a\<lparr>a_send := tl (a_send a)\<rparr>) else (0, a),
     p_outw = \<lambda>p w a. if p = 0x1F0 then ata_take w a else a,
     p_inl = \<lambda>p a. (0, a),
     p_irq = \<lambda>a. (False, a)\<rparr>"

lemma ata_bus_compliant: "compliant ata_bus 0x1F0 0x3F4 (\<lambda>a. a)"
proof -
  have r: "0x1F0 \<le> (0x1F0 + of_nat rg :: u16) \<and> (0x1F0 + of_nat rg :: u16) < 0x1F8 \<and> unat (0x1F0 + of_nat rg - 0x1F0 :: u16) = rg"
    if "rg < 8" for rg
  proof -
    have "unat (of_nat rg :: u16) = rg" using that by (simp add: unat_of_nat_lt)
    then show ?thesis using that by (simp add: word_le_nat_alt word_less_nat_alt unat_word_ariths)
  qed
  have "p_outb ata_bus (0x1F0 + of_nat rg) v a = ata_out rg v a" if "rg < 8" for rg v a
    using r [OF that] by (simp add: ata_bus_def)
  then show ?thesis unfolding compliant_def by (simp add: ata_bus_def)
qed

definition example_disk :: "ata ide" where
  "example_disk = \<lparr>channels = \<lambda>_. \<lparr>io_base = 0x1F0, io_ctrl = 0x3F4, io_bmide = 0, nIEN = 0\<rparr>,
     ide_devices = \<lambda>_. \<lparr>d_reserved = 1, d_channel = 0, d_drive = 0, d_type = 0, d_signature = 0, d_capabilities = 0x200, d_commandsets = 0, d_size = 1000, d_model = ''disk''\<rparr>,
     package0 = 0, ide_irq_invoked = 0, ide_buf = \<lambda>_. 0, atapi_packet = [], bytes = \<lambda>a. ucast a, console = example_screen,
     hw = \<lparr>a_regs = \<lambda>_. 0, a_send = [], a_next = 0, a_left = 0, a_got = [], a_disk = \<lambda>_. []\<rparr>\<rparr>"


text \<open>
  Requests the driver refuses without touching the controller, and one it does not: the sum of sector and
  count wraps at 32 bits, so a request at the very end of the address range passes the check.
\<close>

lemma ide_refuses:
  "drive > 3 \<or> d_reserved (ide_devices s drive) = 0 \<Longrightarrow> ide_read_sectors b drive n lba a s = Inr (s\<lparr>package0 := 1\<rparr>)"
  "drive \<le> 3 \<Longrightarrow> d_reserved (ide_devices s drive) \<noteq> 0 \<Longrightarrow> d_type (ide_devices s drive) = IDE_ATA \<Longrightarrow>
     lba + ucast n > d_size (ide_devices s drive) \<Longrightarrow> ide_read_sectors b drive n lba a s = Inr (s\<lparr>package0 := 2\<rparr>)"
  "\<not> (0xFFFFFFFF + ucast (1 :: u8) :: u32) > 0"
  by (auto simp: ide_read_sectors_def Let_def)

end
