(* ===== verification/Ide_Init.thy ===== *)
theory Ide_Init
  imports Ide CString
begin

unbundle bit_operations_syntax

text \<open>
  The rest of the disk driver \<^verbatim>\<open>sys/ide.c\<close>: the detection of drives by \<^verbatim>\<open>ide_initialize\<close> with the summary
  and the test of the second drive it ends with, the interrupt flag, and reading from CD-ROM drives.
\<close>

section \<open>The identification of a drive\<close>

text \<open>\<^verbatim>\<open>ide_read_buffer\<close>: its only caller reads into the driver's own buffer.\<close>

definition put_long :: "nat \<Rightarrow> u32 \<Rightarrow> (nat \<Rightarrow> u8) \<Rightarrow> (nat \<Rightarrow> u8)" where
  "put_long off v f =
     f(off := ucast v, off + 1 := ucast (drop_bit 8 v), off + 2 := ucast (drop_bit 16 v), off + 3 := ucast (drop_bit 24 v))"

primrec insl :: "'d bus \<Rightarrow> u16 \<Rightarrow> nat \<Rightarrow> nat \<Rightarrow> 'd ide \<Rightarrow> 'd ide" where
  "insl b p off 0 s = s"
| "insl b p off (Suc cnt) s =
     (let (v, d) = p_inl b p (hw s) in insl b p (off + 4) cnt (s\<lparr>hw := d, ide_buf := put_long off v (ide_buf s)\<rparr>))"

definition ide_read_buffer :: "'d bus \<Rightarrow> nat \<Rightarrow> nat \<Rightarrow> nat \<Rightarrow> 'd ide \<Rightarrow> 'd ide" where
  "ide_read_buffer b c reg quads s =
     (let s = (if high_byte reg then ide_write b c ATA_REG_CONTROL (0x80 OR nIEN (channels s c)) s else s);
          s = (case reg_port (channels s c) reg of None \<Rightarrow> s | Some p \<Rightarrow> insl b p 0 quads s)
      in if high_byte reg then ide_write b c ATA_REG_CONTROL (nIEN (channels s c)) s else s)"

text \<open>Waiting for the answer to the identify command; whether it is an error.\<close>

partial_function (option) ident_loop :: "'d bus \<Rightarrow> nat \<Rightarrow> 'd ide \<Rightarrow> (bool \<times> 'd ide) option" where
  "ident_loop b c s =
     (let (st, s) = ide_read b c ATA_REG_STATUS s in
      if st AND ATA_SR_ERR \<noteq> 0 then Some (True, s)
      else if st AND ATA_SR_BSY = 0 \<and> st AND ATA_SR_DRQ \<noteq> 0 then Some (False, s)
      else ident_loop b c s)"

definition buf_word :: "(nat \<Rightarrow> u8) \<Rightarrow> nat \<Rightarrow> u16" where
  "buf_word f off = ucast (f off) OR push_bit 8 (ucast (f (off + 1)))"

definition buf_long :: "(nat \<Rightarrow> u8) \<Rightarrow> nat \<Rightarrow> u32" where
  "buf_long f off = ucast (buf_word f off) OR push_bit 16 (ucast (buf_word f (off + 2)))"

text \<open>The model is a zero-terminated string of at most 40 characters, the two bytes of each word swapped.\<close>

definition buf_model :: "(nat \<Rightarrow> u8) \<Rightarrow> string" where
  "buf_model f = map (\<lambda>c. char_of (unat c)) (takeWhile (\<lambda>c. c \<noteq> 0)
     (concat (map (\<lambda>k. [f (54 + 2 * k + 1), f (54 + 2 * k)]) [0..<20])))"

definition record_device :: "nat \<Rightarrow> nat \<Rightarrow> nat \<Rightarrow> u16 \<Rightarrow> 'd ide \<Rightarrow> 'd ide" where
  "record_device cnt i j type s =
     (let f = ide_buf s; sets = buf_long f 164 in
      s\<lparr>ide_devices := (ide_devices s)(cnt :=
          \<lparr>d_reserved = 1, d_channel = of_nat i, d_drive = of_nat j, d_type = type,
           d_signature = buf_word f 0, d_capabilities = buf_word f 98, d_commandsets = sets,
           d_size = (if sets AND push_bit 26 1 \<noteq> 0 then buf_long f 200 else buf_long f 120),
           d_model = buf_model f\<rparr>)\<rparr>)"

definition set_reserved :: "nat \<Rightarrow> u8 \<Rightarrow> 'd ide \<Rightarrow> 'd ide" where
  "set_reserved cnt v s = s\<lparr>ide_devices := (ide_devices s)(cnt := (ide_devices s cnt)\<lparr>d_reserved := v\<rparr>)\<rparr>"

text \<open>One round of the detection: drive \<open>j\<close> of channel \<open>i\<close>, to be entered at position \<open>cnt\<close>.\<close>

definition probe_drive :: "'d bus \<Rightarrow> nat \<Rightarrow> nat \<Rightarrow> nat \<times> 'd ide \<Rightarrow> (nat \<times> 'd ide) res" where
  "probe_drive b i j = (\<lambda>(cnt, s).
     let s = set_reserved cnt 0 s;
         s = ide_write b i ATA_REG_HDDEVSEL (0xA0 OR push_bit 4 (of_nat j)) s;
         s = ide_write b i ATA_REG_COMMAND 0xEC s;
         (st, s) = ide_read b i ATA_REG_STATUS s in
     if st = 0 then Inr (cnt, s)
     else case ident_loop b i s of
       None \<Rightarrow> Inl Hang
     | Some (err, s) \<Rightarrow>
         let finish = (\<lambda>type s. Inr (cnt + 1, record_device cnt i j type (ide_read_buffer b i 0x00 128 s))) in
         if \<not> err then finish IDE_ATA s
         else
           let (cl, s) = ide_read b i 0x04 s; (ch, s) = ide_read b i 0x05 s in
           if cl = 0x14 \<and> ch = 0xEB \<or> cl = 0x69 \<and> ch = 0x96
           then finish IDE_ATAPI (ide_write b i ATA_REG_COMMAND 0xA1 s)
           else Inr (cnt, s))"

section \<open>Initialisation\<close>

definition set_channels :: "u32 \<Rightarrow> u32 \<Rightarrow> u32 \<Rightarrow> u32 \<Rightarrow> u32 \<Rightarrow> (nat \<Rightarrow> ide_channel) \<Rightarrow> nat \<Rightarrow> ide_channel" where
  "set_channels bar0 bar1 bar2 bar3 bar4 chs =
     (let port = (\<lambda>bar dflt. ucast ((bar AND 0xFFFFFFFC) + dflt * (if bar = 0 then 1 else 0)) :: u16) in
      chs(0 := (chs 0)\<lparr>io_base := port bar0 0x1F0, io_ctrl := port bar1 0x3F6, io_bmide := ucast (bar4 AND 0xFFFFFFFC)\<rparr>,
          1 := (chs 1)\<lparr>io_base := port bar2 0x170, io_ctrl := port bar3 0x376, io_bmide := ucast ((bar4 AND 0xFFFFFFFC) + 8)\<rparr>))"

text \<open>
  The test of the second drive: a hundred blocks of eight sectors, each filled with its number, are written and read
  back. The drive is named by its number on its channel. The result is whether the test was passed.
\<close>

primrec test_loop :: "'d bus \<Rightarrow> nat \<Rightarrow> nat \<Rightarrow> nat \<Rightarrow> 'd ide \<Rightarrow> (bool \<times> 'd ide) res" where
  "test_loop b i k 0 s = Inr (True, s)"
| "test_loop b i k (Suc n) s =
     (let s = s\<lparr>bytes := memset_loop (bytes s) 0x800000 (of_nat k) 4096\<rparr> in
      rbind (ide_write_sectors b (unat (d_drive (ide_devices s i))) 8 (of_nat (8 * k)) 0x800000 s) (\<lambda>s.
      rbind (ide_read_sectors b (unat (d_drive (ide_devices s i))) 8 (of_nat (8 * k)) 0x900000 s) (\<lambda>s.
      case strcmp (bytes s) 0x800000 0x900000 of
        None \<Rightarrow> Inl Hang
      | Some r \<Rightarrow> if r = 0 then test_loop b i (k + 1) n s else rbind (msg ''Incorrect'' s) (\<lambda>s. Inr (False, s)))))"

primrec summary_loop :: "'d bus \<Rightarrow> nat \<Rightarrow> nat \<Rightarrow> 'd ide \<Rightarrow> 'd ide res" where
  "summary_loop b i 0 s = Inr s"
| "summary_loop b i (Suc n) s =
     (let dv = ide_devices s i in
      if d_reserved dv = 1 then
        if d_type dv > 1 then Inl OutOfBounds
        else
          rbind (kprintf (''i:%d  Found %s Drive Size{} - %d - %s'' @ [CHR 0x0A])
            [VInt (int i), VStr ([''ATA'', ''ATAPI''] ! unat (d_type dv)), VInt (sint (d_size dv)), VStr (d_model dv)] (console s)) (\<lambda>v.
          rbind (if i = 1 then test_loop b i 0 100 (s\<lparr>console := v\<rparr>) else Inr (True, s\<lparr>console := v\<rparr>)) (\<lambda>(passed, s).
          if passed then summary_loop b (i + 1) n s else Inr s))
      else summary_loop b (i + 1) n s)"

definition ide_initialize :: "'d bus \<Rightarrow> u32 \<Rightarrow> u32 \<Rightarrow> u32 \<Rightarrow> u32 \<Rightarrow> u32 \<Rightarrow> 'd ide \<Rightarrow> 'd ide res" where
  "ide_initialize b bar0 bar1 bar2 bar3 bar4 s =
     (let s = s\<lparr>channels := set_channels bar0 bar1 bar2 bar3 bar4 (channels s)\<rparr>;
          s = ide_write b 0 ATA_REG_CONTROL 2 s;
          s = ide_write b 1 ATA_REG_CONTROL 2 s in
      rbind (rfold (\<lambda>(i, j). probe_drive b i j) [(0, 0), (0, 1), (1, 0), (1, 1)] (0, s)) (\<lambda>(cnt, s).
      summary_loop b 0 3 s))"

section \<open>CD-ROM drives\<close>

definition ide_irq :: "'d ide \<Rightarrow> 'd ide" where
  "ide_irq s = s\<lparr>ide_irq_invoked := 1\<rparr>"

text \<open>The wait ends when the interrupt handler has set the flag.\<close>

partial_function (option) irq_loop :: "'d bus \<Rightarrow> 'd ide \<Rightarrow> 'd ide option" where
  "irq_loop b s =
     (if ide_irq_invoked s \<noteq> 0 then Some s
      else let (fired, d) = p_irq b (hw s); s = s\<lparr>hw := d\<rparr> in irq_loop b (if fired then ide_irq s else s))"

definition ide_wait_irq :: "'d bus \<Rightarrow> 'd ide \<Rightarrow> 'd ide res" where
  "ide_wait_irq b s = (case irq_loop b s of None \<Rightarrow> Inl Hang | Some s \<Rightarrow> Inr (s\<lparr>ide_irq_invoked := 0\<rparr>))"

definition scsi_packet :: "u32 \<Rightarrow> u8 \<Rightarrow> u8 list" where
  "scsi_packet lba numsects =
     [0xA8, 0, ucast (drop_bit 24 lba AND 0xFF), ucast (drop_bit 16 lba AND 0xFF), ucast (drop_bit 8 lba AND 0xFF), ucast (lba AND 0xFF),
      0, 0, 0, numsects, 0, 0]"

definition send_packet :: "'d bus \<Rightarrow> u16 \<Rightarrow> 'd ide \<Rightarrow> 'd ide" where
  "send_packet b p s =
     fold (\<lambda>k s. s\<lparr>hw := p_outw b p (word_of (atapi_packet s ! (2 * k)) (atapi_packet s ! (2 * k + 1))) (hw s)\<rparr>) [0..<6] s"

primrec atapi_loop :: "'d bus \<Rightarrow> nat \<Rightarrow> nat \<Rightarrow> u32 \<Rightarrow> 'd ide \<Rightarrow> (u8 \<times> 'd ide) res" where
  "atapi_loop b c 0 edi s = Inr (0, s)"
| "atapi_loop b c (Suc n) edi s =
     rbind (ide_wait_irq b s) (\<lambda>s.
     rbind (ide_polling b c True s) (\<lambda>(err, s).
     if err \<noteq> 0 then Inr (err, s)
     else atapi_loop b c n (edi + 2048) (insw b (io_base (channels s c)) 1024 (ucast edi) s)))"

partial_function (option) drain_loop :: "'d bus \<Rightarrow> nat \<Rightarrow> 'd ide \<Rightarrow> 'd ide option" where
  "drain_loop b c s =
     (let (st, s) = ide_read b c ATA_REG_STATUS s in
      if st AND (ATA_SR_BSY OR ATA_SR_DRQ) \<noteq> 0 then drain_loop b c s else Some s)"

definition ide_atapi_read :: "'d bus \<Rightarrow> nat \<Rightarrow> u32 \<Rightarrow> u8 \<Rightarrow> u32 \<Rightarrow> 'd ide \<Rightarrow> (u8 \<times> 'd ide) res" where
  "ide_atapi_read b drive lba numsects edi s =
     (let dv = ide_devices s drive; c = unat (d_channel dv) in
      if drive \<ge> n_devices \<or> c \<ge> n_channels then Inl OutOfBounds
      else
        let s = s\<lparr>ide_irq_invoked := 0, channels := (channels s)(c := (channels s c)\<lparr>nIEN := 0\<rparr>)\<rparr>;
            s = ide_write b c ATA_REG_CONTROL 0 s;
            s = s\<lparr>atapi_packet := scsi_packet lba numsects\<rparr>;
            s = ide_write b c ATA_REG_HDDEVSEL (push_bit 4 (d_drive dv)) s;
            s = fold (\<lambda>_ s. snd (ide_read b c ATA_REG_ALTSTATUS s)) [0..<4] s;
            s = ide_write b c 0x01 0 s;
            s = ide_write b c 0x04 (ucast ((1024 * 2 :: u32) AND 0xFF)) s;
            s = ide_write b c 0x05 (ucast (drop_bit 8 (1024 * 2 :: u32))) s;
            s = ide_write b c ATA_REG_COMMAND 0xA0 s in
        rbind (ide_polling b c True s) (\<lambda>(err, s).
        if err \<noteq> 0 then Inr (err, s)
        else
          rbind (atapi_loop b c (unat numsects) edi (send_packet b (io_base (channels s c)) s)) (\<lambda>(err, s).
          if err \<noteq> 0 then Inr (err, s)
          else
            rbind (ide_wait_irq b s) (\<lambda>s.
            case drain_loop b c s of None \<Rightarrow> Inl Hang | Some s \<Rightarrow> Inr (0, s)))))"

section \<open>What the identification says\<close>

text \<open>
  The identification of a drive as the ATA standard describes it: 256 words, sent as 128 double words. The number of
  sectors is in the words 60 and 61, or 100 and 101 if bit 10 of word 83 tells of 48-bit addresses; the model is in
  the words 27 to 46, the first character of each word in its upper byte.
\<close>

definition id_word :: "u32 list \<Rightarrow> nat \<Rightarrow> u16" where
  "id_word xs k = ucast (drop_bit (16 * (k mod 2)) (xs ! (k div 2)))"

definition id_long :: "u32 list \<Rightarrow> nat \<Rightarrow> u32" where
  "id_long xs k = ucast (id_word xs k) OR push_bit 16 (ucast (id_word xs (k + 1)))"

definition id_model :: "u32 list \<Rightarrow> string" where
  "id_model xs = map (\<lambda>c. char_of (unat c)) (takeWhile (\<lambda>c. c \<noteq> 0)
     (concat (map (\<lambda>k. [ucast (drop_bit 8 (id_word xs k)), ucast (id_word xs k) :: u8]) [27..<47])))"

definition ata_identity :: "nat \<Rightarrow> nat \<Rightarrow> u32 list \<Rightarrow> ide_device" where
  "ata_identity i j xs =
     \<lparr>d_reserved = 1, d_channel = of_nat i, d_drive = of_nat j, d_type = IDE_ATA, d_signature = id_word xs 0,
      d_capabilities = id_word xs 49, d_commandsets = id_long xs 82,
      d_size = (if bit (id_word xs 83) 10 then id_long xs 100 else id_long xs 60), d_model = id_model xs\<rparr>"

lemma put_long_at:
  "put_long off v f k = (if off \<le> k \<and> k < off + 4 then ucast (drop_bit (8 * (k - off)) v) else f k)"
proof -
  have "off \<le> k \<and> k < off + 4 \<longleftrightarrow> k = off \<or> k = off + 1 \<or> k = off + 2 \<or> k = off + 3" by auto
  then show ?thesis by (auto simp: put_long_def)
qed

definition feeds :: "'d bus \<Rightarrow> u16 \<Rightarrow> ('d \<Rightarrow> u32 list) \<Rightarrow> bool" where
  "feeds b p ab \<longleftrightarrow> (\<forall>d. ab d \<noteq> [] \<longrightarrow> fst (p_inl b p d) = hd (ab d) \<and> ab (snd (p_inl b p d)) = tl (ab d))"

lemma insl_fills:
  assumes "feeds b p ab" "n \<le> length (ab (hw s))"
  shows "\<exists>d f. insl b p off n s = s\<lparr>hw := d, ide_buf := f\<rparr> \<and> ab d = drop n (ab (hw s)) \<and>
    (\<forall>k. f k = (if off \<le> k \<and> k < off + 4 * n then ucast (drop_bit (8 * ((k - off) mod 4)) (ab (hw s) ! ((k - off) div 4))) else ide_buf s k))"
  using assms(2)
proof (induction n arbitrary: off s)
  case 0
  show ?case by (intro exI [of _ "hw s"] exI [of _ "ide_buf s"]) auto
next
  case (Suc n)
  obtain x xs where xs: "ab (hw s) = x # xs" using Suc.prems by (cases "ab (hw s)") auto
  obtain d where d: "p_inl b p (hw s) = (x, d)" "ab d = xs"
    using assms(1) xs unfolding feeds_def by (metis list.sel(1,3) list.distinct(1) prod.collapse)
  define s1 where "s1 = s\<lparr>hw := d, ide_buf := put_long off x (ide_buf s)\<rparr>"
  obtain d' f where f: "insl b p (off + 4) n s1 = s1\<lparr>hw := d', ide_buf := f\<rparr>" "ab d' = drop n xs"
    "\<And>k. f k = (if off + 4 \<le> k \<and> k < off + 4 + 4 * n then ucast (drop_bit (8 * ((k - (off + 4)) mod 4)) (xs ! ((k - (off + 4)) div 4))) else ide_buf s1 k)"
    using Suc.IH [of s1 "off + 4"] Suc.prems xs d(2) by (auto simp: s1_def)
  have fk: "f k = (if off \<le> k \<and> k < off + 4 * Suc n then ucast (drop_bit (8 * ((k - off) mod 4)) ((x # xs) ! ((k - off) div 4))) else ide_buf s k)" for k
  proof (cases "off + 4 \<le> k")
    case True
    then obtain l where "k = off + 4 + l" by (metis le_add_diff_inverse)
    moreover have "(4 + l) div 4 = Suc (l div 4)" for l :: nat by simp
    ultimately show ?thesis by (simp add: f(3) s1_def put_long_at)
  next
    case False
    then show ?thesis by (auto simp: f(3) s1_def put_long_at)
  qed
  have run: "insl b p off (Suc n) s = s\<lparr>hw := d', ide_buf := f\<rparr>" using f(1) d(1) by (simp add: s1_def)
  have "ab d' = drop (Suc n) (ab (hw s))" using f(2) xs by simp
  with run fk show ?case unfolding xs by blast
qed

text \<open>A buffer with the double words of the identification.\<close>

definition buf_holds :: "(nat \<Rightarrow> u8) \<Rightarrow> u32 list \<Rightarrow> bool" where
  "buf_holds f xs \<longleftrightarrow> (\<forall>k<512. f k = ucast (drop_bit (8 * (k mod 4)) (xs ! (k div 4))))"

lemma holds_word:
  assumes "buf_holds f xs" "k < 256"
  shows "buf_word f (2 * k) = id_word xs k" "f (2 * k) = ucast (id_word xs k)" "f (2 * k + 1) = ucast (drop_bit 8 (id_word xs k))"
proof -
  have e: "2 * k div 4 = k div 2" "2 * k mod 4 = 2 * (k mod 2)" "(2 * k + 1) div 4 = k div 2" "(2 * k + 1) mod 4 = 2 * (k mod 2) + 1"
    by presburger+
  have b: "f (2 * k) = ucast (drop_bit (16 * (k mod 2)) (xs ! (k div 2)))" "f (2 * k + 1) = ucast (drop_bit (16 * (k mod 2) + 8) (xs ! (k div 2)))"
    using assms(1) [unfolded buf_holds_def, rule_format, of "2 * k"] assms(1) [unfolded buf_holds_def, rule_format, of "2 * k + 1"] assms(2)
    by (simp_all only: e) (simp_all add: add.commute)
  show lo: "f (2 * k) = ucast (id_word xs k)" unfolding b id_word_def by (rule bit_word_eqI) (simp add: bit_simps)
  show hi: "f (2 * k + 1) = ucast (drop_bit 8 (id_word xs k))" unfolding b id_word_def by (rule bit_word_eqI) (simp add: bit_simps ac_simps)
  show "buf_word f (2 * k) = id_word xs k" unfolding buf_word_def lo hi by (rule bit_word_eqI) (auto simp: bit_simps)
qed

lemma holds_identity:
  assumes "buf_holds (ide_buf s) xs"
  shows "ide_devices (record_device cnt i j IDE_ATA s) = (ide_devices s)(cnt := ata_identity i j xs)"
proof -
  have w: "buf_word (ide_buf s) (2 * k) = id_word xs k" if "k < 256" for k using holds_word(1) [OF assms that] .
  have l: "buf_long (ide_buf s) (2 * k) = id_long xs k" if "k + 1 < 256" for k
    using w [of k] w [of "k + 1"] that by (simp add: buf_long_def id_long_def)
  have "buf_model (ide_buf s) = id_model xs"
  proof -
    have "[27..<47] = map (\<lambda>k. k + 27) [0..<20]" using map_add_upt [of 27 20] by (simp del: upt_rec_numeral)
    moreover have "[ide_buf s (54 + 2 * k + 1), ide_buf s (54 + 2 * k)] = [ucast (drop_bit 8 (id_word xs (k + 27))), ucast (id_word xs (k + 27))]" if "k < 20" for k
      using holds_word(2,3) [OF assms, of "k + 27"] that by (simp add: add.commute)
    then have "map (\<lambda>k. [ide_buf s (54 + 2 * k + 1), ide_buf s (54 + 2 * k)]) [0..<20] =
        map (\<lambda>k. [ucast (drop_bit 8 (id_word xs (k + 27))), ucast (id_word xs (k + 27))]) [0..<20]"
      by (intro map_cong refl) (simp del: upt_rec_numeral)
    ultimately show ?thesis unfolding buf_model_def id_model_def by (simp only: map_map o_def)
  qed
  moreover have "id_long xs 82 AND push_bit 26 1 \<noteq> 0 \<longleftrightarrow> bit (id_word xs 83) 10"
  proof -
    have "id_long xs 82 AND push_bit 26 1 \<noteq> 0 \<longleftrightarrow> bit (id_long xs 82) 26" by (simp only: bit_iff_and_push_bit_not_eq_0)
    then show ?thesis using bit_imp_le_length [of "id_word xs 82" 26] by (auto simp: id_long_def bit_simps)
  qed
  ultimately show ?thesis
    using w [of 0] w [of 49] l [of 82] l [of 100] l [of 60] by (simp add: record_device_def ata_identity_def Let_def)
qed

section \<open>The detection of a drive\<close>

text \<open>
  A controller with one ATA drive, the master of the first channel, at the usual ports: the drive that is selected,
  and the double words it has still to send. A drive that is not there answers with status 0, as the ports of the
  second channel do; other ports do not reach the drive.
\<close>

record id_drive =
  slave_selected :: bool
  to_send :: "u32 list"

definition sole_drive :: "'d bus \<Rightarrow> ('d \<Rightarrow> id_drive) \<Rightarrow> u32 list \<Rightarrow> bool" where
  "sole_drive b ab xs \<longleftrightarrow> (\<forall>d v.
     ab (p_outb b 0x1F6 v d) = (ab d)\<lparr>slave_selected := bit v 4\<rparr> \<and>
     ab (p_outb b 0x1F7 0xEC d) = (if slave_selected (ab d) then ab d else (ab d)\<lparr>to_send := xs\<rparr>) \<and>
     (\<forall>p\<in>{0x3F8, 0x378, 0x176, 0x177}. ab (p_outb b p v d) = ab d) \<and>
     ab (snd (p_inb b 0x1F7 d)) = ab d \<and> ab (snd (p_inb b 0x177 d)) = ab d \<and> fst (p_inb b 0x177 d) = 0 \<and>
     fst (p_inb b 0x1F7 d) = (if slave_selected (ab d) then 0 else if to_send (ab d) = [] then 0x40 else 0x48) \<and>
     (to_send (ab d) \<noteq> [] \<longrightarrow> fst (p_inl b 0x1F0 d) = hd (to_send (ab d)) \<and>
        ab (snd (p_inl b 0x1F0 d)) = (ab d)\<lparr>to_send := tl (to_send (ab d))\<rparr>))"

lemma sole_driveD:
  assumes "sole_drive b ab xs"
  shows "ab (p_outb b 0x1F6 v d) = (ab d)\<lparr>slave_selected := bit v 4\<rparr>"
    "ab (p_outb b 0x1F7 0xEC d) = (if slave_selected (ab d) then ab d else (ab d)\<lparr>to_send := xs\<rparr>)"
    "ab (p_outb b 0x3F8 v d) = ab d" "ab (p_outb b 0x378 v d) = ab d" "ab (p_outb b 0x176 v d) = ab d" "ab (p_outb b 0x177 v d) = ab d"
    "ab (snd (p_inb b 0x1F7 d)) = ab d" "ab (snd (p_inb b 0x177 d)) = ab d" "fst (p_inb b 0x177 d) = 0"
    "fst (p_inb b 0x1F7 d) = (if slave_selected (ab d) then 0 else if to_send (ab d) = [] then 0x40 else 0x48)"
    "feeds b 0x1F0 (\<lambda>d. to_send (ab d))"
  using assms by (simp_all add: sole_drive_def feeds_def)

lemma probe_absent:
  assumes "fst (ide_read b i ATA_REG_STATUS
      (ide_write b i ATA_REG_COMMAND 0xEC (ide_write b i ATA_REG_HDDEVSEL (0xA0 OR push_bit 4 (of_nat j)) (set_reserved cnt 0 s)))) = 0"
  shows "probe_drive b i j (cnt, s) = Inr (cnt, snd (ide_read b i ATA_REG_STATUS
      (ide_write b i ATA_REG_COMMAND 0xEC (ide_write b i ATA_REG_HDDEVSEL (0xA0 OR push_bit 4 (of_nat j)) (set_reserved cnt 0 s)))))"
  using assms by (simp add: probe_drive_def Let_def split_beta)

text \<open>The state of the driver up to the controller.\<close>

abbreviation same_driver :: "'d ide \<Rightarrow> 'd ide \<Rightarrow> bool" where
  "same_driver s s' \<equiv> channels s' = channels s \<and> bytes s' = bytes s \<and> console s' = console s"

lemma probe_master:
  assumes d: "sole_drive b ab xs" and len: "length xs = 128" and ch: "io_base (channels s 0) = 0x1F0"
  shows "\<exists>s'. probe_drive b 0 0 (0, s) = Inr (1, s') \<and> ide_devices s' = (ide_devices s)(0 := ata_identity 0 0 xs) \<and> same_driver s s'"
proof -
  define d1 where "d1 = p_outb b 0x1F7 0xEC (p_outb b 0x1F6 0xA0 (hw s))"
  have d1: "\<not> slave_selected (ab d1)" "to_send (ab d1) = xs" unfolding d1_def sole_driveD [OF d] by (simp_all add: bit_numeral_rec)
  define d2 where "d2 = snd (p_inb b 0x1F7 (snd (p_inb b 0x1F7 d1)))"
  have d2: "to_send (ab d2) = xs" unfolding d2_def sole_driveD [OF d] using d1 by simp
  have xs: "xs \<noteq> []" using len by auto
  define s2 where "s2 = (set_reserved 0 0 s)\<lparr>hw := d2\<rparr>"
  have st: "fst (p_inb b 0x1F7 d1) = 0x48" "fst (p_inb b 0x1F7 (snd (p_inb b 0x1F7 d1))) = 0x48"
    using d1 xs by (simp_all add: sole_driveD [OF d])
  have "ident_loop b 0 ((set_reserved 0 0 s)\<lparr>hw := snd (p_inb b 0x1F7 d1)\<rparr>) = Some (False, s2)"
    using st(2) ch by (subst ident_loop.simps) (simp add: ide_ports set_reserved_def s2_def d2_def)
  then have p: "probe_drive b 0 0 (0, s) = Inr (1, record_device 0 0 0 IDE_ATA (ide_read_buffer b 0 0 128 s2))"
    using st(1) ch by (simp add: probe_drive_def ide_ports Let_def set_reserved_def d1_def)
  obtain dd f where f: "insl b 0x1F0 0 128 s2 = s2\<lparr>hw := dd, ide_buf := f\<rparr>"
    "\<forall>k. f k = (if 0 \<le> k \<and> k < 0 + 4 * 128 then ucast (drop_bit (8 * ((k - 0) mod 4)) (xs ! ((k - 0) div 4))) else ide_buf s2 k)"
    using insl_fills [OF sole_driveD(11) [OF d], of 128 s2 0] d2 len by (auto simp: s2_def)
  then have h: "buf_holds (ide_buf (insl b 0x1F0 0 128 s2)) xs" by (simp add: buf_holds_def)
  have "ide_read_buffer b 0 0 128 s2 = insl b 0x1F0 0 128 s2"
    using ch by (simp add: ide_read_buffer_def high_byte_def reg_port_def s2_def set_reserved_def)
  then show ?thesis using p f(1) holds_identity [OF h, of 0 0 0] by (auto simp: record_device_def Let_def s2_def set_reserved_def)
qed

lemma probe_missing:
  assumes d: "sole_drive b ab xs" and ij: "(i, j) \<in> {(0, 1), (1, 0), (1, 1)}"
    and ch: "io_base (channels s 0) = 0x1F0" "io_base (channels s 1) = 0x170"
  shows "\<exists>d. probe_drive b i j (cnt, s) = Inr (cnt, (set_reserved cnt 0 s)\<lparr>hw := d\<rparr>)"
proof -
  define d1 where "d1 = p_outb b 0x1F7 0xEC (p_outb b 0x1F6 0xB0 (hw s))"
  have "slave_selected (ab d1)" unfolding d1_def sole_driveD [OF d] by (simp add: bit_numeral_rec)
  then have "fst (p_inb b 0x1F7 d1) = 0" by (simp add: sole_driveD [OF d])
  then show ?thesis using ij ch sole_driveD(9) [OF d] probe_absent [of b i j cnt s]
    by (auto simp: ide_ports set_reserved_def d1_def)
qed

lemma print_int_total: "i \<noteq> - 2147483648 \<Longrightarrow> \<exists>v'. print_int i v = Inr v'"
  by (simp add: print_int_def Let_def)

definition found_line :: "nat \<Rightarrow> ide_device \<Rightarrow> screen \<Rightarrow> screen res" where
  "found_line i dv v = kprintf (''i:%d  Found %s Drive Size{} - %d - %s'' @ [CHR 0x0A])
     [VInt (int i), VStr ([''ATA'', ''ATAPI''] ! unat (d_type dv)), VInt (sint (d_size dv)), VStr (d_model dv)] v"

lemma found_line_total: "sint (d_size dv) \<noteq> - 2147483648 \<Longrightarrow> i < 4 \<Longrightarrow> \<exists>v'. found_line i dv v = Inr v'"
proof -
  assume size: "sint (d_size dv) \<noteq> - 2147483648" and i: "i < 4"
  let ?put = "fold put_to_screen"
  obtain v1 where v1: "print_int (int i) (?put ''i:'' v) = Inr v1" using print_int_total [of "int i"] i by auto
  obtain v2 where v2: "print_int (sint (d_size dv)) (?put '' Drive Size{} - '' (?put ([''ATA'', ''ATAPI''] ! unat (d_type dv)) (?put ''  Found '' v1))) = Inr v2"
    using print_int_total [OF size] by blast
  show ?thesis using v1 v2 by (simp add: found_line_def kprintf_def)
qed

text \<open>
  C21. The detection of a drive: on a machine whose only drive is the master of the first channel at the usual ports,
  and that answers the identify command as the ATA standard says, \<^verbatim>\<open>ide_initialize\<close> (with no base addresses set)
  returns, device 0 has the drive's place, size, capabilities and model as its identification gives them, device 1 is
  free, and one line about device 0 is printed. The size must not be \<open>2 ^ 31\<close> sectors, which the line could not show.
\<close>

theorem ide_initialize_detects:
  assumes d: "sole_drive b ab xs" and len: "length xs = 128" and free: "d_reserved (ide_devices s 2) \<noteq> 1"
    and size: "sint (d_size (ata_identity 0 0 xs)) \<noteq> - 2147483648"
  shows "\<exists>s'. ide_initialize b 0 0 0 0 0 s = Inr s' \<and> ide_devices s' 0 = ata_identity 0 0 xs \<and>
    d_reserved (ide_devices s' 1) = 0 \<and> found_line 0 (ata_identity 0 0 xs) (console s) = Inr (console s')"
proof -
  define s1 where "s1 = ide_write b 1 ATA_REG_CONTROL 2 (ide_write b 0 ATA_REG_CONTROL 2 (s\<lparr>channels := set_channels 0 0 0 0 0 (channels s)\<rparr>))"
  have s1: "io_base (channels s1 0) = 0x1F0" "io_base (channels s1 1) = 0x170" "ide_devices s1 = ide_devices s" "console s1 = console s"
    by (simp_all add: s1_def ide_ports set_channels_def Let_def)
  obtain s2 where s2: "probe_drive b 0 0 (0, s1) = Inr (1, s2)" "ide_devices s2 = (ide_devices s)(0 := ata_identity 0 0 xs)" "same_driver s1 s2"
    using probe_master [OF d len s1(1)] s1(3) by auto
  have ch: "io_base (channels s2 0) = 0x1F0" "io_base (channels s2 1) = 0x170" using s1 s2 by simp_all
  obtain d3 where p3: "probe_drive b 0 1 (1, s2) = Inr (1, (set_reserved 1 0 s2)\<lparr>hw := d3\<rparr>)" using probe_missing [OF d _ ch] by blast
  define s3 where "s3 = (set_reserved 1 0 s2)\<lparr>hw := d3\<rparr>"
  have ch: "io_base (channels s3 0) = 0x1F0" "io_base (channels s3 1) = 0x170" using ch by (simp_all add: s3_def set_reserved_def)
  obtain d4 where p4: "probe_drive b 1 0 (1, s3) = Inr (1, (set_reserved 1 0 s3)\<lparr>hw := d4\<rparr>)" using probe_missing [OF d _ ch] by blast
  define s4 where "s4 = (set_reserved 1 0 s3)\<lparr>hw := d4\<rparr>"
  have ch: "io_base (channels s4 0) = 0x1F0" "io_base (channels s4 1) = 0x170" using ch by (simp_all add: s4_def set_reserved_def)
  obtain d5 where p5: "probe_drive b 1 1 (1, s4) = Inr (1, (set_reserved 1 0 s4)\<lparr>hw := d5\<rparr>)" using probe_missing [OF d _ ch] by blast
  define s5 where "s5 = (set_reserved 1 0 s4)\<lparr>hw := d5\<rparr>"
  have dv: "ide_devices s5 0 = ata_identity 0 0 xs" "d_reserved (ide_devices s5 1) = 0" "d_reserved (ide_devices s5 2) \<noteq> 1" "console s5 = console s"
    using s2 s1 free by (simp_all add: s5_def s4_def s3_def set_reserved_def)
  obtain v where v: "found_line 0 (ata_identity 0 0 xs) (console s) = Inr v" using found_line_total [OF size, of 0] by auto
  have "summary_loop b 0 3 s5 = Inr (s5\<lparr>console := v\<rparr>)"
    using dv v by (simp add: numeral_3_eq_3 numeral_2_eq_2 found_line_def ata_identity_def Let_def)
  moreover have "rfold (\<lambda>(i, j). probe_drive b i j) [(0, 0), (0, 1), (1, 0), (1, 1)] (0, s1) = Inr (1, s5)"
    using s2(1) p3 p4 p5 by (simp add: s3_def s4_def s5_def)
  ultimately have "ide_initialize b 0 0 0 0 0 s = Inr (s5\<lparr>console := v\<rparr>)" by (simp add: ide_initialize_def s1_def Let_def)
  then show ?thesis using dv v by simp
qed

definition ident_bus :: "u32 list \<Rightarrow> id_drive bus" where
  "ident_bus xs = \<lparr>
     p_inb = \<lambda>p d. (if p = 0x1F7 \<and> \<not> slave_selected d then if to_send d = [] then 0x40 else 0x48 else 0, d),
     p_outb = \<lambda>p v d.
       if p = 0x1F6 then d\<lparr>slave_selected := bit v 4\<rparr>
       else if p = 0x1F7 \<and> v = 0xEC \<and> \<not> slave_selected d then d\<lparr>to_send := xs\<rparr>
       else d,
     p_inw = \<lambda>p d. (0, d),
     p_outw = \<lambda>p w d. d,
     p_inl = \<lambda>p d. if p = 0x1F0 \<and> to_send d \<noteq> [] then (hd (to_send d), d\<lparr>to_send := tl (to_send d)\<rparr>) else (0, d),
     p_irq = \<lambda>d. (False, d)\<rparr>"

lemma ident_bus_sole: "sole_drive (ident_bus xs) (\<lambda>d. d) xs"
  by (simp add: sole_drive_def ident_bus_def)

definition example_ident :: "u32 list" where
  "example_ident = (replicate 128 0)[24 := 0x02000000, 30 := 2000]"

definition ident_start :: "id_drive ide" where
  "ident_start = \<lparr>channels = \<lambda>_. \<lparr>io_base = 0, io_ctrl = 0, io_bmide = 0, nIEN = 0\<rparr>,
     ide_devices = \<lambda>_. \<lparr>d_reserved = 0, d_channel = 0, d_drive = 0, d_type = 0, d_signature = 0, d_capabilities = 0, d_commandsets = 0, d_size = 0, d_model = []\<rparr>,
     package0 = 0, ide_irq_invoked = 0, ide_buf = \<lambda>_. 0, atapi_packet = [], bytes = \<lambda>_. 0, console = example_screen,
     hw = \<lparr>slave_selected = False, to_send = []\<rparr>\<rparr>"

theorem ide_initialize_detects_witness:
  "\<exists>s'. ide_initialize (ident_bus example_ident) 0 0 0 0 0 ident_start = Inr s' \<and> d_size (ide_devices s' 0) = 2000 \<and>
     d_capabilities (ide_devices s' 0) = 0x200"
proof -
  have e: "d_size (ata_identity 0 0 example_ident) = 2000" "d_capabilities (ata_identity 0 0 example_ident) = 0x200"
    by (simp_all add: ata_identity_def id_word_def id_long_def example_ident_def)
  have "length example_ident = 128" "d_reserved (ide_devices ident_start 2) \<noteq> 1" "sint (d_size (ata_identity 0 0 example_ident)) \<noteq> - 2147483648"
    unfolding e by (simp_all add: example_ident_def ident_start_def)
  from ide_initialize_detects [OF ident_bus_sole this] e show ?thesis by auto
qed

text \<open>
  The control block of the first channel: with no base address set, its control register is taken to be at the port
  \<^verbatim>\<open>0x3F8\<close>, two ports above the register at \<^verbatim>\<open>0x3F6\<close>; so interrupts are never switched off at the drive.
\<close>

lemma control_port: "reg_port (set_channels 0 0 0 0 0 chs 0) ATA_REG_CONTROL = Some 0x3F8"
  by (simp add: set_channels_def reg_port_def Let_def)

text \<open>Without an interrupt the driver waits for ever.\<close>

lemma irq_loop_fired: "irq_loop b s = Some t \<Longrightarrow> (\<forall>d. p_irq b d = (False, d)) \<longrightarrow> ide_irq_invoked s \<noteq> 0"
proof (erule irq_loop.raw_induct [rotated])
  fix loop :: "'a bus \<Rightarrow> 'a ide \<Rightarrow> 'a ide option" and b s t
  assume ih: "\<And>b s t. loop b s = Some t \<Longrightarrow> (\<forall>d. p_irq b d = (False, d)) \<longrightarrow> ide_irq_invoked s \<noteq> 0"
    and eq: "(if ide_irq_invoked s \<noteq> 0 then Some s
      else let (fired, d) = p_irq b (hw s); s = s\<lparr>hw := d\<rparr> in loop b (if fired then ide_irq s else s)) = Some t"
  show "(\<forall>d. p_irq b d = (False, d)) \<longrightarrow> ide_irq_invoked s \<noteq> 0"
  proof (intro impI notI)
    assume p: "\<forall>d. p_irq b d = (False, d)" and z: "ide_irq_invoked s = 0"
    then have "loop b s = Some t" using eq by simp
    from ih [OF this] p z show False by blast
  qed
qed

lemma wait_irq_needs_interrupt:
  assumes "\<And>d. p_irq b d = (False, d)" "ide_irq_invoked s = 0"
  shows "ide_wait_irq b s = Inl Hang"
  using irq_loop_fired [of b s] assms by (cases "irq_loop b s") (auto simp: ide_wait_irq_def)

end
