(* ===== verification/Ahci.thy ===== *)
theory Ahci
  imports Screen CString
begin

unbundle bit_operations_syntax

text \<open>
  The AHCI disk driver \<^verbatim>\<open>sys/ahci.c\<close> with the structures of \<^verbatim>\<open>include/sys/ahci.h\<close>: which
  devices are there, the choice of a command slot, the command header, the table of memory regions and the
  command itself, byte by byte in memory, and the exchange with the controller. The controller is a
  parameter: a record of functions for its volatile registers, which may also change memory, because it
  moves the data itself. The code uses the same addresses for itself and for the controller, so there is one
  memory.
\<close>

section \<open>Fields in memory\<close>

text \<open>Little-endian fields of \<open>n\<close> bytes at an offset from a base address.\<close>

primrec fld_get :: "nat \<Rightarrow> u64 \<Rightarrow> nat \<Rightarrow> bmem \<Rightarrow> u64" where
  "fld_get 0 base off m = 0"
| "fld_get (Suc n) base off m = ucast (m (base + of_nat off)) OR push_bit 8 (fld_get n base (Suc off) m)"

primrec fld_put :: "nat \<Rightarrow> u64 \<Rightarrow> nat \<Rightarrow> u64 \<Rightarrow> bmem \<Rightarrow> bmem" where
  "fld_put 0 base off v m = m"
| "fld_put (Suc n) base off v m = fld_put n base (Suc off) (drop_bit 8 v) (m(base + of_nat off := ucast v))"

lemma fld_get_bit:
  "n \<le> 8 \<Longrightarrow> bit (fld_get n base off m) k \<longleftrightarrow> k < 8 * n \<and> bit (m (base + of_nat (off + k div 8))) (k mod 8)"
proof (induction n arbitrary: off k)
  case (Suc n)
  show ?case
  proof (cases "k < 8")
    case False
    then obtain l where k: "k = 8 + l" by (metis le_add_diff_inverse not_less)
    then have e: "off + k div 8 = Suc off + l div 8" "k mod 8 = l mod 8" by simp_all
    show ?thesis unfolding e using k Suc.prems Suc.IH [of "Suc off" l] by (auto simp: bit_simps dest: bit_imp_le_length)
  qed (use Suc.prems in \<open>auto simp: bit_simps\<close>)
qed simp

lemma fld_get_bound:
  assumes "n \<le> 8"
  shows "unat (fld_get n base off m) < 2 ^ (8 * n)"
proof -
  have "take_bit (8 * n) (fld_get n base off m) = fld_get n base off m"
    using assms by (intro bit_word_eqI) (auto simp: bit_simps fld_get_bit)
  then have "take_bit (8 * n) (unat (fld_get n base off m)) = unat (fld_get n base off m)"
    by (metis unsigned_take_bit_eq)
  then show ?thesis by (metis take_bit_nat_less_exp)
qed

lemma fld_put_at:
  "off + n \<le> 2 ^ 64 \<Longrightarrow> j < 2 ^ 64 \<Longrightarrow> fld_put n base off v m (base + of_nat j) =
     (if off \<le> j \<and> j < off + n then ucast (drop_bit (8 * (j - off)) v) else m (base + of_nat j))"
proof (induction n arbitrary: off v m)
  case (Suc n)
  have "off = j" if "(of_nat off :: u64) = of_nat j" using of_nat_word_inj [OF that] Suc.prems by simp
  moreover have "8 * (j - Suc off) + 8 = 8 * (j - off)" if "Suc off \<le> j" using that by simp
  moreover have "fld_put n base (Suc off) (drop_bit 8 v) m' (base + of_nat j) =
      (if Suc off \<le> j \<and> j < Suc off + n then ucast (drop_bit (8 * (j - Suc off)) (drop_bit 8 v)) else m' (base + of_nat j))" for m'
    using Suc.prems by (intro Suc.IH) simp_all
  ultimately show ?case by (auto simp: drop_bit_drop_bit le_less_Suc_eq not_le less_Suc_eq)
qed auto

lemma fld_put_frame: "(\<And>j. off \<le> j \<Longrightarrow> j < off + n \<Longrightarrow> x \<noteq> base + of_nat j) \<Longrightarrow> fld_put n base off v m x = m x"
proof (induction n arbitrary: off v m)
  case (Suc n)
  from Suc.prems [of off] Suc.IH [of "Suc off"] Suc.prems show ?case by auto
qed simp

lemma fld_get_cong: "(\<And>j. off \<le> j \<Longrightarrow> j < off + n \<Longrightarrow> m (base + of_nat j) = m' (base + of_nat j)) \<Longrightarrow> fld_get n base off m = fld_get n base off m'"
proof (induction n arbitrary: off)
  case (Suc n)
  from Suc.prems [of off] Suc.IH [of "Suc off"] Suc.prems show ?case by auto
qed simp

lemma fld_get_put:
  assumes "n \<le> 8" "off + n \<le> 2 ^ 64"
  shows "fld_get n base off (fld_put n base off v m) = take_bit (8 * n) v"
proof (rule bit_word_eqI)
  fix k
  show "bit (fld_get n base off (fld_put n base off v m)) k \<longleftrightarrow> bit (take_bit (8 * n) v) k"
  proof (cases "k < 8 * n")
    case True
    then have "off + k div 8 < 2 ^ 64" "k div 8 < n" using assms by auto
    then have "fld_put n base off v m (base + of_nat (off + k div 8)) = ucast (drop_bit (8 * (k div 8)) v)"
      using assms by (simp add: fld_put_at del: of_nat_add)
    with True assms show ?thesis by (simp add: fld_get_bit bit_simps del: of_nat_add)
  qed (use assms in \<open>simp add: fld_get_bit bit_simps\<close>)
qed

lemma fld_get_put_other:
  "off + n \<le> 2 ^ 64 \<Longrightarrow> k + l \<le> 2 ^ 64 \<Longrightarrow> k + l \<le> off \<or> off + n \<le> k \<Longrightarrow> fld_get l base k (fld_put n base off v m) = fld_get l base k m"
  by (rule fld_get_cong) (auto simp: fld_put_at)

declare fld_put.simps [simp del] fld_get.simps [simp del]

lemmas mem_fields = fld_get_put fld_get_put_other

section \<open>The controller\<close>

text \<open>The registers of a port that the driver uses.\<close>

datatype preg = Is_rwc | Cmd | Tfd | Sig | Ssts | Sact | Ci

record 'd hba =
  h_in :: "nat \<Rightarrow> preg \<Rightarrow> bmem \<times> 'd \<Rightarrow> u32 \<times> bmem \<times> 'd"
  h_out :: "nat \<Rightarrow> preg \<Rightarrow> u32 \<Rightarrow> bmem \<times> 'd \<Rightarrow> bmem \<times> 'd"
  h_clb :: "nat \<Rightarrow> 'd \<Rightarrow> u64"
  h_pi :: "'d \<Rightarrow> u32"

record 'd ahci =
  a_mem :: bmem
  a_hw :: 'd
  a_con :: screen

definition port_in :: "'d hba \<Rightarrow> nat \<Rightarrow> preg \<Rightarrow> ('d, 'z) ahci_scheme \<Rightarrow> u32 \<times> ('d, 'z) ahci_scheme" where
  "port_in h port rg s = (let (v, m, d) = h_in h port rg (a_mem s, a_hw s) in (v, s\<lparr>a_mem := m, a_hw := d\<rparr>))"

definition port_out :: "'d hba \<Rightarrow> nat \<Rightarrow> preg \<Rightarrow> u32 \<Rightarrow> ('d, 'z) ahci_scheme \<Rightarrow> ('d, 'z) ahci_scheme" where
  "port_out h port rg v s = (let (m, d) = h_out h port rg v (a_mem s, a_hw s) in s\<lparr>a_mem := m, a_hw := d\<rparr>)"

definition ahci_print :: "string \<Rightarrow> varg list \<Rightarrow> ('d, 'z) ahci_scheme \<Rightarrow> ('d, 'z) ahci_scheme res" where
  "ahci_print fmt as s = rbind (kprintf fmt as (a_con s)) (\<lambda>v. Inr (s\<lparr>a_con := v\<rparr>))"

section \<open>Devices\<close>

abbreviation AHCI_DEV_NULL :: u32 where "AHCI_DEV_NULL \<equiv> 0"
abbreviation AHCI_DEV_SATA :: u32 where "AHCI_DEV_SATA \<equiv> 0x00000101"
abbreviation AHCI_DEV_SATAPI :: u32 where "AHCI_DEV_SATAPI \<equiv> 0xEB140101"
abbreviation AHCI_DEV_SEMB :: u32 where "AHCI_DEV_SEMB \<equiv> 0xC33C0101"
abbreviation AHCI_DEV_PM :: u32 where "AHCI_DEV_PM \<equiv> 0x96690101"

definition check_type :: "'d hba \<Rightarrow> nat \<Rightarrow> ('d, 'z) ahci_scheme \<Rightarrow> u32 \<times> ('d, 'z) ahci_scheme" where
  "check_type h port s =
     (let (ssts, s) = port_in h port Ssts s;
          ipm = drop_bit 8 ssts AND 0x0F;
          det = ssts AND 0x0F in
      if det \<noteq> 3 then (AHCI_DEV_NULL, s)
      else if ipm \<noteq> 1 then (AHCI_DEV_NULL, s)
      else
        let (sg, s) = port_in h port Sig s in
        (if sg = 0xEB140101 then AHCI_DEV_SATAPI
         else if sg = 0xC33C0101 then AHCI_DEV_SEMB
         else if sg = 0x96690101 then AHCI_DEV_PM
         else AHCI_DEV_SATA, s))"

definition device_name :: "u32 \<Rightarrow> string" where
  "device_name dt =
     (if dt = AHCI_DEV_SATA then ''SATA drive''
      else if dt = AHCI_DEV_SATAPI then ''SATAPI drive''
      else if dt = AHCI_DEV_SEMB then ''SEMB drive''
      else if dt = AHCI_DEV_PM then ''PM drive''
      else ''No drive'')"

primrec probe_loop :: "'d hba \<Rightarrow> nat \<Rightarrow> u32 \<Rightarrow> nat \<Rightarrow> ('d, 'z) ahci_scheme \<Rightarrow> ('d, 'z) ahci_scheme res" where
  "probe_loop h 0 ports i s = Inr s"
| "probe_loop h (Suc n) ports i s =
     rbind (if ports AND 1 \<noteq> 0 then
              let (dt, s) = check_type h i s in
              ahci_print (device_name dt @ '' found at port %d'' @ [CHR 0x0A]) [VInt (int i)] s
            else Inr s)
       (probe_loop h n (drop_bit 1 ports) (i + 1))"

definition probe_port :: "'d hba \<Rightarrow> ('d, 'z) ahci_scheme \<Rightarrow> ('d, 'z) ahci_scheme res" where
  "probe_port h s = probe_loop h 32 (h_pi h (a_hw s)) 0 s"

section \<open>Command slots\<close>

primrec slot_loop :: "nat \<Rightarrow> u32 \<Rightarrow> nat \<Rightarrow> nat option" where
  "slot_loop 0 slots i = None"
| "slot_loop (Suc n) slots i = (if slots AND 1 = 0 then Some i else slot_loop n (drop_bit 1 slots) (i + 1))"

definition find_cmdslot :: "'d hba \<Rightarrow> nat \<Rightarrow> ('d, 'z) ahci_scheme \<Rightarrow> (nat option \<times> ('d, 'z) ahci_scheme) res" where
  "find_cmdslot h port s =
     (let (sact, s) = port_in h port Sact s;
          (ci, s) = port_in h port Ci s in
      case slot_loop 32 (sact OR ci) 0 of
        Some i \<Rightarrow> Inr (Some i, s)
      | None \<Rightarrow> rbind (ahci_print (''Cannot find free command list entry'' @ [CHR 0x0A]) [] s) (\<lambda>s. Inr (None, s)))"

section \<open>The command in memory\<close>

text \<open>
  The command header of a slot (32 bytes): the length of the command in double words in the bits 0 to 4 of
  the first byte, the direction in bit 6, the number of memory regions in the bytes 2 and 3, the address of
  the command table in the bytes 8 to 15.
\<close>

definition set_header :: "u64 \<Rightarrow> u8 \<Rightarrow> u32 \<Rightarrow> bmem \<Rightarrow> bmem" where
  "set_header ch mode cnt m =
     (let m = fld_put 1 ch 0 (set_field 0 5 5 (fld_get 1 ch 0 m)) m;
          m = fld_put 1 ch 0 (set_field 6 1 (if mode = 0 then 0 else 1) (fld_get 1 ch 0 m)) m
      in fld_put 2 ch 2 (ucast (ucast (drop_bit 4 (cnt - 1)) + 1 :: u16)) m)"

definition prdtl :: "u64 \<Rightarrow> bmem \<Rightarrow> nat" where
  "prdtl ch m = unat (fld_get 2 ch 2 m)"

text \<open>
  The command table: the command in the first 64 bytes, and from byte 128 on the memory regions, 16 bytes
  each: the address, four reserved bytes, the length in the lower 22 bits of the last double word and the
  interrupt flag in its last bit. \<^verbatim>\<open>sizeof(hba_cmd_tbl_t)\<close> is 256, because of its alignment.
\<close>

definition set_prdt :: "u64 \<Rightarrow> nat \<Rightarrow> u64 \<Rightarrow> u64 \<Rightarrow> bmem \<Rightarrow> bmem" where
  "set_prdt tbl i dba dbc m =
     (let e = 128 + 16 * i;
          m = fld_put 8 tbl e dba m;
          m = fld_put 4 tbl (e + 12) (set_field 0 22 dbc (fld_get 4 tbl (e + 12) m)) m
      in fld_put 4 tbl (e + 12) (set_field 31 1 1 (fld_get 4 tbl (e + 12) m)) m)"

lemma prdtl_bound: "prdtl ch m < 65536"
  using fld_get_bound [of 2 ch 2 m] by (simp add: prdtl_def)

function prdt_loop :: "u64 \<Rightarrow> u64 \<Rightarrow> nat \<Rightarrow> u64 \<Rightarrow> u32 \<Rightarrow> bmem \<Rightarrow> nat \<times> u64 \<times> u32 \<times> bmem" where
  "prdt_loop ch tbl i a cnt m =
     (if i + 1 < prdtl ch m
      then prdt_loop ch tbl (i + 1) (a + 2 * (4 * 1024)) (cnt - 16) (set_prdt tbl i a (8 * 1024) m)
      else (i, a, cnt, m))"
  by pat_completeness auto
termination
proof (relation "measure (\<lambda>(ch, tbl, i, a, cnt, m). 65536 - i)")
  fix ch tbl :: u64 and i a and cnt :: u32 and m
  assume "i + 1 < prdtl ch m"
  then show "((ch, tbl, i + 1, a + 2 * (4 * 1024), cnt - 16, set_prdt tbl i a (8 * 1024) m), ch, tbl, i, a, cnt, m)
      \<in> measure (\<lambda>(ch, tbl, i, a, cnt, m). 65536 - i)"
    using prdtl_bound [of ch m] by simp
qed simp

definition set_fis :: "u64 \<Rightarrow> u8 \<Rightarrow> u32 \<Rightarrow> u32 \<Rightarrow> u32 \<Rightarrow> bmem \<Rightarrow> bmem" where
  "set_fis tbl mode startl starth cnt m =
     (let m = fld_put 1 tbl 0 0x27 m;
          m = fld_put 1 tbl 1 (set_field 7 1 1 (fld_get 1 tbl 1 m)) m;
          m = fld_put 1 tbl 2 (if mode = 0 then 0x25 else 0x35) m;
          m = fld_put 1 tbl 4 (ucast startl) m;
          m = fld_put 1 tbl 5 (ucast (drop_bit 8 startl)) m;
          m = fld_put 1 tbl 6 (ucast (drop_bit 16 startl)) m;
          m = fld_put 1 tbl 7 (push_bit 6 1) m;
          m = fld_put 1 tbl 8 (ucast (drop_bit 24 startl)) m;
          m = fld_put 1 tbl 9 (ucast starth) m;
          m = fld_put 1 tbl 10 (ucast (drop_bit 8 starth)) m
      in fld_put 2 tbl 12 (ucast cnt) m)"

definition set_command :: "u64 \<Rightarrow> u8 \<Rightarrow> u32 \<Rightarrow> u32 \<Rightarrow> u32 \<Rightarrow> u64 \<Rightarrow> bmem \<Rightarrow> bmem" where
  "set_command ch mode startl starth cnt a m =
     (let m = set_header ch mode cnt m;
          tbl = fld_get 8 ch 8 m;
          m = memset m tbl 0 (256 + (of_nat (prdtl ch m) - 1) * 16);
          (i, a, cnt, m) = prdt_loop ch tbl 0 a cnt m;
          m = set_prdt tbl i a (ucast (push_bit 9 cnt)) m
      in set_fis tbl mode startl starth cnt m)"

section \<open>The exchange with the controller\<close>

text \<open>Waiting until the port is free, for a million rounds at most; whether it still hangs then.\<close>

primrec spin_loop :: "'d hba \<Rightarrow> nat \<Rightarrow> nat \<Rightarrow> ('d, 'z) ahci_scheme \<Rightarrow> bool \<times> ('d, 'z) ahci_scheme" where
  "spin_loop h port 0 s = (True, snd (port_in h port Tfd s))"
| "spin_loop h port (Suc n) s =
     (let (tfd, s) = port_in h port Tfd s in
      if tfd AND (0x80 OR 0x08) \<noteq> 0 then spin_loop h port n s else (False, s))"

abbreviation HBA_PxIS_TFES :: u32 where "HBA_PxIS_TFES \<equiv> 0x40000000"

text \<open>Waiting for the controller to clear the bit of the slot; whether it reported an error before.\<close>

partial_function (option) completion_loop ::
    "'d hba \<Rightarrow> nat \<Rightarrow> u32 \<Rightarrow> ('d, 'z) ahci_scheme \<Rightarrow> (bool \<times> ('d, 'z) ahci_scheme) option" where
  "completion_loop h port b s =
     (let (ci, s) = port_in h port Ci s in
      if ci AND b = 0 then Some (False, s)
      else
        let (ist, s) = port_in h port Is_rwc s in
        if ist AND HBA_PxIS_TFES \<noteq> 0 then Some (True, s) else completion_loop h port b s)"

definition disk_error :: "('d, 'z) ahci_scheme \<Rightarrow> (bool \<times> ('d, 'z) ahci_scheme) res" where
  "disk_error s = rbind (ahci_print (''Read disk error'' @ [CHR 0x0A]) [] s) (\<lambda>s. Inr (False, s))"

definition issue_command :: "'d hba \<Rightarrow> nat \<Rightarrow> nat \<Rightarrow> ('d, 'z) ahci_scheme \<Rightarrow> (bool \<times> ('d, 'z) ahci_scheme) res" where
  "issue_command h port slot s =
     (let (hung, s) = spin_loop h port 1000000 s in
      if hung then rbind (ahci_print (''Port is hung'' @ [CHR 0x0A]) [] s) (\<lambda>s. Inr (False, s))
      else
        let b = push_bit slot 1; s = port_out h port Ci b s in
        case completion_loop h port b s of
          None \<Rightarrow> Inl Hang
        | Some (failed, s) \<Rightarrow>
            if failed then disk_error s
            else
              let (ist, s) = port_in h port Is_rwc s in
              if ist AND HBA_PxIS_TFES \<noteq> 0 then disk_error s else Inr (True, s))"

definition readorwrite ::
    "'d hba \<Rightarrow> nat \<Rightarrow> u32 \<Rightarrow> u32 \<Rightarrow> u32 \<Rightarrow> u64 \<Rightarrow> u8 \<Rightarrow> ('d, 'z) ahci_scheme \<Rightarrow> (bool \<times> ('d, 'z) ahci_scheme) res" where
  "readorwrite h port startl starth cnt a mode s =
     (let s = port_out h port Is_rwc (- 1) s in
      rbind (find_cmdslot h port s) (\<lambda>(slot, s).
      case slot of
        None \<Rightarrow> Inr (False, s)
      | Some slot \<Rightarrow>
          let ch = h_clb h port (a_hw s) + 32 * of_nat slot;
              s = s\<lparr>a_mem := set_command ch mode startl starth cnt a (a_mem s)\<rparr>
          in issue_command h port slot s))"

text \<open>
  The check of the disk: a hundred times eight sectors are written and read back. The results of the calls
  and the contents are not looked at.
\<close>

definition verify_read_write :: "'d hba \<Rightarrow> nat \<Rightarrow> ('d, 'z) ahci_scheme \<Rightarrow> (int \<times> ('d, 'z) ahci_scheme) res" where
  "verify_read_write h port s =
     (let (c, s) = port_in h port Cmd s; s = port_out h port Cmd (c OR push_bit 4 1) s;
          (c, s) = port_in h port Cmd s; s = port_out h port Cmd (c OR 1) s;
          a = 0xffffffff8800000 in
      rbind (rfold (\<lambda>i s.
        let s = s\<lparr>a_mem := memset_loop (a_mem s) a (of_nat i) 4096\<rparr> in
        rbind (readorwrite h port (of_nat (8 * i)) 0 8 a 1 s) (\<lambda>(_, s).
        rbind (readorwrite h port (of_nat (8 * i)) 0 8 0xffffffff900000 0 s) (\<lambda>(_, s). Inr s))) [0..<100] s) (\<lambda>s.
      let (c, s) = port_in h port Cmd s; s = port_out h port Cmd (c AND NOT 1) s in
      rbind (ahci_print ''Read Write Verified'' [] s) (\<lambda>s. Inr (1, s))))"

section \<open>Slots and devices\<close>

lemma slot_loop_find: "slot_loop n (drop_bit i slots) i = find (\<lambda>j. \<not> bit slots j) [i..<i + n]"
proof (induction n arbitrary: i)
  case (Suc n)
  have "drop_bit i slots AND 1 = 0 \<longleftrightarrow> \<not> bit slots i" by (simp add: bit_iff_and_drop_bit_eq_1 and_one_eq)
  moreover have "[i..<i + Suc n] = i # [Suc i..<Suc i + n]" by (simp add: upt_rec)
  ultimately show ?case using Suc [of "Suc i"] by (simp add: drop_bit_drop_bit del: upt_Suc)
qed simp

lemma find_cmdslot_first:
  assumes "port_in h port Sact s = (sact, s1)" "port_in h port Ci s1 = (ci, s2)"
  shows "case find (\<lambda>i. \<not> bit sact i \<and> \<not> bit ci i) [0..<32] of
      Some i \<Rightarrow> find_cmdslot h port s = Inr (Some i, s2)
    | None \<Rightarrow> find_cmdslot h port s = rbind (ahci_print (''Cannot find free command list entry'' @ [CHR 0x0A]) [] s2) (\<lambda>s. Inr (None, s))"
proof -
  have "slot_loop 32 (sact OR ci) 0 = find (\<lambda>i. \<not> bit sact i \<and> \<not> bit ci i) [0..<32]"
    using slot_loop_find [of 32 0 "sact OR ci"] by (simp add: bit_simps del: upt_Suc upt_rec_numeral)
  then show ?thesis by (simp add: find_cmdslot_def assms split: option.splits del: upt_Suc upt_rec_numeral)
qed

section \<open>What the command says\<close>

text \<open>A command as the controller reads it: the regions of its table, its sector and the number of sectors.\<close>

definition prdt_dba :: "u64 \<Rightarrow> nat \<Rightarrow> bmem \<Rightarrow> u64" where
  "prdt_dba tbl i m = fld_get 8 tbl (128 + 16 * i) m"

definition prdt_dbc :: "u64 \<Rightarrow> nat \<Rightarrow> bmem \<Rightarrow> nat" where
  "prdt_dbc tbl i m = unat (get_field 0 22 (fld_get 4 tbl (140 + 16 * i) m))"

definition fis_lba :: "u64 \<Rightarrow> bmem \<Rightarrow> nat" where
  "fis_lba tbl m = (let b = (\<lambda>j. unat (m (tbl + of_nat j))) in
     b 4 + 2 ^ 8 * b 5 + 2 ^ 16 * b 6 + 2 ^ 24 * b 8 + 2 ^ 32 * b 9 + 2 ^ 40 * b 10)"

definition fis_count :: "u64 \<Rightarrow> bmem \<Rightarrow> nat" where
  "fis_count tbl m = unat (fld_get 2 tbl 12 m)"

lemma get_field_take: "o' + w \<le> n \<Longrightarrow> get_field o' w (take_bit n (x :: 'a::len word)) = get_field o' w x"
  by (rule bit_word_eqI) (auto simp: get_field_def bit_simps)

lemma unat_ucast_up: "LENGTH('a) \<le> LENGTH('b) \<Longrightarrow> unat (ucast (w :: 'a::len word) :: 'b::len word) = unat w"
  by (intro unat_ucast_small order.strict_trans2 [OF unsigned_less]) simp

lemma set_prdt_below: "k < 128 + 16 * i \<Longrightarrow> i < 65536 \<Longrightarrow> set_prdt tbl i a c m (tbl + of_nat k) = m (tbl + of_nat k)"
  by (simp add: set_prdt_def Let_def fld_put_at)

lemma set_prdt_above: "128 + 16 * i + 16 \<le> k \<Longrightarrow> k < 2 ^ 64 \<Longrightarrow> i < 65536 \<Longrightarrow> set_prdt tbl i a c m (tbl + of_nat k) = m (tbl + of_nat k)"
  by (simp add: set_prdt_def Let_def fld_put_at)

lemma set_prdt_frame: "(\<And>j. j < 144 + 16 * i \<Longrightarrow> x \<noteq> tbl + of_nat j) \<Longrightarrow> set_prdt tbl i a c m x = m x"
  by (simp add: set_prdt_def Let_def fld_put_frame)

lemma set_prdt_entry:
  assumes "i < 65536" "k < 65536"
  shows "prdt_dba tbl k (set_prdt tbl i a c m) = (if k = i then a else prdt_dba tbl k m)"
    and "prdt_dbc tbl k (set_prdt tbl i a c m) = (if k = i then unat (take_bit 22 c) else prdt_dbc tbl k m)"
proof -
  have "fld_get l tbl (128 + 16 * k + e) (set_prdt tbl i a c m) = fld_get l tbl (128 + 16 * k + e) m" if "k \<noteq> i" "e + l \<le> 16" for l e
    using that assms by (intro fld_get_cong) (cases "k < i"; auto intro: set_prdt_below set_prdt_above)
  from this [of 0 8] this [of 12 4]
  have "k \<noteq> i \<Longrightarrow> fld_get 8 tbl (128 + 16 * k) (set_prdt tbl i a c m) = fld_get 8 tbl (128 + 16 * k) m"
    "k \<noteq> i \<Longrightarrow> fld_get 4 tbl (140 + 16 * k) (set_prdt tbl i a c m) = fld_get 4 tbl (140 + 16 * k) m"
    by simp_all
  moreover have "fld_get 8 tbl (128 + 16 * i) (set_prdt tbl i a c m) = a"
    using assms by (simp add: set_prdt_def Let_def mem_fields take_bit_word_eq_self)
  moreover have "fld_get 4 tbl (140 + 16 * i) (set_prdt tbl i a c m) =
      take_bit 32 (set_field 31 1 1 (take_bit 32 (set_field 0 22 c (fld_get 4 tbl (140 + 16 * i) (fld_put 8 tbl (128 + 16 * i) a m)))))"
    using assms by (simp add: set_prdt_def Let_def mem_fields take_bit_word_eq_self)
  moreover have "get_field 0 22 (take_bit 32 (set_field 31 1 1 (take_bit 32 (set_field 0 22 c x)))) = take_bit 22 c" for x :: u64
    by (simp add: get_field_take get_set_field get_set_other)
  ultimately show "prdt_dba tbl k (set_prdt tbl i a c m) = (if k = i then a else prdt_dba tbl k m)"
    "prdt_dbc tbl k (set_prdt tbl i a c m) = (if k = i then unat (take_bit 22 c) else prdt_dbc tbl k m)"
    by (auto simp: prdt_dba_def prdt_dbc_def)
qed

text \<open>A header and a table of \<open>k\<close> bytes that do not overlap.\<close>

definition apart :: "u64 \<Rightarrow> u64 \<Rightarrow> nat \<Rightarrow> bool" where
  "apart ch tbl k \<longleftrightarrow> (\<forall>i<16. \<forall>j<k. ch + of_nat i \<noteq> tbl + of_nat j)"

text \<open>How many regions of 16 sectors a transfer takes.\<close>

abbreviation n_regions :: "u32 \<Rightarrow> nat" where "n_regions cnt \<equiv> (unat cnt - 1) div 16 + 1"

lemma header_kept:
  assumes "apart ch tbl k" "\<And>x. (\<And>j. j < k \<Longrightarrow> x \<noteq> tbl + of_nat j) \<Longrightarrow> m' x = m x" "i + n \<le> 16"
  shows "fld_get n ch i m' = fld_get n ch i m"
  using assms by (intro fld_get_cong assms(2)) (auto simp: apart_def)

lemma set_header_fields:
  assumes "0 < unat cnt" "unat cnt \<le> 16 * 65535"
  shows "prdtl ch (set_header ch mode cnt m) = n_regions cnt"
    and "fld_get 8 ch 8 (set_header ch mode cnt m) = fld_get 8 ch 8 m"
    and "bit (set_header ch mode cnt m ch) 6 \<longleftrightarrow> mode \<noteq> 0"
    and "(\<And>j. j < 4 \<Longrightarrow> x \<noteq> ch + of_nat j) \<Longrightarrow> set_header ch mode cnt m x = m x"
proof -
  have "cnt \<noteq> 0" using assms(1) by auto
  then have "unat (cnt - 1) = unat cnt - 1" by (rule unat_minus_one)
  then have "unat (drop_bit 4 (cnt - 1)) = (unat cnt - 1) div 16" by (simp only: unat_drop_bit_eq) (simp add: drop_bit_eq_div)
  moreover have "(unat cnt - 1) div 16 < 65535" using assms by simp
  ultimately have "unat (ucast (drop_bit 4 (cnt - 1)) + 1 :: u16) = n_regions cnt"
    by (simp add: unat_word_ariths unat_ucast_small)
  moreover have "prdtl ch (set_header ch mode cnt m) = unat (take_bit 16 (ucast (ucast (drop_bit 4 (cnt - 1)) + 1 :: u16) :: u64))"
    by (simp add: prdtl_def set_header_def Let_def mem_fields)
  ultimately show "prdtl ch (set_header ch mode cnt m) = n_regions cnt" by (simp add: take_bit_ucast_eq unat_ucast_up)
  show "fld_get 8 ch 8 (set_header ch mode cnt m) = fld_get 8 ch 8 m" by (simp add: set_header_def Let_def mem_fields)
  have "set_header ch mode cnt m ch = ucast (set_field 6 1 (if mode = 0 then 0 else 1 :: u64) (fld_get 1 ch 0 (fld_put 1 ch 0 (set_field 0 5 5 (fld_get 1 ch 0 m)) m)))"
    using fld_put_at [of 0 1 0 ch] fld_put_at [of 2 2 0 ch] by (simp add: set_header_def Let_def)
  then show "bit (set_header ch mode cnt m ch) 6 \<longleftrightarrow> mode \<noteq> 0" by (simp add: set_field_def bit_simps)
  show "set_header ch mode cnt m x = m x" if "\<And>j. j < 4 \<Longrightarrow> x \<noteq> ch + of_nat j"
    using that by (simp add: set_header_def Let_def fld_put_frame)
qed

declare prdt_loop.simps [simp del]

lemma prdt_loop_fold:
  assumes "apart ch tbl (128 + 16 * prdtl ch m)" "i < prdtl ch m"
  shows "prdt_loop ch tbl i a cnt m =
    (let n = prdtl ch m - 1 in
     (n, a + 8192 * of_nat (n - i), cnt - 16 * of_nat (n - i), fold (\<lambda>k. set_prdt tbl k (a + 8192 * of_nat (k - i)) 8192) [i..<n] m))"
  using assms
proof (induction "prdtl ch m - 1 - i" arbitrary: i a cnt m)
  case 0
  then show ?case by (subst prdt_loop.simps) simp
next
  case (Suc d)
  let ?m = "set_prdt tbl i a 8192 m"
  have i: "i + 1 < prdtl ch m" using Suc by simp
  have "fld_get 2 ch 2 ?m = fld_get 2 ch 2 m"
    using i by (intro header_kept [OF Suc.prems(1)] set_prdt_frame) auto
  then have N: "prdtl ch ?m = prdtl ch m" by (simp add: prdtl_def)
  have "prdt_loop ch tbl (Suc i) (a + 8192) (cnt - 16) ?m =
     (let n = prdtl ch m - 1 in
     (n, a + 8192 + 8192 * of_nat (n - Suc i), cnt - 16 - 16 * of_nat (n - Suc i),
      fold (\<lambda>k. set_prdt tbl k (a + 8192 + 8192 * of_nat (k - Suc i)) 8192) [Suc i..<n] ?m))"
    using Suc.hyps(1) [of ?m "Suc i" "a + 8192" "cnt - 16"] Suc.hyps(2) Suc.prems i N by simp
  moreover have "[i..<prdtl ch m - 1] = i # [Suc i..<prdtl ch m - 1]" using i by (simp add: upt_rec)
  moreover have "fold (\<lambda>k. set_prdt tbl k (a + 8192 + 8192 * of_nat (k - Suc i)) 8192) [Suc i..<n] M =
      fold (\<lambda>k. set_prdt tbl k (a + 8192 * of_nat (k - i)) 8192) [Suc i..<n] M" for n M
    by (intro fold_cong refl) (auto simp: algebra_simps)
  moreover have "n - i = Suc (n - Suc i)" if "Suc i \<le> n" for n using that by simp
  note this [of "prdtl ch m - 1"]
  ultimately show ?case using i by (subst prdt_loop.simps) (simp add: Let_def algebra_simps del: upt_Suc)
qed

lemma prdt_fold_entries:
  assumes "n < 65536" "k < n"
  shows "prdt_dba tbl k (fold (\<lambda>k. set_prdt tbl k (f k) 8192) [0..<n] m) = f k"
    and "prdt_dbc tbl k (fold (\<lambda>k. set_prdt tbl k (f k) 8192) [0..<n] m) = 8192"
  using assms by (induction n) (auto simp: set_prdt_entry take_bit_eq_mod less_Suc_eq)

lemma prdt_fold_frame:
  "(\<And>j. j < 128 + 16 * n \<Longrightarrow> x \<noteq> tbl + of_nat j) \<Longrightarrow> fold (\<lambda>k. set_prdt tbl k (f k) c) [0..<n] m x = m x"
  by (induction n) (auto intro!: trans [OF set_prdt_frame])

lemma bytes_of_word:
  "x mod 256 + 256 * (x div 256 mod 256) + 65536 * (x div 65536 mod 256) + 16777216 * (x div 16777216) = (x :: nat)"
proof -
  define y where "y = x div 256"
  define z where "z = y div 256"
  have e: "x div 65536 = z" "x div 16777216 = z div 256" by (simp_all add: y_def z_def div_mult2_eq [symmetric])
  have "x mod 256 + 256 * y = x" "y mod 256 + 256 * z = y" "z mod 256 + 256 * (z div 256) = z"
    unfolding y_def z_def by (rule mod_mult_div_eq)+
  then show ?thesis unfolding e y_def [symmetric] by linarith
qed

lemma fld_put_at_numeral:
  "off + n \<le> 2 ^ 64 \<Longrightarrow> (numeral j :: nat) < 2 ^ 64 \<Longrightarrow> fld_put n base off v m (base + numeral j) =
     (if off \<le> numeral j \<and> numeral j < off + n then ucast (drop_bit (8 * (numeral j - off)) v) else m (base + numeral j))"
  using fld_put_at [of off n "numeral j"] by simp

lemma set_fis_fields:
  shows "fis_lba tbl (set_fis tbl mode startl starth cnt m) = unat startl + 2 ^ 32 * (unat starth mod 2 ^ 16)"
    and "fis_count tbl (set_fis tbl mode startl starth cnt m) = unat cnt mod 2 ^ 16"
    and "set_fis tbl mode startl starth cnt m (tbl + 2) = (if mode = 0 then 0x25 else 0x35)"
    and "(\<And>j. j < 14 \<Longrightarrow> x \<noteq> tbl + of_nat j) \<Longrightarrow> set_fis tbl mode startl starth cnt m x = m x"
    and "14 \<le> k \<Longrightarrow> k + n \<le> 2 ^ 64 \<Longrightarrow> fld_get n tbl k (set_fis tbl mode startl starth cnt m) = fld_get n tbl k m"
proof -
  let ?m = "set_fis tbl mode startl starth cnt m"
  have "ucast (ucast (w :: u32) :: u64) = (ucast w :: u8)" for w by (rule bit_word_eqI) (simp add: bit_simps)
  then have b: "?m (tbl + of_nat 2) = ucast (if mode = 0 then 0x25 else 0x35 :: u64)"
    "?m (tbl + of_nat 4) = ucast startl" "?m (tbl + of_nat 5) = ucast (drop_bit 8 startl)" "?m (tbl + of_nat 6) = ucast (drop_bit 16 startl)"
    "?m (tbl + of_nat 8) = ucast (drop_bit 24 startl)" "?m (tbl + of_nat 9) = ucast starth" "?m (tbl + of_nat 10) = ucast (drop_bit 8 starth)"
    by (simp_all add: set_fis_def Let_def fld_put_at_numeral)
  then show "?m (tbl + 2) = (if mode = 0 then 0x25 else 0x35)" by simp
  have u: "unat (ucast (w :: u32) :: u8) = unat w mod 256" for w by (simp add: unsigned_ucast_eq take_bit_eq_mod)
  have d: "unat (drop_bit k (w :: u32)) = unat w div 2 ^ k" for k w by (simp only: unat_drop_bit_eq) (simp add: drop_bit_eq_div)
  have "unat startl < 2 ^ LENGTH(32)" by (rule unsigned_less)
  then have "unat startl div 16777216 mod 256 = unat startl div 16777216" by simp
  moreover have "unat starth mod 256 + 256 * (unat starth div 256 mod 256) = unat starth mod 2 ^ 16"
    using mod_mult2_eq [of "unat starth" 256 256] by simp
  ultimately show "fis_lba tbl ?m = unat startl + 2 ^ 32 * (unat starth mod 2 ^ 16)"
    using bytes_of_word [of "unat startl"] unfolding fis_lba_def Let_def b u d by simp
  have "fld_get 2 tbl 12 ?m = take_bit 16 (ucast cnt)" by (simp add: set_fis_def Let_def mem_fields)
  then show "fis_count tbl ?m = unat cnt mod 2 ^ 16"
    by (simp add: fis_count_def unsigned_take_bit_eq unat_ucast_up take_bit_nat_def)
  show "?m x = m x" if "\<And>j. j < 14 \<Longrightarrow> x \<noteq> tbl + of_nat j"
    using that by (simp add: set_fis_def Let_def fld_put_frame)
  show "fld_get n tbl k ?m = fld_get n tbl k m" if "14 \<le> k" "k + n \<le> 2 ^ 64"
    using that by (simp add: set_fis_def Let_def mem_fields)
qed

text \<open>A command written by the driver, for a table at \<open>tbl\<close> that does not overlap the header.\<close>

lemma set_command_fields:
  fixes mode :: u8 and startl starth cnt :: u32 and a ch tbl :: u64
  assumes cnt: "0 < unat cnt" "unat cnt \<le> 16 * 65535"
    and tbl: "fld_get 8 ch 8 m = tbl" "apart ch tbl (240 + 16 * n_regions cnt)"
  defines "m' \<equiv> set_command ch mode startl starth cnt a m"
  shows "prdtl ch m' = n_regions cnt" and "fld_get 8 ch 8 m' = tbl" and "bit (m' ch) 6 \<longleftrightarrow> mode \<noteq> 0"
    and "m' (tbl + 2) = (if mode = 0 then 0x25 else 0x35)"
    and "fis_lba tbl m' = unat startl + 2 ^ 32 * (unat starth mod 2 ^ 16)"
    and "fis_count tbl m' = unat cnt - 16 * (n_regions cnt - 1)"
    and "i < n_regions cnt \<Longrightarrow> prdt_dba tbl i m' = a + of_nat (8192 * i) \<and>
       prdt_dbc tbl i m' = (if i + 1 < n_regions cnt then 8192 else 512 * (unat cnt - 16 * i))"
    and "(\<And>j. j < 4 \<Longrightarrow> x \<noteq> ch + of_nat j) \<Longrightarrow> (\<And>j. j < 240 + 16 * n_regions cnt \<Longrightarrow> x \<noteq> tbl + of_nat j) \<Longrightarrow> m' x = m x"
proof -
  define N where "N = n_regions cnt"
  define m1 where "m1 = set_header ch mode cnt m"
  define sz :: u64 where "sz = 256 + (of_nat (prdtl ch m1) - 1) * 16"
  define m2 where "m2 = memset m1 tbl 0 sz"
  define m3 where "m3 = fold (\<lambda>k. set_prdt tbl k (a + 8192 * of_nat k) 8192) [0..<N - 1] m2"
  define rest where "rest = cnt - 16 * of_nat (N - 1)"
  define m4 where "m4 = set_prdt tbl (N - 1) (a + 8192 * of_nat (N - 1)) (ucast (push_bit 9 rest)) m3"
  have N: "0 < N" "N < 65536" "16 * (N - 1) < unat cnt" "unat cnt \<le> 16 * N" using cnt unfolding N_def by simp_all
  note h = set_header_fields [OF cnt, where ch = ch and m = m and mode = mode, folded m1_def N_def]
  have "unat sz = 240 + 16 * N"
  proof -
    have "(of_nat N :: u64) - 1 = of_nat (N - 1)" using N by (simp add: of_nat_diff)
    then have "sz = of_nat (256 + (N - 1) * 16)" by (simp add: sz_def h)
    also have "unat \<dots> = 256 + (N - 1) * 16" using N by (intro unat_of_nat_lt) simp
    finally show ?thesis using N by simp
  qed
  then have f2: "m2 x = m1 x" if "\<And>j. j < 240 + 16 * N \<Longrightarrow> x \<noteq> tbl + of_nat j" for x
    unfolding m2_def memset_def memset_loop_poke using that by (intro poke_frame) (auto simp only: region_iff length_replicate)
  have f3: "m3 x = m2 x" if "\<And>j. j < 240 + 16 * N \<Longrightarrow> x \<noteq> tbl + of_nat j" for x
    unfolding m3_def using that N by (intro prdt_fold_frame) auto
  have f4: "m4 x = m3 x" if "\<And>j. j < 240 + 16 * N \<Longrightarrow> x \<noteq> tbl + of_nat j" for x
    unfolding m4_def using that N by (intro set_prdt_frame) auto
  have p2: "prdtl ch m2 = N" using header_kept [OF tbl(2) [folded N_def] f2, where n = 2 and i = 2] h(1) by (simp add: prdtl_def)
  have "apart ch tbl (128 + 16 * prdtl ch m2)" using tbl(2) p2 unfolding apart_def N_def [symmetric] by auto
  then have "prdt_loop ch tbl 0 a cnt m2 = (N - 1, a + 8192 * of_nat (N - 1), rest, m3)"
    using prdt_loop_fold [of ch tbl m2 0 a cnt] p2 N by (simp add: Let_def rest_def m3_def)
  then have m': "m' = set_fis tbl mode startl starth rest m4"
    unfolding m'_def set_command_def Let_def m1_def [symmetric] h(2) tbl(1) sz_def [symmetric] m2_def [symmetric] m4_def by simp
  have f5: "m' x = m1 x" if "\<And>j. j < 240 + 16 * N \<Longrightarrow> x \<noteq> tbl + of_nat j" for x
    using that set_fis_fields(4) [of x tbl] f4 [OF that] f3 [OF that] f2 [OF that] unfolding m' by auto
  show "prdtl ch m' = n_regions cnt" "fld_get 8 ch 8 m' = tbl"
    using header_kept [OF tbl(2) [folded N_def] f5, where n = 2 and i = 2] header_kept [OF tbl(2) [folded N_def] f5, where n = 8 and i = 8] h(1,2) tbl(1)
    by (simp_all add: prdtl_def N_def)
  have "m' (ch + of_nat 0) = m1 (ch + of_nat 0)" using tbl(2) by (intro f5) (simp only: apart_def N_def [symmetric] not_False_eq_True)
  then show "bit (m' ch) 6 \<longleftrightarrow> mode \<noteq> 0" using h(3) by simp
  show "m' (tbl + 2) = (if mode = 0 then 0x25 else 0x35)" "fis_lba tbl m' = unat startl + 2 ^ 32 * (unat starth mod 2 ^ 16)"
    unfolding m' by (rule set_fis_fields)+
  have "(16 * of_nat (N - 1) :: u32) = of_nat (16 * (N - 1))" by simp
  also have "unat \<dots> = 16 * (N - 1)" using N by (intro unat_of_nat_lt) simp
  finally have r: "unat rest = unat cnt - 16 * (N - 1)"
    using N unfolding rest_def by (subst unat_sub) (simp_all add: word_le_nat_alt)
  then show "fis_count tbl m' = unat cnt - 16 * (n_regions cnt - 1)"
    unfolding N_def [symmetric] m' using set_fis_fields(2) [of tbl mode startl starth rest m4] N by simp
  have e: "prdt_dba tbl i m' = prdt_dba tbl i m4" "prdt_dbc tbl i m' = prdt_dbc tbl i m4" if "i < N" for i
    using that N set_fis_fields(5) unfolding m' prdt_dba_def prdt_dbc_def by simp_all
  have "unat (push_bit 9 rest) = 512 * unat rest" using r N by (simp add: push_bit_eq_mult unat_word_ariths)
  then have "unat (take_bit 22 (ucast (push_bit 9 rest) :: u64)) = 512 * unat rest"
    using r N by (simp add: unsigned_take_bit_eq unat_ucast_up take_bit_nat_def)
  then show "prdt_dba tbl i m' = a + of_nat (8192 * i) \<and>
       prdt_dbc tbl i m' = (if i + 1 < n_regions cnt then 8192 else 512 * (unat cnt - 16 * i))" if "i < n_regions cnt"
    using that N r prdt_fold_entries [of "N - 1" i tbl "\<lambda>k. a + 8192 * of_nat k" m2, folded m3_def] unfolding N_def [symmetric]
    by (cases "i = N - 1") (auto simp: e m4_def set_prdt_entry)
  show "m' x = m x" if "\<And>j. j < 4 \<Longrightarrow> x \<noteq> ch + of_nat j" "\<And>j. j < 240 + 16 * n_regions cnt \<Longrightarrow> x \<noteq> tbl + of_nat j"
    using h(4) [OF that(1)] f5 that(2) by (simp add: N_def)
qed

text \<open>
  C20. The command in memory describes the transfer: for 1 to \<open>16 * 65535\<close> sectors and a command table that does
  not overlap the header of its slot, the header has the number of regions and the direction, the command has the
  opcode and the 48-bit sector number (the lower 16 bits of \<^verbatim>\<open>starth\<close> above \<^verbatim>\<open>startl\<close>), and the regions
  are consecutive pieces of the buffer that together hold all the sectors. The number of sectors in the command is
  what is left after the full regions, so that only transfers of up to 16 sectors are complete.
\<close>

theorem command_describes_transfer:
  assumes "0 < unat cnt" "unat cnt \<le> 16 * 65535"
    and "fld_get 8 ch 8 m = tbl" "apart ch tbl (240 + 16 * n_regions cnt)"
    and "m' = set_command ch mode startl starth cnt a m"
  shows "prdtl ch m' = n_regions cnt \<and> (bit (m' ch) 6 \<longleftrightarrow> mode \<noteq> 0) \<and>
    m' (tbl + 2) = (if mode = 0 then 0x25 else 0x35) \<and>
    fis_lba tbl m' = unat startl + 2 ^ 32 * (unat starth mod 2 ^ 16) \<and>
    (\<forall>i<prdtl ch m'. prdt_dba tbl i m' = a + of_nat (sum_list (map (\<lambda>k. prdt_dbc tbl k m') [0..<i]))) \<and>
    sum_list (map (\<lambda>k. prdt_dbc tbl k m') [0..<prdtl ch m']) = 512 * unat cnt \<and>
    fis_count tbl m' = unat cnt - 16 * (n_regions cnt - 1)"
proof -
  note c = set_command_fields [OF assms(1-4), where mode = mode and startl = startl and starth = starth and a = a, folded assms(5)]
  define N where "N = n_regions cnt"
  have N: "0 < N" "16 * (N - 1) < unat cnt" using assms(1,2) unfolding N_def by simp_all
  have s: "sum_list (map (\<lambda>k. prdt_dbc tbl k m') [0..<i]) = 8192 * i" if "i < N" for i
    using that c(7) unfolding N_def by (induction i) simp_all
  have l: "prdt_dbc tbl (N - 1) m' = 512 * (unat cnt - 16 * (N - 1))" using c(7) [of "N - 1"] N unfolding N_def [symmetric] by simp
  have "[0..<N] = [0..<N - 1] @ [N - 1]" using N by (metis Suc_diff_1 upt_Suc_append le0)
  then have "sum_list (map (\<lambda>k. prdt_dbc tbl k m') [0..<N]) = 8192 * (N - 1) + 512 * (unat cnt - 16 * (N - 1))"
    using s [of "N - 1"] l N by simp
  also have "\<dots> = 512 * unat cnt" using N by simp
  finally show ?thesis using c(1,3-7) s unfolding N_def [symmetric] by simp
qed

definition example_list :: bmem where
  "example_list = fld_put 8 0x1000 8 0x2000 (\<lambda>_. 0)"

lemma example_list_table: "fld_get 8 0x1000 8 example_list = 0x2000"
  by (simp add: example_list_def mem_fields)

lemma example_list_apart: "apart 0x1000 0x2000 (240 + 16 * k)" if "k < 65536"
proof -
  have "(0x1000 :: u64) + of_nat i \<noteq> 0x2000 + of_nat j" if i: "i < 16" and j: "j < 240 + 16 * k" for i j
  proof
    assume "(0x1000 :: u64) + of_nat i = 0x2000 + of_nat j"
    then have "(of_nat (0x1000 + i) :: u64) = of_nat (0x2000 + j)" by simp
    from of_nat_word_inj [OF this] i j \<open>k < 65536\<close> show False by simp
  qed
  then show "apart 0x1000 0x2000 (240 + 16 * k)" by (simp add: apart_def)
qed

theorem command_describes_transfer_witness:
  "prdtl 0x1000 (set_command 0x1000 1 7 0 40 0x800000 example_list) = 3 \<and>
   fis_count 0x2000 (set_command 0x1000 1 7 0 40 0x800000 example_list) = 8"
  using command_describes_transfer [OF _ _ example_list_table example_list_apart refl, where cnt = 40 and mode = 1 and startl = 7 and starth = 0 and a = "0x800000"]
  by simp

section \<open>A drive on the port\<close>

text \<open>
  What the AHCI and ATA standards say of an idle port with a drive that completes every command at once and
  without errors, as far as the driver relies on it: how it executes a command whose first memory region is
  large enough (the length in the table is one less than the number of bytes). Memory the controller uses for
  reports of its own (\<open>own\<close>) may change at any time; sectors have 512 bytes.
\<close>

record sata =
  s_clb :: u64
  s_disk :: "nat \<Rightarrow> u8 list"

definition same :: "u64 set \<Rightarrow> bmem \<Rightarrow> bmem \<Rightarrow> bool" where
  "same own m m' \<longleftrightarrow> (\<forall>x. x \<notin> own \<longrightarrow> m' x = m x)"

definition single_region :: "u64 \<Rightarrow> bmem \<Rightarrow> bool" where
  "single_region ch m \<longleftrightarrow> (let tbl = fld_get 8 ch 8 m; n = fis_count tbl m in
     prdtl ch m = 1 \<and> 0 < n \<and> 512 * n \<le> prdt_dbc tbl 0 m + 1)"

definition sata_exec :: "u64 \<Rightarrow> bmem \<Rightarrow> (nat \<Rightarrow> u8 list) \<Rightarrow> bmem \<times> (nat \<Rightarrow> u8 list)" where
  "sata_exec ch m disk =
     (let tbl = fld_get 8 ch 8 m; n = fis_count tbl m; lba = fis_lba tbl m; a = prdt_dba tbl 0 m in
      if m (tbl + 2) = 0x25 \<and> \<not> bit (m ch) 6 then (poke m a (concat (map disk [lba..<lba + n])), disk)
      else if m (tbl + 2) = 0x35 \<and> bit (m ch) 6 then
        (m, \<lambda>k. if lba \<le> k \<and> k < lba + n then peek m (a + of_nat (512 * (k - lba))) 512 else disk k)
      else (m, disk))"

definition idle_drive :: "'d hba \<Rightarrow> nat \<Rightarrow> u64 set \<Rightarrow> ('d \<Rightarrow> sata) \<Rightarrow> bool" where
  "idle_drive h port own ab \<longleftrightarrow> (\<forall>m d.
     (\<forall>rg v m' d'. h_in h port rg (m, d) = (v, m', d') \<longrightarrow> same own m m' \<and> ab d' = ab d \<and>
        (rg = Tfd \<longrightarrow> v AND 0x88 = 0) \<and> (rg = Sact \<or> rg = Ci \<longrightarrow> v = 0) \<and> (rg = Is_rwc \<longrightarrow> v AND HBA_PxIS_TFES = 0)) \<and>
     (\<forall>v m' d'. h_out h port Is_rwc v (m, d) = (m', d') \<longrightarrow> same own m m' \<and> ab d' = ab d) \<and>
     h_clb h port d = s_clb (ab d) \<and>
     (\<forall>k<32. let ch = s_clb (ab d) + 32 * of_nat k in single_region ch m \<longrightarrow>
        (\<forall>m' d'. h_out h port Ci (push_bit k 1) (m, d) = (m', d') \<longrightarrow>
           same own (fst (sata_exec ch m (s_disk (ab d)))) m' \<and>
           ab d' = (ab d)\<lparr>s_disk := snd (sata_exec ch m (s_disk (ab d)))\<rparr>)))"

lemma drive_in:
  assumes "idle_drive h port own ab"
  obtains v s' where "port_in h port rg s = (v, s')" "same own (a_mem s) (a_mem s')" "ab (a_hw s') = ab (a_hw s)"
    "rg = Tfd \<Longrightarrow> v AND 0x88 = 0" "rg = Sact \<or> rg = Ci \<Longrightarrow> v = 0" "rg = Is_rwc \<Longrightarrow> v AND HBA_PxIS_TFES = 0"
proof -
  obtain v m' d' where e: "h_in h port rg (a_mem s, a_hw s) = (v, m', d')" by (cases "h_in h port rg (a_mem s, a_hw s)") auto
  with assms show thesis by (intro that [of v "s\<lparr>a_mem := m', a_hw := d'\<rparr>"]) (auto simp: idle_drive_def port_in_def)
qed

text \<open>The bytes of a header and its table that a command uses, kept out of \<open>own\<close>.\<close>

definition kept_out :: "u64 set \<Rightarrow> u64 \<Rightarrow> u64 \<Rightarrow> bool" where
  "kept_out own ch tbl \<longleftrightarrow> (\<forall>i<16. i < 4 \<or> 8 \<le> i \<longrightarrow> ch + of_nat i \<notin> own) \<and> (\<forall>j<256. tbl + of_nat j \<notin> own)"

lemma kept_out_fields:
  assumes s: "same own m m'" and k: "kept_out own ch tbl"
  shows "fld_get 8 ch 8 m' = fld_get 8 ch 8 m" "prdtl ch m' = prdtl ch m" "m' ch = m ch" "m' (tbl + 2) = m (tbl + 2)"
    "fis_lba tbl m' = fis_lba tbl m" "fis_count tbl m' = fis_count tbl m" "prdt_dba tbl 0 m' = prdt_dba tbl 0 m" "prdt_dbc tbl 0 m' = prdt_dbc tbl 0 m"
proof -
  have c: "m' (ch + of_nat i) = m (ch + of_nat i)" if "i < 4 \<or> 8 \<le> i" "i < 16" for i using that s k unfolding same_def kept_out_def by blast
  have t: "m' (tbl + of_nat j) = m (tbl + of_nat j)" if "j < 256" for j using that s k unfolding same_def kept_out_def by blast
  show "fld_get 8 ch 8 m' = fld_get 8 ch 8 m" "prdtl ch m' = prdtl ch m"
    unfolding prdtl_def by (auto intro!: fld_get_cong arg_cong [where f = unat] c)
  show "fis_count tbl m' = fis_count tbl m" "prdt_dba tbl 0 m' = prdt_dba tbl 0 m" "prdt_dbc tbl 0 m' = prdt_dbc tbl 0 m"
    unfolding fis_count_def prdt_dba_def prdt_dbc_def
    by (auto intro!: fld_get_cong arg_cong [where f = unat] arg_cong [where f = "get_field 0 22"] t)
  show "m' ch = m ch" "m' (tbl + 2) = m (tbl + 2)" using c [of 0] t [of 2] by simp_all
  show "fis_lba tbl m' = fis_lba tbl m" unfolding fis_lba_def Let_def by (simp only: t)
qed

lemma drive_clear: "idle_drive h port own ab \<Longrightarrow> h_out h port Is_rwc v (m, d) = (m', d') \<Longrightarrow> same own m m' \<and> ab d' = ab d"
  unfolding idle_drive_def by blast

lemma drive_clb: "idle_drive h port own ab \<Longrightarrow> h_clb h port d = s_clb (ab d)"
  unfolding idle_drive_def by blast

lemma drive_exec:
  assumes "idle_drive h port own ab" "k < 32" "ch = s_clb (ab d) + 32 * of_nat k" "single_region ch m"
    and "h_out h port Ci (push_bit k 1) (m, d) = (m', d')"
  shows "same own (fst (sata_exec ch m (s_disk (ab d)))) m'" "ab d' = (ab d)\<lparr>s_disk := snd (sata_exec ch m (s_disk (ab d)))\<rparr>"
  using assms unfolding idle_drive_def Let_def by blast+

lemma spin_clear: "port_in h port Tfd s = (v, s') \<Longrightarrow> v AND 0x88 = 0 \<Longrightarrow> 0 < n \<Longrightarrow> spin_loop h port n s = (False, s')"
  by (cases n) simp_all

lemma readorwrite_executes:
  fixes mode :: u8 and startl starth cnt :: u32 and a ch tbl :: u64
  assumes d: "idle_drive h port own ab" and ch: "s_clb (ab (a_hw s)) = ch" and tbl: "fld_get 8 ch 8 (a_mem s) = tbl"
    and k: "kept_out own ch tbl" "apart ch tbl 256" and cnt: "0 < unat cnt" "unat cnt \<le> 16"
  obtains m s' where "readorwrite h port startl starth cnt a mode s = Inr (True, s')"
    "ab (a_hw s') = (ab (a_hw s))\<lparr>s_disk := snd (sata_exec ch m (s_disk (ab (a_hw s))))\<rparr>"
    "same own (fst (sata_exec ch m (s_disk (ab (a_hw s))))) (a_mem s')"
    "\<And>x. x \<notin> own \<Longrightarrow> (\<And>j. j < 4 \<Longrightarrow> x \<noteq> ch + of_nat j) \<Longrightarrow> (\<And>j. j < 256 \<Longrightarrow> x \<noteq> tbl + of_nat j) \<Longrightarrow> m x = a_mem s x"
    "fld_get 8 ch 8 m = tbl" "prdt_dba tbl 0 m = a" "fis_count tbl m = unat cnt" "bit (m ch) 6 \<longleftrightarrow> mode \<noteq> 0"
    "m (tbl + 2) = (if mode = 0 then 0x25 else 0x35)" "fis_lba tbl m = unat startl + 2 ^ 32 * (unat starth mod 2 ^ 16)"
proof -
  obtain m1 d1 where o1: "h_out h port Is_rwc (- 1) (a_mem s, a_hw s) = (m1, d1)" by fastforce
  then have 1: "same own (a_mem s) m1" "ab d1 = ab (a_hw s)" using drive_clear [OF d] by auto
  define s1 where "s1 = s\<lparr>a_mem := m1, a_hw := d1\<rparr>"
  obtain v2 s2 where 2: "port_in h port Sact s1 = (v2, s2)" "same own (a_mem s1) (a_mem s2)" "ab (a_hw s2) = ab (a_hw s1)" "v2 = 0"
    using drive_in [OF d, of Sact s1] by auto
  obtain v3 s3 where 3: "port_in h port Ci s2 = (v3, s3)" "same own (a_mem s2) (a_mem s3)" "ab (a_hw s3) = ab (a_hw s2)" "v3 = 0"
    using drive_in [OF d, of Ci s2] by auto
  have s3: "same own (a_mem s) (a_mem s3)" "ab (a_hw s3) = ab (a_hw s)"
    using 1 2(2,3) 3(2,3) by (simp_all add: s1_def same_def)
  have find: "find_cmdslot h port s1 = Inr (Some 0, s3)"
    using find_cmdslot_first [OF 2(1) 3(1)] 2(4) 3(4) by (simp add: upt_conv_Cons del: upt_Suc upt_rec_numeral)
  have clb: "h_clb h port (a_hw s3) = ch" using drive_clb [OF d] ch s3(2) by simp
  define m3 where "m3 = set_command ch mode startl starth cnt a (a_mem s3)"
  have n1: "n_regions cnt = 1" using cnt by simp
  have t3: "fld_get 8 ch 8 (a_mem s3) = tbl" using kept_out_fields(1) [OF s3(1) k(1)] tbl by simp
  note c = set_command_fields [where cnt = cnt and ch = ch and tbl = tbl and m = "a_mem s3" and mode = mode and startl = startl
      and starth = starth and a = a, folded m3_def, unfolded n1]
  have c1: "0 < unat cnt" "unat cnt \<le> 16 * 65535" "fld_get 8 ch 8 (a_mem s3) = tbl" "apart ch tbl (240 + 16 * 1)" using cnt t3 k(2) by simp_all
  define s4 where "s4 = s3\<lparr>a_mem := m3\<rparr>"
  obtain v5 s5 where 5: "port_in h port Tfd s4 = (v5, s5)" "same own (a_mem s4) (a_mem s5)" "ab (a_hw s5) = ab (a_hw s4)" "v5 AND 0x88 = 0"
    using drive_in [OF d, of Tfd s4] by auto
  have spin: "spin_loop h port 1000000 s4 = (False, s5)" using spin_clear [OF 5(1,4)] by simp
  define m5 where "m5 = a_mem s5"
  have s5: "same own m3 m5" "ab (a_hw s5) = ab (a_hw s)" using 5(2,3) s3(2) by (simp_all add: s4_def m5_def)
  note f = kept_out_fields [OF s5(1) k(1)] and c' = c [OF c1]
  have single: "single_region ch m5" using f c'(1,2,6) c'(7) [of 0] cnt by (simp add: single_region_def Let_def)
  obtain m6 d6 where o6: "h_out h port Ci (push_bit 0 1) (m5, a_hw s5) = (m6, d6)" by fastforce
  define disk where "disk = s_disk (ab (a_hw s))"
  have 6: "same own (fst (sata_exec ch m5 disk)) m6" "ab d6 = (ab (a_hw s))\<lparr>s_disk := snd (sata_exec ch m5 disk)\<rparr>"
    using drive_exec [OF d _ _ single o6] s5(2) ch by (simp_all add: disk_def)
  define s6 where "s6 = s5\<lparr>a_mem := m6, a_hw := d6\<rparr>"
  obtain v7 s7 where 7: "port_in h port Ci s6 = (v7, s7)" "same own (a_mem s6) (a_mem s7)" "ab (a_hw s7) = ab (a_hw s6)" "v7 = 0"
    using drive_in [OF d, of Ci s6] by auto
  obtain v8 s8 where 8: "port_in h port Is_rwc s7 = (v8, s8)" "same own (a_mem s7) (a_mem s8)" "ab (a_hw s8) = ab (a_hw s7)" "v8 AND HBA_PxIS_TFES = 0"
    using drive_in [OF d, of Is_rwc s7] by auto
  have "completion_loop h port 1 s6 = Some (False, s7)" using 7 by (subst completion_loop.simps) simp
  then have issue: "issue_command h port 0 s4 = Inr (True, s8)"
    using spin o6 8 by (simp add: issue_command_def port_out_def s6_def m5_def)
  have run: "readorwrite h port startl starth cnt a mode s = Inr (True, s8)"
    using o1 find clb issue by (simp add: readorwrite_def port_out_def s1_def s4_def m3_def Let_def)
  have eff: "same own (fst (sata_exec ch m5 disk)) (a_mem s8)" "ab (a_hw s8) = (ab (a_hw s))\<lparr>s_disk := snd (sata_exec ch m5 disk)\<rparr>"
    using 6 7(2,3) 8(2,3) by (simp_all add: s6_def same_def)
  have fr: "m5 x = a_mem s x" if "x \<notin> own" "\<And>j. j < 4 \<Longrightarrow> x \<noteq> ch + of_nat j" "\<And>j. j < 256 \<Longrightarrow> x \<noteq> tbl + of_nat j" for x
    using c'(8) [of x] that s5(1) s3(1) by (simp add: same_def)
  have g: "fld_get 8 ch 8 m5 = tbl" "prdt_dba tbl 0 m5 = a" "fis_count tbl m5 = unat cnt" "bit (m5 ch) 6 \<longleftrightarrow> mode \<noteq> 0"
    "m5 (tbl + 2) = (if mode = 0 then 0x25 else 0x35)" "fis_lba tbl m5 = unat startl + 2 ^ 32 * (unat starth mod 2 ^ 16)"
    unfolding f using c'(2-6) c'(7) [of 0] by simp_all
  show thesis by (rule that [OF run eff(2,1) [unfolded disk_def] fr g])
qed

lemma peek_append: "peek m a (x + y) = peek m a x @ peek m (a + of_nat x) y"
  by (induction x arbitrary: a) (simp_all add: algebra_simps)

lemma length_peek [simp]: "length (peek m a n) = n"
  by (induction n arbitrary: a) simp_all

lemma peek_nth: "i < n \<Longrightarrow> peek m a n ! i = m (a + of_nat i)"
  by (induction n arbitrary: a i) (auto simp: nth_Cons algebra_simps split: nat.splits)

lemma poke_nth: "length bs < 2 ^ 64 \<Longrightarrow> i < length bs \<Longrightarrow> poke m a bs (a + of_nat i) = bs ! i"
  using peek_poke [of bs m a] peek_nth [of i "length bs" "poke m a bs" a] by simp

lemma peek_sectors: "concat (map (\<lambda>k. peek m (a + of_nat (512 * (k - lba))) 512) [lba..<lba + n]) = peek m a (512 * n)"
proof (induction n)
  case (Suc n)
  have "512 * Suc n = 512 * n + 512" by simp
  then have "peek m a (512 * Suc n) = peek m a (512 * n) @ peek m (a + of_nat (512 * n)) 512" by (simp only: peek_append)
  with Suc show ?case by (simp del: of_nat_mult)
qed simp

text \<open>A buffer apart from the bytes of the controller, the header and the table.\<close>

definition placed :: "u64 set \<Rightarrow> u64 \<Rightarrow> u64 \<Rightarrow> u64 \<Rightarrow> nat \<Rightarrow> bool" where
  "placed own ch tbl a n \<longleftrightarrow> (\<forall>i<n. a + of_nat i \<notin> own \<and> (\<forall>j<4. a + of_nat i \<noteq> ch + of_nat j) \<and> (\<forall>j<256. a + of_nat i \<noteq> tbl + of_nat j))"


text \<open>A controller with one such drive, its command list at address 4096.\<close>

definition example_hba :: "sata hba" where
  "example_hba = \<lparr>
     h_in = \<lambda>_ _ (m, d). (0, m, d),
     h_out = \<lambda>_ rg v (m, d). (case find (\<lambda>k. rg = Ci \<and> v = push_bit k 1) [0..<32] of
         None \<Rightarrow> (m, d)
       | Some k \<Rightarrow> (let (m', disk) = sata_exec (s_clb d + 32 * of_nat k) m (s_disk d) in (m', d\<lparr>s_disk := disk\<rparr>))),
     h_clb = \<lambda>_ d. s_clb d,
     h_pi = \<lambda>_. 1\<rparr>"

lemma example_hba_slot: "k < 32 \<Longrightarrow> find (\<lambda>j. (push_bit k 1 :: u32) = push_bit j 1) [0..<32] = Some k"
proof -
  assume k: "k < 32"
  have "j = k" if "(push_bit k 1 :: u32) = push_bit j 1" "j < 32" for j
  proof -
    have "bit (push_bit j 1 :: u32) k" unfolding that(1) [symmetric] using k by (simp add: bit_simps)
    then show ?thesis by (auto simp: bit_simps)
  qed
  then show ?thesis using k unfolding find_upt by (metis less_irrefl less_trans)
qed

lemma example_hba_idle: "idle_drive example_hba 0 {} (\<lambda>d. d)"
proof -
  have "find (\<lambda>k. False) xs = None" for xs :: "nat list" by (induction xs) simp_all
  moreover have "find (\<lambda>j. (2 ^ k :: u32) = 2 ^ j) [0..<32] = Some k" if "k < 32" for k
    using example_hba_slot [OF that] by simp
  ultimately show ?thesis unfolding idle_drive_def
    by (auto simp: example_hba_def same_def Let_def split_beta simp del: upt_rec_numeral)
qed

definition example_ahci :: "sata ahci" where
  "example_ahci = \<lparr>a_mem = example_list, a_hw = \<lparr>s_clb = 0x1000, s_disk = \<lambda>_. []\<rparr>, a_con = example_screen\<rparr>"

lemma example_placed:
  assumes "0x800000 \<le> b" "b < 0x1000000"
  shows "placed {} 0x1000 0x2000 (of_nat b) 4096"
proof -
  have n: "(of_nat b :: u64) + of_nat i \<noteq> of_nat c + of_nat j" if "i < 4096" "j < 256" "c \<le> 0x2000" for i j c
  proof
    assume "(of_nat b :: u64) + of_nat i = of_nat c + of_nat j"
    then have "(of_nat (b + i) :: u64) = of_nat (c + j)" by simp
    from of_nat_word_inj [OF this] that assms show False by simp
  qed
  show ?thesis using n [of _ _ "0x1000"] n [of _ _ "0x2000"] by (auto simp: placed_def)
qed


text \<open>
  The check of the disk cannot fail: whenever it returns, it says that reading and writing works, whatever the
  controller did.
\<close>

lemma verify_always_succeeds: "verify_read_write h port s = Inr (x, s') \<Longrightarrow> x = 1"
  by (auto simp: verify_read_write_def Let_def res_simps split_beta simp del: upt_rec_numeral)

end
