(* ===== verification/Pci.thy ===== *)
theory Pci
  imports Ahci
begin

unbundle bit_operations_syntax

text \<open>
  The search for disk controllers on the PCI bus, \<^verbatim>\<open>sys/pci.c\<close>: access to configuration registers through
  the address port \<^verbatim>\<open>0xCF8\<close> and the data port \<^verbatim>\<open>0xCFC\<close>, the identification of a function and the
  loops over all functions. The ports are a parameter, and so is the controller that answers at the address in a
  function's base address register; both share the state \<open>a_hw\<close> of theory Ahci.
\<close>

section \<open>Ports\<close>

record 'd pci =
  l_in :: "u16 \<Rightarrow> 'd \<Rightarrow> u32 \<times> 'd"
  l_out :: "u16 \<Rightarrow> u32 \<Rightarrow> 'd \<Rightarrow> 'd"
  hba_at :: "u32 \<Rightarrow> 'd hba"

definition sysOutLong :: "'d pci \<Rightarrow> u16 \<Rightarrow> u32 \<Rightarrow> 'd ahci \<Rightarrow> 'd ahci" where
  "sysOutLong p port addr s = s\<lparr>a_hw := l_out p port addr (a_hw s)\<rparr>"

definition sysInLong :: "'d pci \<Rightarrow> u16 \<Rightarrow> 'd ahci \<Rightarrow> u32 \<times> 'd ahci" where
  "sysInLong p port s = (let (v, d) = l_in p port (a_hw s) in (v, s\<lparr>a_hw := d\<rparr>))"

section \<open>Configuration registers\<close>

definition pci_address :: "u8 \<Rightarrow> u8 \<Rightarrow> u8 \<Rightarrow> u8 \<Rightarrow> u32" where
  "pci_address bus slot func off =
     push_bit 16 (ucast bus) OR push_bit 11 (ucast slot) OR push_bit 8 (ucast func) OR ucast (off AND 0xFC) OR 0x80000000"

definition pciConfigReadWord :: "'d pci \<Rightarrow> u8 \<Rightarrow> u8 \<Rightarrow> u8 \<Rightarrow> u8 \<Rightarrow> 'd ahci \<Rightarrow> u16 \<times> 'd ahci" where
  "pciConfigReadWord p bus slot func off s =
     (let s = sysOutLong p 0xCF8 (pci_address bus slot func off) s;
          (v, s) = sysInLong p 0xCFC s
      in (ucast (drop_bit (unat (off AND 2) * 8) v AND 0xFFFF), s))"

definition pciConfigReadLong :: "'d pci \<Rightarrow> u8 \<Rightarrow> u8 \<Rightarrow> u8 \<Rightarrow> u8 \<Rightarrow> 'd ahci \<Rightarrow> u32 \<times> 'd ahci" where
  "pciConfigReadLong p bus slot func off s =
     (let s = sysOutLong p 0xCF8 (pci_address bus slot func off) s in sysInLong p 0xCFC s)"

definition pciConfigWrite :: "'d pci \<Rightarrow> u8 \<Rightarrow> u8 \<Rightarrow> u8 \<Rightarrow> u8 \<Rightarrow> u32 \<Rightarrow> 'd ahci \<Rightarrow> 'd ahci" where
  "pciConfigWrite p bus slot func off writeVal s =
     (let s = sysOutLong p 0xCF8 (pci_address bus slot func off) s in sysOutLong p 0xCFC writeVal s)"

section \<open>The search\<close>

text \<open>
  The class of a function is in the upper byte of the word at offset 10, its subclass in the lower one; the
  second test reads the word again.
\<close>

definition is_ahci :: "'d pci \<Rightarrow> u8 \<Rightarrow> u8 \<Rightarrow> u8 \<Rightarrow> 'd ahci \<Rightarrow> bool \<times> 'd ahci" where
  "is_ahci p bus slot func s =
     (let (w, s) = pciConfigReadWord p bus slot func 10 s in
      if w AND 0x00FF = 0x06
      then let (w, s) = pciConfigReadWord p bus slot func 10 s in (drop_bit 8 (w AND 0xFF00) = 0x01, s)
      else (False, s))"

definition getVendorID :: "'d pci \<Rightarrow> u8 \<Rightarrow> u8 \<Rightarrow> u8 \<Rightarrow> 'd ahci \<Rightarrow> (u16 \<times> 'd ahci) res" where
  "getVendorID p bus slot func s =
     (let (vendor, s) = pciConfigReadWord p bus slot func 0 s in
      if vendor \<noteq> 0xFFFF then
        let (device, s) = pciConfigReadWord p bus slot func 2 s in
        rbind (ahci_print ''DeviceId:%d, VendorId:%d'' [VInt (uint device), VInt (uint vendor)] s) (\<lambda>s.
        rbind (let (ahci, s) = is_ahci p bus slot func s in
               if ahci then
                 rbind (ahci_print ('' Type:AHCI '' @ [CHR 0x0A]) [] s) (\<lambda>s.
                 let (x, s) = pciConfigReadLong p bus slot func 0x24 s in probe_port (hba_at p x) s)
               else Inr s) (\<lambda>s.
        rbind (ahci_print [CHR 0x0A] [] s) (\<lambda>s. Inr (vendor, s))))
      else Inr (vendor, s))"

definition checkDevice :: "'d pci \<Rightarrow> u8 \<Rightarrow> u8 \<Rightarrow> u8 \<Rightarrow> 'd ahci \<Rightarrow> 'd ahci res" where
  "checkDevice p bus device func s = rbind (getVendorID p bus device func s) (\<lambda>(vendorID, s). Inr s)"

definition checkAllBuses :: "'d pci \<Rightarrow> 'd ahci \<Rightarrow> 'd ahci res" where
  "checkAllBuses p =
     rfold (\<lambda>bus. rfold (\<lambda>device. rfold (\<lambda>func.
       checkDevice p (of_nat bus) (of_nat device) (of_nat func)) [0..<7]) [0..<32]) [0..<255]"

section \<open>The configuration space\<close>

text \<open>
  The first configuration mechanism of the PCI standard: a write to the address port is remembered; an access to
  the data port reaches the register that the remembered address names, if its last bit is set.
\<close>

record conf =
  latch :: u32
  space :: "u32 \<times> u32 \<times> u32 \<times> u32 \<Rightarrow> u32"

definition conf_key :: "u32 \<Rightarrow> u32 \<times> u32 \<times> u32 \<times> u32" where
  "conf_key a = (get_field 16 8 a, get_field 11 5 a, get_field 8 3 a, get_field 2 6 a)"

definition mechanism :: "'d pci \<Rightarrow> ('d \<Rightarrow> conf) \<Rightarrow> bool" where
  "mechanism p ab \<longleftrightarrow> (\<forall>d v.
     ab (l_out p 0xCF8 v d) = (ab d)\<lparr>latch := v\<rparr> \<and>
     (bit (latch (ab d)) 31 \<longrightarrow>
        fst (l_in p 0xCFC d) = space (ab d) (conf_key (latch (ab d))) \<and> ab (snd (l_in p 0xCFC d)) = ab d \<and>
        ab (l_out p 0xCFC v d) = (ab d)\<lparr>space := (space (ab d))(conf_key (latch (ab d)) := v)\<rparr>))"

abbreviation key :: "u8 \<Rightarrow> u8 \<Rightarrow> u8 \<Rightarrow> u8 \<Rightarrow> u32 \<times> u32 \<times> u32 \<times> u32" where
  "key bus slot func off \<equiv> (ucast bus, ucast slot, ucast func, ucast (drop_bit 2 off))"

lemma take_bit_small: "unat (w :: 'a::len word) < 2 ^ n \<Longrightarrow> take_bit n w = w"
  by (simp add: word_unat_eq_iff unsigned_take_bit_eq take_bit_nat_eq_self)

lemma bit_below: "unat (w :: 'a::len word) < 2 ^ n \<Longrightarrow> n \<le> k \<Longrightarrow> \<not> bit w k"
  using take_bit_small by (metis bit_take_bit_iff not_less)

lemma pci_constant_bits: "bit (0x80000000 :: u32) n \<longleftrightarrow> n = 31" "bit (0xFC :: u8) n \<longleftrightarrow> 2 \<le> n \<and> n < 8" "bit (2 :: u8) n \<longleftrightarrow> n = 1" "bit (63 :: int) n \<longleftrightarrow> n < 6"
proof -
  have "(0x80000000 :: u32) = push_bit 31 1" "(0xFC :: u8) = push_bit 2 (mask 6)" "(2 :: u8) = push_bit 1 1" "(63 :: int) = mask 6" by (simp_all add: mask_eq_exp_minus_1)
  then show "bit (0x80000000 :: u32) n \<longleftrightarrow> n = 31" "bit (0xFC :: u8) n \<longleftrightarrow> 2 \<le> n \<and> n < 8" "bit (2 :: u8) n \<longleftrightarrow> n = 1" "bit (63 :: int) n \<longleftrightarrow> n < 6"
    by (simp_all only: bit_push_bit_iff bit_1_iff bit_mask_iff) auto
qed

lemma pci_address_key:
  assumes "slot < 32" "func < 8"
  shows "conf_key (pci_address bus slot func off) = key bus slot func off" "bit (pci_address bus slot func off) 31"
proof -
  have u: "unat slot < 2 ^ 5" "unat func < 2 ^ 3" using assms by (simp_all add: word_less_nat_alt)
  then have b: "5 \<le> n \<Longrightarrow> \<not> bit slot n" "3 \<le> n \<Longrightarrow> \<not> bit func n" "8 \<le> n \<Longrightarrow> \<not> bit bus n" "8 \<le> n \<Longrightarrow> \<not> bit off n" for n
    using bit_below bit_imp_le_length [of bus n] bit_imp_le_length [of off n] by (blast, blast, auto)
  have "unat bus < 2 ^ LENGTH(8)" "unat off < 2 ^ LENGTH(8)" by (rule unsigned_less)+
  moreover have "unat (drop_bit 2 off) = unat off div 4" by (simp only: unat_drop_bit_eq) (simp add: drop_bit_eq_div)
  ultimately have small: "take_bit 8 (ucast bus) = (ucast bus :: u32)" "take_bit 5 (ucast slot) = (ucast slot :: u32)"
    "take_bit 3 (ucast func) = (ucast func :: u32)" "take_bit 6 (ucast (drop_bit 2 off)) = (ucast (drop_bit 2 off) :: u32)"
    using u by (simp_all add: take_bit_small unat_ucast_up)
  have "get_field 16 8 (pci_address bus slot func off) = take_bit 8 (ucast bus)"
    by (rule bit_word_eqI) (auto simp: get_field_def pci_address_def bit_simps pci_constant_bits b)
  moreover have "get_field 11 5 (pci_address bus slot func off) = take_bit 5 (ucast slot)"
    by (rule bit_word_eqI) (auto simp: get_field_def pci_address_def bit_simps pci_constant_bits b)
  moreover have "get_field 8 3 (pci_address bus slot func off) = take_bit 3 (ucast func)"
    by (rule bit_word_eqI) (auto simp: get_field_def pci_address_def bit_simps pci_constant_bits b)
  moreover have "get_field 2 6 (pci_address bus slot func off) = take_bit 6 (ucast (drop_bit 2 off))"
    by (rule bit_word_eqI) (auto simp: get_field_def pci_address_def bit_simps pci_constant_bits b)
  ultimately show "conf_key (pci_address bus slot func off) = key bus slot func off" by (simp add: conf_key_def small)
  show "bit (pci_address bus slot func off) 31" by (simp add: pci_address_def bit_simps pci_constant_bits)
qed

lemma config_read:
  assumes "mechanism p ab" "slot < 32" "func < 8"
  obtains s' where "pciConfigReadLong p bus slot func off s = (space (ab (a_hw s)) (key bus slot func off), s')"
    "space (ab (a_hw s')) = space (ab (a_hw s))" "a_mem s' = a_mem s" "a_con s' = a_con s"
proof -
  define d where "d = l_out p 0xCF8 (pci_address bus slot func off) (a_hw s)"
  have d: "ab d = (ab (a_hw s))\<lparr>latch := pci_address bus slot func off\<rparr>" using assms(1) by (simp add: mechanism_def d_def)
  then have "fst (l_in p 0xCFC d) = space (ab (a_hw s)) (key bus slot func off)" "ab (snd (l_in p 0xCFC d)) = ab d"
    using assms(1) pci_address_key [OF assms(2,3)] unfolding mechanism_def by simp_all
  then show thesis using d
    by (intro that [of "s\<lparr>a_hw := snd (l_in p 0xCFC d)\<rparr>"])
      (simp_all add: pciConfigReadLong_def sysOutLong_def sysInLong_def d_def split_beta)
qed

lemma config_read_word:
  "pciConfigReadWord p bus slot func off s =
     (let (v, s) = pciConfigReadLong p bus slot func off s in (ucast (drop_bit (unat (off AND 2) * 8) v), s))"
proof -
  have "ucast (v AND 0xFFFF) = (ucast v :: u16)" for v :: u32
  proof (rule bit_word_eqI)
    fix n assume "n < LENGTH(16)"
    moreover have "(0xFFFF :: u32) = mask 16" by (simp add: mask_eq_exp_minus_1)
    then have "bit (0xFFFF :: u32) n \<longleftrightarrow> n < 16" by (simp only: bit_mask_iff) auto
    ultimately show "bit (ucast (v AND 0xFFFF) :: u16) n \<longleftrightarrow> bit (ucast v :: u16) n" by (simp add: bit_simps)
  qed
  then show ?thesis by (simp add: pciConfigReadWord_def pciConfigReadLong_def split_beta Let_def)
qed

lemma ucast_byte: "(ucast (x :: u8) :: u32) = ucast y \<longleftrightarrow> x = y"
proof
  assume "(ucast x :: u32) = ucast y"
  then have "unat (ucast x :: u32) = unat (ucast y :: u32)" by simp
  then show "x = y" by (simp add: unat_ucast_up word_unat_eq_iff)
qed simp


definition example_pci :: "conf pci" where
  "example_pci = \<lparr>
     l_in = \<lambda>port d. (if port = 0xCFC \<and> bit (latch d) 31 then space d (conf_key (latch d)) else 0, d),
     l_out = \<lambda>port v d.
       if port = 0xCF8 then d\<lparr>latch := v\<rparr>
       else if port = 0xCFC \<and> bit (latch d) 31 then d\<lparr>space := (space d)(conf_key (latch d) := v)\<rparr>
       else d,
     hba_at = \<lambda>_. \<lparr>h_in = \<lambda>_ _ (m, d). (0, m, d), h_out = \<lambda>_ _ _ x. x, h_clb = \<lambda>_ _. 0, h_pi = \<lambda>_. 0\<rparr>\<rparr>"

lemma example_mechanism: "mechanism example_pci (\<lambda>d. d)"
  by (simp add: mechanism_def example_pci_def)

definition example_conf :: "conf ahci" where
  "example_conf = \<lparr>a_mem = \<lambda>_. 0, a_hw = \<lparr>latch = 0, space = \<lambda>_. 0x29228086\<rparr>, a_con = example_screen\<rparr>"


text \<open>A bus without functions (every register reads as ones): the search says nothing and changes no memory.\<close>

definition empty_bus :: "('d \<Rightarrow> conf) \<Rightarrow> screen \<Rightarrow> bmem \<Rightarrow> 'd ahci \<Rightarrow> bool" where
  "empty_bus ab con m s \<longleftrightarrow> space (ab (a_hw s)) = (\<lambda>_. 0xFFFFFFFF) \<and> a_con s = con \<and> a_mem s = m"

lemma rfold_total:
  assumes "\<And>i s. i \<in> set is \<Longrightarrow> P s \<Longrightarrow> \<exists>s'. f i s = Inr s' \<and> P s'" and "P s"
  shows "\<exists>s'. rfold f is s = Inr s' \<and> P s'"
  using assms
proof (induction "is" arbitrary: s)
  case (Cons i "is")
  then obtain s1 where s1: "f i s = Inr s1" "P s1" by (metis list.set_intros(1))
  with Cons.IH [of s1] Cons.prems(1) show ?case by simp
qed simp

lemma checkDevice_empty:
  assumes "mechanism p ab" "slot < 32" "func < 8" "empty_bus ab con m s"
  shows "\<exists>s'. checkDevice p bus slot func s = Inr s' \<and> empty_bus ab con m s'"
proof -
  obtain s' where "pciConfigReadLong p bus slot func 0 s = (space (ab (a_hw s)) (key bus slot func 0), s')"
    "space (ab (a_hw s')) = space (ab (a_hw s))" "a_mem s' = a_mem s" "a_con s' = a_con s" by (rule config_read [OF assms(1-3)])
  then have s': "pciConfigReadLong p bus slot func 0 s = (0xFFFFFFFF, s')" "empty_bus ab con m s'"
    using assms(4) by (simp_all add: empty_bus_def)
  then have "pciConfigReadWord p bus slot func 0 s = (0xFFFF, s')" by (simp add: config_read_word)
  then show ?thesis using s'(2) by (simp add: checkDevice_def getVendorID_def)
qed

lemma checkAllBuses_empty:
  assumes "mechanism p ab" "empty_bus ab con m s"
  shows "\<exists>s'. checkAllBuses p s = Inr s' \<and> empty_bus ab con m s'"
proof -
  have "(of_nat j :: u8) < 32" if "j < 32" for j using that by (simp add: word_less_nat_alt unat_of_nat_lt)
  moreover have "(of_nat j :: u8) < 8" if "j < 7" for j using that by (simp add: word_less_nat_alt unat_of_nat_lt)
  ultimately show ?thesis unfolding checkAllBuses_def
    by (intro rfold_total checkDevice_empty [OF assms(1)] assms(2)) auto
qed

end
