(* ===== verification/User_Printf.thy ===== *)
theory User_Printf
  imports User_Lib
begin

text \<open>
  The rest of the C library: \<^verbatim>\<open>printf\<close> of \<^verbatim>\<open>libc/printf.c\<close>, which cuts the format into rows and
  prints these, and the remaining wrappers of system calls. The local arrays of \<^verbatim>\<open>printf\<close> are not
  initialised; their first contents are arguments of the model.
\<close>

section \<open>Wrappers\<close>

definition syscall4 :: "(u64 \<Rightarrow> string) \<Rightarrow> u64 \<Rightarrow> u64 \<Rightarrow> u64 \<Rightarrow> u64 \<Rightarrow> u64 \<Rightarrow> 'a fskernel_scheme \<Rightarrow>
    (sysres \<times> uwrites \<times> 'a fskernel_scheme) res" where
  "syscall4 ustr nr a b c d s = isr128 ustr no_strs nr ((regs a b c)\<lparr>rsi := d\<rparr>) s"

definition fork_call :: "'a fskernel_scheme \<Rightarrow> (sysres \<times> uwrites \<times> 'a fskernel_scheme) res" where
  "fork_call s = syscall0 57 s"

definition exit_call :: "int \<Rightarrow> 'a fskernel_scheme \<Rightarrow> (sysres \<times> uwrites \<times> 'a fskernel_scheme) res" where
  "exit_call status s = syscall1 (\<lambda>_. []) 60 (word_of_int status) s"

text \<open>The two vectors lie at different addresses, here 1 and 2.\<close>

definition execvp_call :: "string \<Rightarrow> string list \<Rightarrow> string list \<Rightarrow> 'a fskernel_scheme \<Rightarrow> (sysres \<times> uwrites \<times> 'a fskernel_scheme) res" where
  "execvp_call file argv env s = syscall3 (\<lambda>_. file) (\<lambda>a. if a = 1 then argv else env) 59 0 1 2 s"

definition wait_call :: "u64 \<Rightarrow> 'a fskernel_scheme \<Rightarrow> (sysres \<times> uwrites \<times> 'a fskernel_scheme) res" where
  "wait_call status s = syscall4 (\<lambda>_. []) 61 (- 1) status 0 0 s"

definition waitpid_call :: "int \<Rightarrow> u64 \<Rightarrow> 'a fskernel_scheme \<Rightarrow> (sysres \<times> uwrites \<times> 'a fskernel_scheme) res" where
  "waitpid_call pid status s = syscall2 (\<lambda>_. []) 247 (word_of_int pid) status s"

definition getpid_call :: "'a fskernel_scheme \<Rightarrow> (int \<times> 'a fskernel_scheme) res" where
  "getpid_call s = rbind (value_of (syscall0 39 s)) (\<lambda>(v, _, s). Inr (v, s))"

definition getppid_call :: "'a fskernel_scheme \<Rightarrow> (int \<times> 'a fskernel_scheme) res" where
  "getppid_call s = rbind (value_of (syscall0 110 s)) (\<lambda>(v, _, s). Inr (v, s))"

definition sleep_call :: "u32 \<Rightarrow> 'a fskernel_scheme \<Rightarrow> (sysres \<times> uwrites \<times> 'a fskernel_scheme) res" where
  "sleep_call secs s = syscall1 (\<lambda>_. []) 35 (ucast secs) s"

definition dup2_call :: "int \<Rightarrow> int \<Rightarrow> 'a fskernel_scheme \<Rightarrow> (int \<times> 'a fskernel_scheme) res" where
  "dup2_call fd1 fd2 s = rbind (value_of (syscall2 (\<lambda>_. []) 33 (word_of_int fd1) (word_of_int fd2) s)) (\<lambda>(v, _, s). Inr (v, s))"

definition lseek_call :: "int \<Rightarrow> u64 \<Rightarrow> int \<Rightarrow> 'a fskernel_scheme \<Rightarrow> (int \<times> 'a fskernel_scheme) res" where
  "lseek_call fd off p s =
     rbind (value_of (syscall3 (\<lambda>_. []) no_strs 8 (word_of_int fd) off (word_of_int p) s)) (\<lambda>(v, _, s). Inr (v, s))"

definition pipe_call :: "u64 \<Rightarrow> 'a fskernel_scheme \<Rightarrow> (int \<times> 'a fskernel_scheme) res" where
  "pipe_call fd s = rbind (value_of (syscall1 (\<lambda>_. []) 22 fd s)) (\<lambda>(v, _, s). Inr (v, s))"

text \<open>\<^verbatim>\<open>gets\<close> into a buffer at address \<open>a\<close>; it may have to wait for a line.\<close>

definition gets_call :: "u64 \<Rightarrow> 'a fskernel_scheme \<Rightarrow> (sysres \<times> uwrites \<times> 'a fskernel_scheme) res" where
  "gets_call a s = syscall3 (\<lambda>_. []) no_strs 0 0 a 4096 s"

text \<open>
  \<^verbatim>\<open>putchar\<close> passes the address of its argument: what the kernel prints is the bytes of the number up to
  the first zero.
\<close>

definition int_bytes :: "u32 \<Rightarrow> string" where
  "int_bytes c = map (\<lambda>k. char_of (unat (ucast (drop_bit (8 * k) c) :: u8))) [0..<4]"

definition fputchar :: "u32 \<Rightarrow> int \<Rightarrow> 'a fskernel_scheme \<Rightarrow> 'a fskernel_scheme res" where
  "fputchar c fd s =
     (if CHR 0x00 \<notin> set (int_bytes c) then Inl OutOfBounds
      else rbind (value_of (syscall3 (\<lambda>_. takeWhile (\<lambda>b. b \<noteq> CHR 0x00) (int_bytes c)) no_strs 1 (word_of_int fd) 0 1 s)) (\<lambda>(_, _, s). Inr s))"

definition putchar :: "u32 \<Rightarrow> 'a fskernel_scheme \<Rightarrow> 'a fskernel_scheme res" where
  "putchar c s = fputchar c 1 s"

definition fputs :: "string \<Rightarrow> int \<Rightarrow> 'a fskernel_scheme \<Rightarrow> 'a fskernel_scheme res" where
  "fputs t fd s = puts t s"

text \<open>\<^verbatim>\<open>fgetc\<close> reads into a variable of one byte.\<close>

definition fgetc :: "int \<Rightarrow> 'a fskernel_scheme \<Rightarrow> (string \<times> 'a fskernel_scheme) res" where
  "fgetc fd s =
     rbind (value_of (syscall3 (\<lambda>_. []) no_strs 0 (word_of_int fd) 0 1 s)) (\<lambda>(_, out, s).
     rbind (into_buffer 1 [] out) (\<lambda>b. Inr (b, s)))"

section \<open>Numbers\<close>

text \<open>The digits \<^verbatim>\<open>print_int\<close> stores from the end of its buffer on; \<^verbatim>\<open>nums\<close> has no negative indices.\<close>

function uint_digits :: "int \<Rightarrow> string res" where
  "uint_digits num =
     (let d = cmod num 10 in
      if d < 0 then Inl OutOfBounds
      else if cdiv num 10 \<noteq> 0 then rbind (uint_digits (cdiv num 10)) (\<lambda>t. Inr (t @ [''0123456789'' ! nat d]))
      else Inr [''0123456789'' ! nat d])"
  by pat_completeness auto
termination
proof (relation "measure (nat \<circ> abs)")
  fix num :: int and d assume "cdiv num 10 \<noteq> 0"
  then have "num \<noteq> 0" by (auto simp: cdiv_def)
  then have "\<bar>cdiv num 10\<bar> < \<bar>num\<bar>" by (simp add: cdiv_def abs_mult)
  then show "(cdiv num 10, num) \<in> measure (nat \<circ> abs)" by simp
qed simp

declare uint_digits.simps [simp del]

definition uprint_int :: "int \<Rightarrow> 'a fskernel_scheme \<Rightarrow> 'a fskernel_scheme res" where
  "uprint_int num s = rbind (uint_digits num) (\<lambda>t. puts t s)"

text \<open>
  The arrays of \<^verbatim>\<open>print_pointer\<close> and \<^verbatim>\<open>print_hex\<close> hold the digits from the last one on, as in the
  kernel. The first is printed in that order. Of the second, which gets no terminating zero and so goes on with what
  \<open>junk\<close> says, the string from each position on is printed, starting with the last digit stored.
\<close>

definition uprint_pointer :: "u64 \<Rightarrow> 'a fskernel_scheme \<Rightarrow> 'a fskernel_scheme res" where
  "uprint_pointer i s = puts (pointer_digits i) s"

definition cstr_from :: "string \<Rightarrow> nat \<Rightarrow> string res" where
  "cstr_from a k =
     (if CHR 0x00 \<in> set (drop k a) then Inr (takeWhile (\<lambda>c. c \<noteq> CHR 0x00) (drop k a)) else Inl OutOfBounds)"

definition uprint_hex :: "string \<Rightarrow> int \<Rightarrow> 'a fskernel_scheme \<Rightarrow> 'a fskernel_scheme res" where
  "uprint_hex junk i s =
     (let ds = hex_digits i; a = ds @ drop (length ds) junk in
      rfold (\<lambda>k s. rbind (cstr_from a k) (\<lambda>t. puts t s)) (rev [0..<length ds]) s)"

section \<open>Formats\<close>

text \<open>
  \<^verbatim>\<open>string_split\<close>: \<open>temp\<close> is the array of 50 characters, \<open>rows\<close> gives the strings in the array of 100
  rows; \<open>i\<close> and \<open>j\<close> are the next row and the next position in \<open>temp\<close>. A percent sign at the end makes it read
  behind the format.
\<close>

abbreviation n_piece :: nat where "n_piece \<equiv> 50"
abbreviation n_rows :: nat where "n_rows \<equiv> 100"

definition store_row :: "nat \<Rightarrow> string \<Rightarrow> (nat \<Rightarrow> string) \<Rightarrow> (nat \<Rightarrow> string) res" where
  "store_row i temp rows = rbind (cstr_from temp 0) (\<lambda>t. if i < n_rows then Inr (rows(i := t)) else Inl OutOfBounds)"

definition clear_temp :: "nat \<Rightarrow> string \<Rightarrow> string res" where
  "clear_temp j temp = (if j < n_piece then Inr (replicate (j + 1) NUL @ drop (j + 1) temp) else Inl BufferOverflow)"

fun split_loop :: "string \<Rightarrow> string \<Rightarrow> nat \<Rightarrow> nat \<Rightarrow> (nat \<Rightarrow> string) \<Rightarrow> (nat \<Rightarrow> string) res" where
  "split_loop [] temp i j rows = store_row i temp rows"
| "split_loop (c # cs) temp i j rows =
     (if c = CHR ''%'' then
        (case cs of
           [] \<Rightarrow> Inl OutOfBounds
         | d # ds \<Rightarrow>
             rbind (if temp ! 0 \<noteq> NUL
                    then rbind (store_row i temp rows) (\<lambda>rows. rbind (clear_temp j temp) (\<lambda>temp. Inr (i + 1, temp, rows)))
                    else Inr (i, temp, rows)) (\<lambda>(i, temp, rows).
             rbind (store_row i (temp[0 := CHR ''%'', 1 := d]) rows) (\<lambda>rows.
             split_loop ds (temp[0 := NUL, 1 := NUL]) (i + 1) 0 rows)))
      else if c = CHR 0x0A \<or> c = CHR 0x09 then
        rbind (if temp ! 0 \<noteq> NUL then store_row i temp rows else Inr rows) (\<lambda>rows.
        rbind (clear_temp j temp) (\<lambda>temp.
        rbind (store_row (i + 1) (temp[0 := c]) rows) (\<lambda>rows.
        split_loop cs (temp[0 := NUL]) (i + 2) 0 rows)))
      else if j < n_piece then split_loop cs (temp[j := c]) i (j + 1) rows
      else Inl BufferOverflow)"

text \<open>The loop of \<^verbatim>\<open>printf\<close>, with \<open>n\<close> rows to go.\<close>

fun print_rows :: "nat \<Rightarrow> nat \<Rightarrow> string \<Rightarrow> (nat \<Rightarrow> string) \<Rightarrow> varg list \<Rightarrow> 'a fskernel_scheme \<Rightarrow> 'a fskernel_scheme res" where
  "print_rows 0 i junk rows as s = Inr s"
| "print_rows (Suc n) i junk rows as s =
     (let t = rows i in
      if t = [] then Inr s
      else if t = ''%d'' then
        (case as of VInt v # as \<Rightarrow> rbind (uprint_int v s) (print_rows n (i + 1) junk rows as) | _ \<Rightarrow> Inl BadArgument)
      else if t = ''%s'' then
        (case as of VStr a # as \<Rightarrow> rbind (puts a s) (print_rows n (i + 1) junk rows as) | _ \<Rightarrow> Inl BadArgument)
      else if t = ''%x'' then
        (case as of VInt v # as \<Rightarrow> rbind (uprint_hex junk v s) (print_rows n (i + 1) junk rows as) | _ \<Rightarrow> Inl BadArgument)
      else if t = ''%p'' then
        rbind (puts ''0'' s) (\<lambda>s. rbind (puts ''x'' s) (\<lambda>s.
        case as of VPtr p # as \<Rightarrow> rbind (uprint_pointer p s) (print_rows n (i + 1) junk rows as) | _ \<Rightarrow> Inl BadArgument))
      else rbind (puts t s) (print_rows n (i + 1) junk rows as))"

definition uprintf :: "string \<Rightarrow> (nat \<Rightarrow> string) \<Rightarrow> string \<Rightarrow> string \<Rightarrow> varg list \<Rightarrow> 'a fskernel_scheme \<Rightarrow> 'a fskernel_scheme res" where
  "uprintf temp rows junk str as s =
     rbind (split_loop str temp 0 0 rows) (\<lambda>rows. print_rows n_rows 0 junk rows as s)"

section \<open>What the numbers look like\<close>

lemma nums_digit: "d < 10 \<Longrightarrow> ''0123456789'' ! d = digit d"
proof -
  have "list_all (\<lambda>d. ''0123456789'' ! d = digit d) [0..<10]" by code_simp
  then show "d < 10 \<Longrightarrow> ''0123456789'' ! d = digit d" by (simp only: list_all_iff) auto
qed

lemma uint_digits_decimal: "uint_digits (int n) = Inr (decimal n)"
proof (induction n rule: less_induct)
  case (less n)
  have d: "cdiv (int n) 10 = int (n div 10)" "cmod (int n) 10 = int (n mod 10)"
    by (simp_all add: cdiv_nonneg cmod_nonneg zdiv_int zmod_int)
  show ?case
  proof (cases "n < 10")
    case False
    moreover from this have "n div 10 \<noteq> 0" by simp
    ultimately show ?thesis using less [of "n div 10"]
      by (subst uint_digits.simps, subst decimal.simps) (simp add: d nums_digit Let_def del: of_nat_div of_nat_mod zdiv_int zmod_int)
  qed (subst uint_digits.simps, subst decimal.simps, simp add: d nums_digit Let_def)
qed

lemma uint_digits_negative: "num < 0 \<Longrightarrow> uint_digits num = Inl OutOfBounds"
proof (induction num rule: uint_digits.induct)
  case (1 num)
  have c: "cdiv num 10 = - (- num div 10)" "cmod num 10 = - (- num mod 10)"
    using 1(2) by (simp_all add: cdiv_def cmod_def minus_div_mult_eq_mod [symmetric])
  show ?case
  proof (cases "- num mod 10 = 0")
    case True
    then have "- num div 10 > 0" using 1(2) by (simp add: pos_imp_zdiv_pos_iff zdvd_imp_le dvd_eq_mod_eq_0)
    then show ?thesis using 1(1) c True by (subst uint_digits.simps) (simp add: Let_def)
  next
    case False
    then have "cmod num 10 < 0" using c pos_mod_sign [of 10 "- num"] by linarith
    then show ?thesis by (subst uint_digits.simps) (simp add: Let_def)
  qed
qed

section \<open>What a format prints\<close>

text \<open>
  A format as a list of pieces: text without percent signs, line ends and tabs, a conversion, a line end or tab. The
  second argument says whether a text came last; a line end must follow one, and texts have at most 49 characters.
\<close>

datatype piece = Lit string | Conv char | Break char

fun row_text :: "piece \<Rightarrow> string" where
  "row_text (Lit t) = t"
| "row_text (Conv d) = [CHR ''%'', d]"
| "row_text (Break c) = [c]"

definition plain_text :: "string \<Rightarrow> bool" where
  "plain_text t \<longleftrightarrow> set t \<inter> {NUL, CHR ''%'', CHR 0x0A, CHR 0x09} = {}"

fun good_pieces :: "bool \<Rightarrow> piece list \<Rightarrow> bool" where
  "good_pieces text [] \<longleftrightarrow> True"
| "good_pieces text (Lit t # pcs) \<longleftrightarrow> \<not> text \<and> t \<noteq> [] \<and> length t < n_piece \<and> plain_text t \<and> good_pieces True pcs"
| "good_pieces text (Conv d # pcs) \<longleftrightarrow> d \<noteq> NUL \<and> good_pieces False pcs"
| "good_pieces text (Break c # pcs) \<longleftrightarrow> text \<and> (c = CHR 0x0A \<or> c = CHR 0x09) \<and> good_pieces False pcs"

text \<open>What the pieces should print: the reference for \<^verbatim>\<open>printf\<close>.\<close>

fun emit :: "string \<Rightarrow> piece list \<Rightarrow> varg list \<Rightarrow> 'a fskernel_scheme \<Rightarrow> 'a fskernel_scheme res" where
  "emit junk [] as s = Inr s"
| "emit junk (Conv d # pcs) as s =
     (if d = CHR ''d'' then (case as of VInt v # as \<Rightarrow> rbind (uprint_int v s) (emit junk pcs as) | _ \<Rightarrow> Inl BadArgument)
      else if d = CHR ''s'' then (case as of VStr a # as \<Rightarrow> rbind (puts a s) (emit junk pcs as) | _ \<Rightarrow> Inl BadArgument)
      else if d = CHR ''x'' then (case as of VInt v # as \<Rightarrow> rbind (uprint_hex junk v s) (emit junk pcs as) | _ \<Rightarrow> Inl BadArgument)
      else if d = CHR ''p'' then
        rbind (puts ''0'' s) (\<lambda>s. rbind (puts ''x'' s) (\<lambda>s.
        case as of VPtr p # as \<Rightarrow> rbind (uprint_pointer p s) (emit junk pcs as) | _ \<Rightarrow> Inl BadArgument))
      else rbind (puts [CHR ''%'', d] s) (emit junk pcs as))"
| "emit junk (x # pcs) as s = rbind (puts (row_text x) s) (emit junk pcs as)"

text \<open>The array \<open>temp\<close> with a text at its beginning and zeros behind it.\<close>

definition temp_with :: "string \<Rightarrow> string" where
  "temp_with p = p @ replicate (n_piece - length p) NUL"

lemma cstr_from_temp: "length p < n_piece \<Longrightarrow> NUL \<notin> set p \<Longrightarrow> cstr_from (temp_with p) 0 = Inr p"
proof -
  assume "length p < n_piece" "NUL \<notin> set p"
  moreover from this obtain k where "n_piece - length p = Suc k" by (metis Suc_diff_Suc)
  moreover have "takeWhile (\<lambda>c. c \<noteq> NUL) (p @ NUL # u) = p" if "NUL \<notin> set p" for u
    using that by (subst takeWhile_append2) auto
  ultimately show ?thesis by (simp add: cstr_from_def temp_with_def)
qed

lemma clear_temp_with: "length p < n_piece \<Longrightarrow> clear_temp (length p) (temp_with p) = Inr (temp_with [])"
  by (simp add: clear_temp_def temp_with_def replicate_add [symmetric] del: replicate_Suc)

lemma temp_put: "length p < n_piece \<Longrightarrow> (temp_with p)[length p := c] = temp_with (p @ [c])"
proof -
  assume "length p < n_piece"
  then obtain k where "n_piece - length p = Suc k" "n_piece - Suc (length p) = k" by (metis Suc_diff_Suc diff_Suc_Suc)
  then show ?thesis by (simp add: temp_with_def)
qed

lemma split_text:
  "plain_text t \<Longrightarrow> length p + length t < n_piece \<Longrightarrow>
     split_loop (t @ cs) (temp_with p) i (length p) rows = split_loop cs (temp_with (p @ t)) i (length p + length t) rows"
proof (induction t arbitrary: p)
  case (Cons c t)
  then have "plain_text t" "c \<noteq> CHR ''%''" "c \<noteq> CHR 0x0A" "c \<noteq> CHR 0x09" by (auto simp: plain_text_def)
  with Cons.prems Cons.IH [of "p @ [c]"] show ?case by (simp add: temp_put)
qed simp

text \<open>The rows from \<open>i\<close> on.\<close>

definition put_rows :: "nat \<Rightarrow> string list \<Rightarrow> (nat \<Rightarrow> string) \<Rightarrow> (nat \<Rightarrow> string)" where
  "put_rows i ts rows = (\<lambda>k. if i \<le> k \<and> k < i + length ts then ts ! (k - i) else rows k)"

lemma put_rows_Cons: "put_rows i (t # ts) rows = put_rows (Suc i) ts (rows(i := t))"
proof
  fix k show "put_rows i (t # ts) rows k = put_rows (Suc i) ts (rows(i := t)) k"
    by (cases "k = i") (auto simp: put_rows_def nth_Cons')
qed

lemma put_rows_Nil [simp]: "put_rows i [] rows = rows"
  by (rule ext) (auto simp: put_rows_def)

lemma store_row_temp: "length p < n_piece \<Longrightarrow> NUL \<notin> set p \<Longrightarrow> i < n_rows \<Longrightarrow> store_row i (temp_with p) rows = Inr (rows(i := p))"
  by (simp add: store_row_def cstr_from_temp)

lemma temp_pair: "(temp_with [])[0 := c] = temp_with [c]" "(temp_with [c])[Suc 0 := d] = temp_with [c, d]"
    "temp_with [NUL] = temp_with []" "(temp_with [])[Suc 0 := NUL] = temp_with []"
  by (simp_all add: temp_with_def numeral_eq_Suc)

lemma temp_head: "length p < n_piece \<Longrightarrow> temp_with p ! 0 \<noteq> NUL \<longleftrightarrow> p \<noteq> [] \<and> hd p \<noteq> NUL"
  by (cases p) (simp_all add: temp_with_def numeral_eq_Suc)

lemma split_pieces:
  assumes "good_pieces (p \<noteq> []) pcs" "plain_text p" "length p < n_piece" "i + (if p = [] then 0 else 1) + length pcs < n_rows" "\<forall>k\<ge>i. rows k = []"
  shows "split_loop (concat (map row_text pcs)) (temp_with p) i (length p) rows =
    Inr (put_rows i ((if p = [] then [] else [p]) @ map row_text pcs) rows)"
  using assms
proof (induction pcs arbitrary: p i rows)
  case Nil
  have "NUL \<notin> set p" using Nil.prems(2) by (auto simp: plain_text_def)
  moreover have "rows(i := []) = rows" using Nil.prems(5) by auto
  ultimately show ?case using Nil.prems by (simp add: store_row_temp put_rows_Cons)
next
  case (Cons x pcs)
  have p: "NUL \<notin> set p" "p \<noteq> [] \<Longrightarrow> hd p \<noteq> NUL" using Cons.prems(2) by (cases p; auto simp: plain_text_def)+
  have go: "split_loop (concat (map row_text pcs)) (temp_with []) (Suc i') 0 (rows'(i' := t)) = Inr (put_rows i' (t # map row_text pcs) rows')"
    if g: "good_pieces False pcs" "Suc i' + length pcs < n_rows" "\<forall>k\<ge>i'. rows' k = []" for i' rows' t
  proof -
    have "good_pieces ([] \<noteq> ([] :: string)) pcs" "plain_text []" "length ([] :: string) < n_piece"
      "Suc i' + (if [] = ([] :: string) then 0 else 1) + length pcs < n_rows" "\<forall>k\<ge>Suc i'. (rows'(i' := t)) k = []"
      using g by (simp_all add: plain_text_def)
    from Cons.IH [OF this] show ?thesis by (simp only: put_rows_Cons list.size refl if_True append_Nil)
  qed
  show ?case
  proof (cases x)
    case (Lit t)
    then have [simp]: "p = []" and t: "t \<noteq> []" "length t < n_piece" "plain_text t" "good_pieces True pcs" using Cons.prems(1) by auto
    then have "split_loop (t @ concat (map row_text pcs)) (temp_with []) i 0 rows =
        split_loop (concat (map row_text pcs)) (temp_with t) i (length t) rows"
      using split_text [of t "[]"] by simp
    also have "\<dots> = Inr (put_rows i (t # map row_text pcs) rows)" using Cons.IH [of t i rows] Cons.prems t by simp
    finally show ?thesis using Lit by simp
  next
    case (Conv d)
    then have d: "d \<noteq> NUL" "good_pieces False pcs" using Cons.prems(1) by auto
    show ?thesis
    proof (cases "p = []")
      case True
      then show ?thesis using Conv d Cons.prems go [of i rows "[CHR ''%'', d]"]
        by (simp add: temp_head [of "[]", simplified] temp_pair store_row_temp)
    next
      case False
      then show ?thesis using Conv d Cons.prems p go [of "Suc i" "rows(i := p)" "[CHR ''%'', d]"]
        by (simp add: temp_head temp_pair store_row_temp clear_temp_with put_rows_Cons)
    qed
  next
    case (Break c)
    then have c: "p \<noteq> []" "c = CHR 0x0A \<or> c = CHR 0x09" "good_pieces False pcs" using Cons.prems(1) by auto
    then have "c \<noteq> NUL" "c \<noteq> CHR ''%''" by auto
    then show ?thesis using Break c Cons.prems p go [of "Suc i" "rows(i := p)" "[c]"]
      by (simp add: temp_head temp_pair store_row_temp clear_temp_with put_rows_Cons)
  qed
qed

lemma print_rows_emit:
  fixes s :: "'a fskernel_scheme"
  assumes "good_pieces lit pcs" "length pcs \<le> n" "\<forall>k<length pcs. rows (i + k) = row_text (pcs ! k)" "rows (i + length pcs) = []"
  shows "print_rows n i junk rows as s = emit junk pcs as s"
  using assms
proof (induction pcs arbitrary: lit n i as s)
  case Nil
  then show ?case by (cases n) simp_all
next
  case (Cons x pcs)
  then obtain m where n: "n = Suc m" by (cases n) auto
  have row: "rows i = row_text x" using Cons.prems(3) by fastforce
  have "\<forall>k<length pcs. rows (Suc i + k) = row_text (pcs ! k)" using Cons.prems(3) by fastforce
  then have rest: "print_rows m (Suc i) junk rows = (emit junk pcs :: _ \<Rightarrow> 'a fskernel_scheme \<Rightarrow> _)" if "good_pieces lit' pcs" for lit'
    using Cons.IH [OF that, of m "Suc i"] Cons.prems(2,4) n by (intro ext) simp
  show ?case
  proof (cases x)
    case (Lit t)
    then have "t \<noteq> []" "CHR ''%'' \<notin> set t" "good_pieces True pcs" using Cons.prems(1) by (auto simp: plain_text_def)
    with rest [OF this(3)] Lit row n show ?thesis by auto
  next
    case (Conv d)
    then have "good_pieces False pcs" using Cons.prems(1) by simp
    from rest [OF this] Conv row n show ?thesis by (simp cong: list.case_cong varg.case_cong)
  next
    case (Break c)
    then have "good_pieces False pcs" using Cons.prems(1) by simp
    from rest [OF this] Break row n show ?thesis by simp
  qed
qed

text \<open>
  C22. \<^verbatim>\<open>printf\<close> of the library prints its format: for a format of fewer than 100 pieces (texts of at most 49
  characters, conversions, line ends and tabs that directly follow a text), on a stack that was zero, it prints the
  texts and the arguments in their order, and nothing overflows unless printing an argument does.
\<close>

theorem printf_prints_pieces:
  assumes "good_pieces False pcs" "length pcs < n_rows"
  shows "uprintf (temp_with []) (\<lambda>_. []) junk (concat (map row_text pcs)) as s = emit junk pcs as s"
proof -
  have "split_loop (concat (map row_text pcs)) (temp_with []) 0 0 (\<lambda>_. []) = Inr (put_rows 0 (map row_text pcs) (\<lambda>_. []))"
    using split_pieces [of "[]" pcs 0 "\<lambda>_. []"] assms by (simp add: plain_text_def)
  moreover have "print_rows n_rows 0 junk (put_rows 0 (map row_text pcs) (\<lambda>_. [])) as s = emit junk pcs as s"
    using assms by (intro print_rows_emit [OF assms(1)]) (simp_all add: put_rows_def)
  ultimately show ?thesis by (simp add: uprintf_def)
qed


theorem printf_prints_pieces_witness:
  "uprintf (temp_with []) (\<lambda>_. []) [] ''pid %d of %s.'' [VInt 42, VStr ''sbush''] example_fs =
     Inr (example_fs\<lparr>scr := fold put_to_screen ''pid 42 of sbush.'' (scr example_fs)\<rparr>)"
proof -
  let ?pcs = "[Lit ''pid '', Conv (CHR ''d''), Lit '' of '', Conv (CHR ''s''), Lit ''.'']"
  have "good_pieces False ?pcs" "length ?pcs < n_rows" by (simp_all add: plain_text_def)
  from printf_prints_pieces [OF this, of "[]" "[VInt 42, VStr ''sbush'']" example_fs]
  have "uprintf (temp_with []) (\<lambda>_. []) [] ''pid %d of %s.'' [VInt 42, VStr ''sbush''] example_fs =
      emit [] ?pcs [VInt 42, VStr ''sbush''] example_fs" by simp
  moreover have "decimal 42 = ''42''" by code_simp
  then have "uint_digits 42 = Inr ''42''" using uint_digits_decimal [of 42] by simp
  ultimately show ?thesis by (simp add: uprint_int_def puts_eq)
qed


section \<open>What the wrappers do\<close>

text \<open>
  A number below 256 that is not zero is printed as the one character it is; \<^verbatim>\<open>fputs\<close> ignores its file. The calls
  that the kernel does not know return 0 without any effect, \<^verbatim>\<open>wait\<close> among them.
\<close>

lemma putchar_prints:
  assumes "0 < unat c" "unat c < 256"
  shows "putchar c s = Inr (s\<lparr>scr := put_to_screen (char_of (unat c)) (scr s)\<rparr>)"
proof -
  have "drop_bit n c = 0" if "8 \<le> n" for n
  proof -
    have "unat c < 2 ^ n" using assms(2) power_increasing [OF that, of "2 :: nat"] by simp
    then have "unat (drop_bit n c) = 0" by (simp only: unat_drop_bit_eq) (simp add: drop_bit_eq_div)
    then show ?thesis by (simp only: unsigned_eq_0_iff)
  qed
  moreover have "char_of (0 :: nat) = NUL" by code_simp
  ultimately have "int_bytes c = [char_of (unat c), NUL, NUL, NUL]"
    using assms by (simp add: int_bytes_def upt_conv_Cons unsigned_ucast_eq take_bit_nat_eq_self)
  moreover have "char_of (unat c) \<noteq> NUL"
  proof
    assume "char_of (unat c) = NUL"
    then have "of_char (char_of (unat c) :: char) = (0 :: nat)" by simp
    then show False using assms by simp
  qed
  ultimately show ?thesis
    by (simp add: putchar_def fputchar_def value_of_def syscall3_def isr128_def regs_def kprintf_def)
qed

lemma unknown_calls_return:
  "wait_call st s = Inr (Ret 0, [], s)" "dup2_call a b s = Inr (0, s)" "lseek_call a off b s = Inr (0, s)" "pipe_call fd s = Inr (0, s)"
  by (simp_all add: wait_call_def dup2_call_def lseek_call_def pipe_call_def value_of_def syscall1_def syscall2_def syscall3_def syscall4_def unknown_calls)

text \<open>The kernel ends what it reads with a zero byte, which has no room in the variable of \<^verbatim>\<open>fgetc\<close>.\<close>

lemma fgetc_overflows:
  assumes "read_tarfs fd 1 s = Inr (n, b)" "1 < length b" "int32 fd" "fd \<noteq> 0"
  shows "fgetc fd s = Inl BufferOverflow"
proof -
  have "(word_of_int fd :: u64) \<noteq> 0" using as_int_word_of_int [OF assms(3)] assms(4) by auto
  moreover have "as_int (1 :: u64) = 1" by simp
  ultimately show ?thesis
    using assms(1,2) as_int_word_of_int [OF assms(3)]
    by (simp add: fgetc_def value_of_def syscall3_def isr128_def regs_def into_buffer_def)
qed

end
