(* ===== verification/Keyboard.thy ===== *)
theory Keyboard
  imports Terminal
begin

text \<open>
  The first keyboard driver, \<^verbatim>\<open>sys/keyboard.c\<close>: it shows the last key in the corner of the screen. Its
  successor \<^verbatim>\<open>sys/terminal.c\<close> has the same table and the same rules for the shift and control keys.
\<close>

definition kb_map :: "(char \<times> char) list" where
  "kb_map = [
     (CHR 0x00, CHR 0x00), (CHR 0x00, CHR 0x00), (CHR ''1'', CHR ''!''), (CHR ''2'', CHR ''@''),
     (CHR ''3'', CHR ''#''), (CHR ''4'', CHR ''$''), (CHR ''5'', CHR ''%''), (CHR ''6'', CHR ''^''),
     (CHR ''7'', CHR ''&''), (CHR ''8'', CHR ''*''), (CHR ''9'', CHR ''(''), (CHR ''0'', CHR '')''),
     (CHR ''-'', CHR ''_''), (CHR ''='', CHR ''+''), (CHR 0x08, CHR 0x08), (CHR 0x09, CHR 0x09),
     (CHR ''q'', CHR ''Q''), (CHR ''w'', CHR ''W''), (CHR ''e'', CHR ''E''), (CHR ''r'', CHR ''R''),
     (CHR ''t'', CHR ''T''), (CHR ''y'', CHR ''Y''), (CHR ''u'', CHR ''U''), (CHR ''i'', CHR ''I''),
     (CHR ''o'', CHR ''O''), (CHR ''p'', CHR ''P''), (CHR ''['', CHR ''{''), (CHR '']'', CHR ''}''),
     (CHR ''^'', CHR ''M''), (CHR '' '', CHR ''^''), (CHR ''a'', CHR ''A''), (CHR ''s'', CHR ''S''),
     (CHR ''d'', CHR ''D''), (CHR ''f'', CHR ''F''), (CHR ''g'', CHR ''G''), (CHR ''h'', CHR ''H''),
     (CHR ''j'', CHR ''J''), (CHR ''k'', CHR ''K''), (CHR ''l'', CHR ''L''), (CHR '';'', CHR '':''),
     (CHR 0x27, CHR 0x22), (CHR 0x60, CHR ''~''), (CHR 0x00, CHR 0x00), (CHR 0x5C, CHR ''|''),
     (CHR ''z'', CHR ''Z''), (CHR ''x'', CHR ''X''), (CHR ''c'', CHR ''C''), (CHR ''v'', CHR ''V''),
     (CHR ''b'', CHR ''B''), (CHR ''n'', CHR ''N''), (CHR ''m'', CHR ''M''), (CHR '','', CHR ''<''),
     (CHR ''.'', CHR ''>''), (CHR ''/'', CHR ''?''), (CHR 0x00, CHR 0x00), (CHR 0x00, CHR 0x00),
     (CHR 0x00, CHR 0x00), (CHR '' '', CHR '' '')]"

text \<open>The two cells of video memory behind \<^verbatim>\<open>preg\<close> and \<^verbatim>\<open>reg\<close>, and the two flags.\<close>

record kbd =
  k_preg :: char
  k_reg :: char
  k_caps :: bool
  k_ctrl :: bool

definition kb_char :: "nat \<Rightarrow> bool \<Rightarrow> char res" where
  "kb_char c sh =
     (if c < length kb_map then Inr (if sh then snd (kb_map ! c) else fst (kb_map ! c)) else Inl OutOfBounds)"

text \<open>The port is read twice, once for the test and once for the code.\<close>

definition kb :: "nat \<Rightarrow> nat \<Rightarrow> kbd \<Rightarrow> kbd res" where
  "kb port1 port2 s =
     (let c = (if port1 \<noteq> 0 then port2 else 0) in
      if c > 0 then
        if c > 128 then Inr s
        else if c = 28 then
          rbind (kb_char c False) (\<lambda>a. rbind (kb_char c True) (\<lambda>b. Inr (s\<lparr>k_preg := a, k_reg := b\<rparr>)))
        else if c = 29 then
          rbind (kb_char c True) (\<lambda>a. Inr (s\<lparr>k_ctrl := True, k_preg := a\<rparr>))
        else if c = 42 \<or> c = 54 then Inr (s\<lparr>k_caps := True\<rparr>)
        else
          rbind (if k_ctrl s then Inr (s\<lparr>k_ctrl := False, k_caps := True\<rparr>)
                 else rbind (kb_char 29 (k_ctrl s)) (\<lambda>a. Inr (s\<lparr>k_preg := a\<rparr>))) (\<lambda>s.
          rbind (kb_char c (k_caps s)) (\<lambda>key. Inr (s\<lparr>k_caps := False, k_reg := key\<rparr>)))
      else Inr s)"

section \<open>Behaviour\<close>

text \<open>The tables of the two drivers agree.\<close>

lemma kb_map_eq: "kb_map = code_map"
  by (simp add: kb_map_def code_map_def)

lemma kb_char_eq: "kb_char = key_char"
  by (intro ext) (simp add: kb_char_def key_char_def kb_map_eq)

text \<open>
  A key shows its character in the last cell, the shifted one if shift or control came before it, which is used up;
  the cell before it shows the sign of the control key or is blank. Codes from 58 to 128 index behind the table.
\<close>

lemma kb_shows_key:
  assumes "edit_code c"
  shows "kb c c s = Inr \<lparr>k_preg = (if k_ctrl s then k_preg s else CHR '' ''),
    k_reg = (if k_caps s \<or> k_ctrl s then snd (code_map ! c) else fst (code_map ! c)), k_caps = False, k_ctrl = False\<rparr>"
proof -
  have "fst (code_map ! 29) = CHR '' ''" by code_simp
  then show ?thesis using assms by (cases s) (auto simp: kb_def kb_char_eq key_char_def length_code_map edit_code_def)
qed

lemma kb_shift_key: "edit_code c \<Longrightarrow> \<exists>s'. rbind (kb 42 42 s) (kb c c) = Inr s' \<and> k_reg s' = snd (code_map ! c) \<and> \<not> k_caps s'"
  using kb_shows_key [of c] by (simp add: kb_def)

lemma kb_out_of_table: "58 \<le> c \<Longrightarrow> c \<le> 128 \<Longrightarrow> kb c c s = Inl OutOfBounds"
  by (simp add: kb_def kb_char_eq key_char_def length_code_map)

end
