(* ===== verification/Spec2Isabelle.thy ===== *)
theory Spec2Isabelle
  imports Prelude CString Phys_Alloc Page_Table Addr_Space Sched Process Heap_Area Timer Screen
    Terminal Page_Fault Tarfs Descriptors Loader Boot_Example Kernel
    Boot_Paging Boot User_Heap User_Malloc User_Start Shell User_Lib Shell_Kernel Ide
    Ide_Init Ahci Pci User_Printf Keyboard
begin

text \<open>
  A verification development of a small x86-64 operating system: the kernel under \<^verbatim>\<open>sys/\<close>, its C library
  under \<^verbatim>\<open>libc/\<close> and \<^verbatim>\<open>crt/\<close>, and the programs under \<^verbatim>\<open>bin/\<close>. All paths below are relative to
  \<^verbatim>\<open>src/\<close>.

  \<^bold>\<open>The program and how its parts interact.\<close> The boot loader enters \<^verbatim>\<open>boot\<close> and \<^verbatim>\<open>start\<close> of
  \<^verbatim>\<open>sys/main.c\<close>, which threads the free physical pages into a list (\<^verbatim>\<open>mem_map\<close>), builds the kernel's page
  tables (\<^verbatim>\<open>init_ia32e_paging\<close>), indexes the tar archive linked into the kernel (\<^verbatim>\<open>init_tarfs\<close>), fills the
  interrupt table (\<^verbatim>\<open>init_idt\<close>), creates the idle task and loads \<^verbatim>\<open>bin/sbush\<close>. From then on everything
  happens in interrupt handlers: the clock (\<^verbatim>\<open>timer_handler\<close>, which preempts and wakes sleepers), the keyboard
  (\<^verbatim>\<open>write_terminal\<close>, which fills the line buffer \<^verbatim>\<open>read\<close> takes lines from), page faults (\<^verbatim>\<open>isr14\<close>:
  copy on write after \<^verbatim>\<open>fork\<close>, growing stacks, ending tasks with bad accesses) and system calls
  (\<^verbatim>\<open>isr128\<close>). Programs enter the kernel through the macros of \<^verbatim>\<open>include/syscall.h\<close>.

  \<^bold>\<open>Conventions.\<close> C integers keep their width (\<open>u8\<close>, \<open>u16\<close>, \<open>u32\<close>, \<open>u64\<close> are words); signed \<^verbatim>\<open>int\<close>
  values are \<open>int\<close> with the overflow (which C leaves undefined) as a fault or as the conversion \<open>to_int\<close>. The
  result type \<open>'a res\<close> of Prelude is \<open>fault + 'a\<close>: an access behind an array, running out of pages, a string
  without end or a loop that does not end is a value \<open>Inl\<close>, so that a theorem about \<open>Inr\<close> also shows that no such
  thing happens. The kernel state is one extensible record that grows from theory to theory: \<open>palloc\<close> (free list)
  \<open>+\<close> \<open>vmem\<close> (memory, page tables) \<open>+\<close> \<open>kernel\<close> (task table) \<open>+\<close> \<open>clocked\<close>, \<open>screen\<close>, \<open>terminal\<close>, \<open>fskernel\<close>. A
  handler that calls \<^verbatim>\<open>yield\<close> in its middle is two definitions, the part up to the switch and the part that runs
  when the task is resumed.

  \<^bold>\<open>Theories, code and results.\<close>

  \<^item> Prelude: types, faults, \<open>rbind\<close>, the locale \<open>invariant_machine\<close> (a start predicate, a step relation and an
    invariant, interpreted by the console, the user heap and the whole kernel), lemmas on lists and words.
  \<^item> CString (\<^verbatim>\<open>sys/string.c\<close>, \<^verbatim>\<open>memcpy\<close>): string routines on byte-addressed memory.
  \<^item> Phys_Alloc (\<^verbatim>\<open>sys/paging.c\<close>, \<^verbatim>\<open>include/sys/mem.h\<close>): \<open>mem_map\<close>, \<open>allocate_page\<close>, \<open>free\<close>, reference
    counts. The list built at boot holds exactly the usable pages, and an allocated page is never handed out twice;
    the locale \<open>page_source\<close> states the contract its clients use.
  \<^item> Page_Table, Boot_Paging, Addr_Space (\<^verbatim>\<open>sys/paging.c\<close>): the four-level tables in memory. Mapping a page
    makes the processor's walk find it and leaves every other translation alone (also as a refinement of a finite
    map); the tables of boot map all memory directly; \<open>copytables\<close> and \<open>dealloc_pml4\<close>.
  \<^item> Boot (\<^verbatim>\<open>sys/main.c\<close>): from the memory map of the boot loader to a kernel with free pages and tables.
  \<^item> Sched (\<^verbatim>\<open>sys/proc_man.c\<close>, \<^verbatim>\<open>include/sys/process.h\<close>): tasks and \<open>yield\<close>; it picks the next runnable
    slot in cyclic order and starves no task (locale \<open>round_robin\<close>).
  \<^item> Process, Heap_Area (\<^verbatim>\<open>sys/process.c\<close>): slots, \<open>fork\<close>, \<open>exit\<close>, \<open>kill\<close>, \<open>wait\<close>, \<open>waitpid\<close>, \<open>sleep\<close>,
    \<open>malloc\<close>, and what they do to task table and address space.
  \<^item> Timer (\<^verbatim>\<open>sys/timer.c\<close>), Screen (\<^verbatim>\<open>sys/kprintf.c\<close>), Terminal (\<^verbatim>\<open>sys/terminal.c\<close>): the clock, the
    console with \<open>kprintf\<close>, the line discipline. Sleepers wake when their time has run out; the cursor and all
    writes stay on the screen; a typed line is what \<open>read\<close> returns.
  \<^item> Page_Fault (\<^verbatim>\<open>isr14\<close> of \<^verbatim>\<open>sys/idt.c\<close>), Descriptors (\<^verbatim>\<open>sys/idt.c\<close>, \<^verbatim>\<open>sys/gdt.c\<close>): faults, the
    descriptor tables bit by bit, exceptions.
  \<^item> Tarfs (\<^verbatim>\<open>sys/tarfs.c\<close>, \<^verbatim>\<open>include/sys/file.h\<close>): the archive's index, paths relative to the working directory, open
    files and directories.
  \<^item> Loader (\<^verbatim>\<open>sys/process.c\<close>), Boot_Example: \<open>create_process\<close>, \<open>execvpe\<close>, the argument block on the new
    stack; a concrete machine the witnesses of several theorems use.
  \<^item> Kernel: the dispatcher \<open>isr128\<close> and the step relation \<open>kstep\<close> of the running kernel (system calls, clock,
    keyboard, page faults, resumed tasks); its invariant holds in every reachable state.
  \<^item> User_Heap, User_Malloc (\<^verbatim>\<open>libc/malloc.c\<close>): the free list of a program, over any provider of storage (locale
    \<open>sbrk_source\<close>, interpreted by the kernel's \<open>malloc\<close>); blocks in use are disjoint, calls return.
  \<^item> User_Start (\<^verbatim>\<open>crt/crt1.c\<close>, \<^verbatim>\<open>libc/env.c\<close>), User_Lib (\<^verbatim>\<open>include/syscall.h\<close>, \<^verbatim>\<open>libc/\<close>, the
    programs \<^verbatim>\<open>cat\<close>, \<^verbatim>\<open>echo\<close>, \<^verbatim>\<open>ls\<close>, \<^verbatim>\<open>kill\<close>, \<^verbatim>\<open>ps\<close>, \<^verbatim>\<open>sleep\<close>): a program gets the arguments
    that were passed to \<open>execvpe\<close>; \<open>cat\<close> prints the file, \<open>ls\<close> the directory, on the kernel of theory Kernel.
  \<^item> Shell, Shell_Kernel (\<^verbatim>\<open>bin/sbush/sbush.c\<close>): the shell over a record of its library calls, and on the kernel.
  \<^item> Ide, Ide_Init (\<^verbatim>\<open>sys/ide.c\<close>): the disk driver over a port bus, with the ATA standard as the contract of a
    drive: transfers by polling, the detection of the drives and what it records of them, the interrupt flag, packet
    reads.
  \<^item> Ahci (\<^verbatim>\<open>sys/ahci.c\<close>, \<^verbatim>\<open>include/sys/ahci.h\<close>): the SATA driver over a controller that reads the memory.
    The regions of the command it builds in memory hold the whole transfer, its sector count only that of the last
    region; on a drive that executes commands a write of up to 16 sectors followed by a read gives
    the data back.
  \<^item> Pci (\<^verbatim>\<open>sys/pci.c\<close>): configuration access and the search of all buses; the access reaches exactly the
    addressed register.
  \<^item> User_Printf (\<^verbatim>\<open>libc/printf.c\<close>, \<^verbatim>\<open>include/syscall.h\<close>, the remaining wrappers of \<^verbatim>\<open>libc/\<close>): \<open>printf\<close> with its
    split of the format into rows, and where it loses a part of the output.
  \<^item> Keyboard (\<^verbatim>\<open>sys/keyboard.c\<close>): the keyboard driver that \<^verbatim>\<open>sys/terminal.c\<close> replaced.

  \<^bold>\<open>Parameters.\<close> Code and data outside the repository are arguments: the bytes of the archive and of the boot
  loader's module list, the addresses of the assembler entry stubs, the strings and vectors at a program's addresses
  (\<open>ustr\<close>, \<open>uvec\<close>) that a system call reads, the address of the statically allocated list head of a program's heap,
  the device registers behind the port bus, the registers of the AHCI controller and the PCI configuration ports, the
  bytes an uninitialised local array of \<^verbatim>\<open>printf\<close> happens to hold. Where a theorem needs that such a thing behaves (a
  drive that follows the ATA standard, a controller that executes the command it is given), the behaviour is a named
  hypothesis with a concrete instance in the witness.

  \<^bold>\<open>Loops.\<close> Loops whose end depends on data are \<open>partial_function (option)\<close>, and a run that does not return is the
  fault \<open>Hang\<close>: string scans, \<open>next_running\<close>, \<open>map_range\<close>, \<open>direct_map\<close>, \<open>find_smap\<close>, \<open>free_find\<close>, \<open>malloc_loop\<close>,
  \<open>ls_loop\<close>, \<open>busy_loop\<close>, \<open>ident_loop\<close>, \<open>irq_loop\<close>, \<open>drain_loop\<close>, \<open>completion_loop\<close>. The
  properties about their callers show the result \<open>Inr\<close>, so that they return (\<open>irq_loop\<close> and \<open>drain_loop\<close> wait for
  an interrupt or a device for which there is no such property). The only fuel is the number of rounds of
  the shell's endless loop, for which the theorems quantify over all numbers; the bound of \<open>spin_loop\<close> is the one the
  AHCI driver itself counts to.

  \<^bold>\<open>Not modelled.\<close> The assembler entry stubs (\<^verbatim>\<open>sys/*.s\<close>: saving and restoring registers); \<^verbatim>\<open>libc/string.c\<close>,
  the same text as \<^verbatim>\<open>sys/string.c\<close>; the routines \<^verbatim>\<open>getchar\<close> and \<^verbatim>\<open>fgets\<close> of the library; the fork stress
  test under \<^verbatim>\<open>bin/\<close>; \<^verbatim>\<open>sys/dir.c\<close> and \<^verbatim>\<open>libc/clone.c\<close>, whose code is commented out; the debugging dump
  \<^verbatim>\<open>printpml4\<close>, the helper \<^verbatim>\<open>getPhysical\<close> and \<^verbatim>\<open>init_timer\<close>, which nothing calls; the headers that only list
  constants (a constant the code uses is written where it is used).
\<close>

end
